(* ===== verification/Prelude.thy ===== *)
theory Prelude
  imports Main "HOL-Library.Word"
begin

text \<open>
  Shared vocabulary of the development: bytes, file descriptors, memory as seen through
  a \<^verbatim>\<open>const void *\<close>, the arithmetic of \<^verbatim>\<open>std::size_t\<close> with its
  wrap-around, and the generic lemmas on lists and memory ranges that the component
  theories share.  The collection \<open>szt_simps\<close> turns \<open>size_t\<close> arithmetic into
  arithmetic of natural numbers wherever no wrap-around happens.
\<close>

unbundle bit_operations_syntax

named_theorems szt_simps \<open>size_t arithmetic without wrap-around\<close>
named_theorems mem_simps \<open>memory ranges as lists\<close>

section \<open>Types\<close>

type_synonym byte = "8 word"
type_synonym u16 = "16 word"
type_synonym u32 = "32 word"

text \<open>\<^verbatim>\<open>io::file_descriptor_t\<close> of \<^verbatim>\<open>src/io/fd.hpp\<close>: an \<open>int\<close> with -1 for "closed".\<close>

type_synonym fd = int

text \<open>
  A pointer to bytes is the memory seen from it: cell \<open>p k\<close> is what the code reads at
  \<^verbatim>\<open>p[k]\<close>.  Reads beyond the object the pointer was made for are reads of whatever
  lies there, so an over-read is visible as a dependence on cells outside the object.
\<close>

type_synonym ptr = "nat \<Rightarrow> byte"

definition ptr_next :: "ptr \<Rightarrow> nat \<Rightarrow> ptr" where
  "ptr_next p n = (\<lambda>k. p (n + k))"

lemma ptr_next_0 [simp]: "ptr_next p 0 = p"
  by (simp add: ptr_next_def)

lemma ptr_next_apply [simp]: "ptr_next p n k = p (n + k)"
  by (simp add: ptr_next_def)

lemma ptr_next_next [simp]: "ptr_next (ptr_next p m) n = ptr_next p (m + n)"
  by (simp add: ptr_next_def add.assoc)

text \<open>The bytes of the half-open range \<open>[a, b)\<close>, and the memory holding a list at its start.\<close>

definition mem_range :: "(nat \<Rightarrow> 'a) \<Rightarrow> nat \<Rightarrow> nat \<Rightarrow> 'a list" where
  "mem_range p a b = map p [a..<b]"

definition list_ptr :: "ptr \<Rightarrow> byte list \<Rightarrow> ptr" where
  "list_ptr heap bs = (\<lambda>k. if k < length bs then bs ! k else heap k)"

lemma length_mem_range [mem_simps, simp]: "length (mem_range p a b) = b - a"
  by (simp add: mem_range_def)

lemma mem_range_empty [mem_simps, simp]: "b \<le> a \<Longrightarrow> mem_range p a b = []"
  by (simp add: mem_range_def)

lemma mem_range_Nil_iff [simp]: "mem_range p a b = [] \<longleftrightarrow> b \<le> a"
  by (auto simp: mem_range_def)

lemma mem_range_nth [mem_simps, simp]: "k < b - a \<Longrightarrow> mem_range p a b ! k = p (a + k)"
  by (simp add: mem_range_def)

lemma mem_range_Cons: "a < b \<Longrightarrow> mem_range p a b = p a # mem_range p (Suc a) b"
  by (simp add: mem_range_def upt_conv_Cons)

lemma mem_range_append: "a \<le> m \<Longrightarrow> m \<le> b \<Longrightarrow> mem_range p a b = mem_range p a m @ mem_range p m b"
  unfolding mem_range_def by (metis le_add_diff_inverse map_append upt_add_eq_append)

lemma mem_range_snoc: "a \<le> b \<Longrightarrow> mem_range p a (Suc b) = mem_range p a b @ [p b]"
  by (simp add: mem_range_def)

lemma mem_range_shift: "mem_range (ptr_next p n) a b = mem_range p (n + a) (n + b)"
  by (rule nth_equalityI) (simp_all add: add.assoc)

lemma mem_range_take: "a + n \<le> b \<Longrightarrow> take n (mem_range p a b) = mem_range p a (a + n)"
  by (rule nth_equalityI) simp_all

lemma mem_range_drop: "drop n (mem_range p a b) = mem_range p (a + n) b"
  by (rule nth_equalityI) (simp_all add: add.assoc)

lemma mem_range_cong:
  "a = a' \<Longrightarrow> b = b' \<Longrightarrow> (\<And>k. a \<le> k \<Longrightarrow> k < b \<Longrightarrow> p k = q k) \<Longrightarrow> mem_range p a b = mem_range q a' b'"
  by (simp add: mem_range_def)

lemma mem_range_list_ptr [mem_simps]:
  "a \<le> b \<Longrightarrow> b \<le> length bs \<Longrightarrow> mem_range (list_ptr heap bs) a b = take (b - a) (drop a bs)"
  by (rule nth_equalityI) (auto simp: list_ptr_def)

section \<open>std::size\_t\<close>

text \<open>
  A \<open>size_t\<close> value is a natural number below \<open>2 ^ 64\<close>; sums and differences wrap around.
\<close>

definition SIZE_T :: nat where
  "SIZE_T = 2 ^ 64"

definition szt_add :: "nat \<Rightarrow> nat \<Rightarrow> nat" where
  "szt_add a b = (a + b) mod SIZE_T"

definition szt_sub :: "nat \<Rightarrow> nat \<Rightarrow> nat" where
  "szt_sub a b = (a + (SIZE_T - b mod SIZE_T)) mod SIZE_T"

lemma szt_add_small [szt_simps]: "a + b < SIZE_T \<Longrightarrow> szt_add a b = a + b"
  by (simp add: szt_add_def)

lemma szt_sub_small [szt_simps]:
  assumes "b \<le> a" and "a < SIZE_T"
  shows "szt_sub a b = a - b"
proof -
  from assms have "b mod SIZE_T = b" by simp
  moreover from assms have "a + (SIZE_T - b) = (a - b) + SIZE_T" by arith
  ultimately have "szt_sub a b = ((a - b) + SIZE_T) mod SIZE_T" by (simp only: szt_sub_def)
  also have "\<dots> = a - b" using assms by (simp only: mod_add_self2) simp
  finally show ?thesis .
qed

lemma szt_sub_wrap: "a < b \<Longrightarrow> b < SIZE_T \<Longrightarrow> szt_sub a b = SIZE_T - (b - a)"
  by (simp add: szt_sub_def)

lemma SIZE_T_gt: "n < 2 ^ 64 \<Longrightarrow> n < SIZE_T"
  by (simp add: SIZE_T_def)

section \<open>Bytes\<close>

lemma unat_byte_less: "unat (b :: byte) < 256"
  using unsigned_less [of b] by simp

lemma unat_u32_less: "unat (n :: u32) < 4294967296"
  using unsigned_less [of n] by simp

lemma unat_u32_SIZE_T [simp]: "unat (n :: u32) < SIZE_T"
  using unat_u32_less [of n] by (simp add: SIZE_T_def)

section \<open>Lists\<close>

lemma take_drop_append_split:
  "n \<le> length xs \<Longrightarrow> xs = take n xs @ drop n xs"
  by simp

lemma drop_take_prefix: "n \<le> m \<Longrightarrow> take n (take m xs) = take n xs"
  by (simp add: min_def)

end
