(* ===== verification/Flags.thy ===== *)
theory Flags
  imports Prelude
begin

text \<open>
  \<^verbatim>\<open>src/io/flags.hpp\<close> and \<^verbatim>\<open>src/io/flags.cpp\<close>: the event flags that the bus
  hands to its callbacks.  A value is one byte; the constants are its enumerators, the
  operators its bitwise operators, \<open>flags_test\<close> the membership test every callback
  makes, \<open>flags_ostream\<close> the printed form.  The type is made a lattice of the library,
  with the code's operators as meet and join, so that the lattice laws apply to them.
\<close>

section \<open>The flags class\<close>

datatype flags = Flags (flags_value: "8 word")

definition flags_empty :: flags where "flags_empty = Flags 0"
definition flags_in :: flags where "flags_in = Flags 1"
definition flags_out :: flags where "flags_out = Flags 2"
definition flags_inout :: flags where "flags_inout = Flags 3"
definition flags_error :: flags where "flags_error = Flags 4"

lemmas flags_consts = flags_empty_def flags_in_def flags_out_def flags_inout_def flags_error_def

definition flags_test :: "flags \<Rightarrow> flags \<Rightarrow> bool" where
  "flags_test fl other =
     (if 0 = flags_value other then 0 = flags_value fl
      else flags_value other = (flags_value fl AND flags_value other))"

definition flags_or_assign :: "flags \<Rightarrow> flags \<Rightarrow> flags" where
  "flags_or_assign lh rh = Flags (flags_value lh OR flags_value rh)"

definition flags_or :: "flags \<Rightarrow> flags \<Rightarrow> flags" where
  "flags_or lh rh = flags_or_assign lh rh"

definition flags_and_assign :: "flags \<Rightarrow> flags \<Rightarrow> flags" where
  "flags_and_assign lh rh = Flags (flags_value lh AND flags_value rh)"

definition flags_and :: "flags \<Rightarrow> flags \<Rightarrow> flags" where
  "flags_and lh rh = flags_and_assign lh rh"

definition flags_ostream :: "flags \<Rightarrow> string" where
  "flags_ostream fl =
     (if flags_test fl flags_empty then ''[empty]'' else '''') @
     (if flags_test fl flags_in then ''[in]'' else '''') @
     (if flags_test fl flags_out then ''[out]'' else '''') @
     (if flags_test fl flags_error then ''[error]'' else '''')"

lemmas flags_ops = flags_or_def flags_or_assign_def flags_and_def flags_and_assign_def

section \<open>The flags as a lattice\<close>

instantiation flags :: distrib_lattice
begin

definition inf_flags :: "flags \<Rightarrow> flags \<Rightarrow> flags" where
  "inf_flags = flags_and"

definition sup_flags :: "flags \<Rightarrow> flags \<Rightarrow> flags" where
  "sup_flags = flags_or"

definition less_eq_flags :: "flags \<Rightarrow> flags \<Rightarrow> bool" where
  "less_eq_flags a b \<longleftrightarrow> flags_value a AND flags_value b = flags_value a"

definition less_flags :: "flags \<Rightarrow> flags \<Rightarrow> bool" where
  "less_flags a b \<longleftrightarrow> a \<le> b \<and> \<not> b \<le> (a :: flags)"

instance
proof
  fix x y z :: flags
  show "x < y \<longleftrightarrow> x \<le> y \<and> \<not> y \<le> x" by (simp add: less_flags_def)
  show "x \<le> x" by (simp add: less_eq_flags_def)
  show "x \<le> y \<Longrightarrow> y \<le> z \<Longrightarrow> x \<le> z"
    unfolding less_eq_flags_def by (metis and.assoc)
  show "x \<le> y \<Longrightarrow> y \<le> x \<Longrightarrow> x = y"
    unfolding less_eq_flags_def by (metis and.commute flags.expand)
  show "inf x y \<le> x" "inf x y \<le> y"
    by (simp_all add: less_eq_flags_def inf_flags_def flags_ops ac_simps)
  show "x \<le> y \<Longrightarrow> x \<le> z \<Longrightarrow> x \<le> inf y z"
    unfolding less_eq_flags_def inf_flags_def flags_ops by (metis and.assoc flags.sel)
  show "x \<le> sup x y" "y \<le> sup x y"
    by (simp_all add: less_eq_flags_def sup_flags_def flags_ops bit.conj_disj_distrib
        word_ao_absorbs)
  show "y \<le> x \<Longrightarrow> z \<le> x \<Longrightarrow> sup y z \<le> x"
    by (simp add: less_eq_flags_def sup_flags_def flags_ops bit.conj_disj_distrib2)
  show "sup x (inf y z) = inf (sup x y) (sup x z)"
    by (simp add: inf_flags_def sup_flags_def flags_ops bit.disj_conj_distrib)
qed

end

text \<open>A test against a non-empty flags value is the lattice order.\<close>

lemma flags_test_iff_le:
  "flags_test fl other \<longleftrightarrow> (if other = flags_empty then fl = flags_empty else other \<le> fl)"
  by (cases fl; cases other)
     (auto simp: flags_test_def less_eq_flags_def flags_empty_def and.commute)

text \<open>The single-bit flags, on which a test distributes over both operators.\<close>

lemma single_bit_word:
  assumes "x = 1 \<or> x = 2 \<or> x = (4 :: 8 word)"
  shows "x = (a AND x) \<longleftrightarrow> bit a (if x = 1 then 0 else if x = 2 then 1 else 2)"
proof -
  have p: "x = push_bit (if x = 1 then 0 else if x = 2 then 1 else 2) 1"
    using assms by auto
  define n :: nat where "n = (if x = 1 then 0 else if x = 2 then 1 else 2)"
  have n: "n < 8" by (simp add: n_def)
  have x: "x = push_bit n 1" using p by (simp add: n_def)
  have "a AND x = of_bool (bit a n) * x"
    unfolding x using n by (auto intro!: bit_word_eqI simp: bit_simps)
  moreover have "x \<noteq> 0" using assms by auto
  ultimately show ?thesis by (auto simp: n_def)
qed


section \<open>Values the class can hold\<close>

text \<open>
  A value is built from an enumerator or by the operators from other values, so it is below 8:
  that set is closed under the operators.
\<close>

definition flags_valid :: "flags \<Rightarrow> bool" where
  "flags_valid fl \<longleftrightarrow> flags_value fl < 8"

lemma flags_valid_iff: "flags_valid fl \<longleftrightarrow> flags_value fl AND 7 = flags_value fl"
proof -
  have "(flags_value fl AND mask 3 = flags_value fl) = (flags_value fl < 2 ^ 3)"
    by (rule mask_eq_iff_w2p) (simp add: word_size)
  then show ?thesis by (simp add: flags_valid_def mask_numeral)
qed

lemma flags_valid_consts [simp]:
  "flags_valid flags_empty" "flags_valid flags_in" "flags_valid flags_out"
  "flags_valid flags_inout" "flags_valid flags_error"
  by (simp_all add: flags_valid_def flags_consts)

lemma flags_valid_or [simp]: "flags_valid a \<Longrightarrow> flags_valid b \<Longrightarrow> flags_valid (flags_or a b)"
  by (simp add: flags_valid_iff flags_ops bit.conj_disj_distrib2)

lemma flags_valid_and [simp]: "flags_valid a \<Longrightarrow> flags_valid (flags_and a b)"
  by (simp add: flags_valid_iff flags_ops and.assoc and.left_commute [of _ 7])
     (metis and.commute and.left_commute)

lemma flags_valid_cases:
  assumes "flags_valid fl"
  shows "fl \<in> {Flags 0, Flags 1, Flags 2, Flags 3, Flags 4, Flags 5, Flags 6, Flags 7}"
proof -
  obtain w where fl: "fl = Flags w" by (cases fl)
  with assms have "unat w < 8" by (simp add: flags_valid_def word_less_nat_alt)
  then have "unat w \<in> {0, 1, 2, 3, 4, 5, 6, 7}" by auto
  moreover have "w = of_nat (unat w)" by simp
  ultimately have "w \<in> {0, 1, 2, 3, 4, 5, 6, 7}" by (elim insertE emptyE; hypsubst_thin?; simp; metis of_nat_0 of_nat_1 of_nat_numeral)
  with fl show ?thesis by auto
qed

section \<open>Properties\<close>

text \<open>
  A callback's test for one event kind (\<open>in\<close>, \<open>out\<close> or \<open>error\<close>) distributes over the
  operators: a union of flags shows the kind iff one of its parts does, an intersection iff
  both do.  So collecting events with \<open>|=\<close> loses and invents none.
\<close>

theorem flags_test_distrib:
  assumes "f \<in> {flags_in, flags_out, flags_error}"
  shows "(flags_test (flags_or a b) f \<longleftrightarrow> flags_test a f \<or> flags_test b f) \<and>
         (flags_test (flags_and a b) f \<longleftrightarrow> flags_test a f \<and> flags_test b f)"
  using assms
  by (auto simp: flags_test_def flags_consts flags_ops single_bit_word bit_simps)

theorem flags_test_distrib_witness:
  "(flags_test (flags_or flags_in flags_error) flags_error \<longleftrightarrow>
      flags_test flags_in flags_error \<or> flags_test flags_error flags_error) \<and>
   (flags_test (flags_and flags_in flags_error) flags_error \<longleftrightarrow>
      flags_test flags_in flags_error \<and> flags_test flags_error flags_error)"
  by (rule flags_test_distrib) simp

text \<open>
  On the values the class can hold, the printed form determines the value: different
  flags never print the same in a log line.
\<close>

theorem flags_ostream_inj:
  assumes "flags_valid a" and "flags_valid b" and "flags_ostream a = flags_ostream b"
  shows "a = b"
  using assms(3) flags_valid_cases [OF assms(1)] flags_valid_cases [OF assms(2)]
  by (auto simp: flags_ostream_def flags_test_def flags_consts)

theorem flags_ostream_inj_witness:
  "flags_or flags_in flags_out = flags_inout"
  by (rule flags_ostream_inj)
     (simp_all add: flags_ostream_def flags_test_def flags_consts flags_ops flags_valid_def)

end
