(* ===== verification/Errors.thy ===== *)
theory Errors
  imports Prelude
begin

text \<open>
  \<^verbatim>\<open>src/io/error.hpp\<close> and \<^verbatim>\<open>src/io/error.cpp\<close>: the error value of the I/O
  library, and the exceptions the modelled code throws.  A function that may throw returns
  a value of the sum type \<open>exn + 'a\<close>, \<open>Inl\<close> for the exception in flight.
\<close>

record io_error =
  err_what :: string
  err_fd :: fd
  err_errno :: int

definition mk_error :: "string \<Rightarrow> fd \<Rightarrow> int \<Rightarrow> io_error" where
  "mk_error msg fd errno_val = \<lparr>err_what = msg, err_fd = fd, err_errno = errno_val\<rparr>"

definition get_fd :: "io_error \<Rightarrow> fd" where
  "get_fd e = err_fd e"

definition get_errno :: "io_error \<Rightarrow> int" where
  "get_errno e = err_errno e"

lemma get_mk_error [simp]:
  "get_fd (mk_error msg fd n) = fd" "get_errno (mk_error msg fd n) = n" "err_what (mk_error msg fd n) = msg"
  by (simp_all add: mk_error_def get_fd_def get_errno_def)

text \<open>
  What can be thrown: an \<open>io::error\<close>, another \<open>std::exception\<close> (its \<open>what()\<close>), or
  anything else (caught by the \<open>catch (...)\<close> clauses only).
\<close>

datatype exn =
    Io_Error io_error
  | Std_Exception string
  | Unknown_Exception

end
