(* ===== verification/Endian.thy ===== *)
theory Endian
  imports Prelude
begin

text \<open>
  \<^verbatim>\<open>src/io/endianness.hpp\<close>, \<^verbatim>\<open>src/io/endianness.cpp\<close> and the byte-order guess of
  \<^verbatim>\<open>src/psql_proxy/endianness.cpp\<close>: decoding of 16- and 32-bit integers from memory
  in either byte order, and the heuristic that takes the order giving the smaller value.
\<close>

section \<open>Decoding\<close>

datatype endianness = LE | BE

definition decode_uint32_le :: "ptr \<Rightarrow> u32" where
  "decode_uint32_le buffer =
     push_bit 24 (ucast (buffer 3)) OR push_bit 16 (ucast (buffer 2)) OR
     push_bit 8 (ucast (buffer 1)) OR ucast (buffer 0)"

definition decode_uint32_be :: "ptr \<Rightarrow> u32" where
  "decode_uint32_be buffer =
     push_bit 24 (ucast (buffer 0)) OR push_bit 16 (ucast (buffer 1)) OR
     push_bit 8 (ucast (buffer 2)) OR ucast (buffer 3)"

definition decode_uint32 :: "ptr \<Rightarrow> endianness \<Rightarrow> u32" where
  "decode_uint32 buffer e = (if LE = e then decode_uint32_le buffer else decode_uint32_be buffer)"

definition decode_uint16_le :: "ptr \<Rightarrow> u16" where
  "decode_uint16_le buffer = push_bit 8 (ucast (buffer 1)) OR ucast (buffer 0)"

definition decode_uint16_be :: "ptr \<Rightarrow> u16" where
  "decode_uint16_be buffer = push_bit 8 (ucast (buffer 0)) OR ucast (buffer 1)"

definition decode_uint16 :: "ptr \<Rightarrow> endianness \<Rightarrow> u16" where
  "decode_uint16 buffer e = (if LE = e then decode_uint16_le buffer else decode_uint16_be buffer)"

text \<open>\<^verbatim>\<open>psql::check_endianness_by_uint32\<close>: the smaller reading wins, ties go to LE.\<close>

definition check_endianness_by_uint32 :: "ptr \<Rightarrow> endianness" where
  "check_endianness_by_uint32 buffer =
     (let le = decode_uint32_le buffer; be = decode_uint32_be buffer
      in if le \<le> be then LE else BE)"

lemmas decode_defs = decode_uint32_le_def decode_uint32_be_def decode_uint32_def
  decode_uint16_le_def decode_uint16_be_def decode_uint16_def

section \<open>Encoding, as the peer of the protocol does it\<close>

definition encode_uint32 :: "endianness \<Rightarrow> u32 \<Rightarrow> byte list" where
  "encode_uint32 e n =
     (let bs = [ucast (drop_bit 24 n), ucast (drop_bit 16 n), ucast (drop_bit 8 n), ucast n]
      in if e = BE then bs else rev bs)"

definition encode_uint16 :: "endianness \<Rightarrow> u16 \<Rightarrow> byte list" where
  "encode_uint16 e n =
     (let bs = [ucast (drop_bit 8 n), ucast n] in if e = BE then bs else rev bs)"

lemma length_encode_uint32 [simp]: "length (encode_uint32 e n) = 4"
  by (simp add: encode_uint32_def Let_def)

lemma length_encode_uint16 [simp]: "length (encode_uint16 e n) = 2"
  by (simp add: encode_uint16_def Let_def)

section \<open>Facts about decoding\<close>

text \<open>The value depends on the four (two) cells at the pointer only.\<close>

lemma decode_uint32_cong:
  "(\<And>k. k < 4 \<Longrightarrow> p k = q k) \<Longrightarrow> decode_uint32 p e = decode_uint32 q e"
  by (simp add: decode_defs)

lemma decode_uint16_cong:
  "(\<And>k. k < 2 \<Longrightarrow> p k = q k) \<Longrightarrow> decode_uint16 p e = decode_uint16 q e"
  by (simp add: decode_defs)

lemma check_endianness_cong:
  "(\<And>k. k < 4 \<Longrightarrow> p k = q k) \<Longrightarrow> check_endianness_by_uint32 p = check_endianness_by_uint32 q"
  by (simp add: check_endianness_by_uint32_def decode_defs)

text \<open>The two orders read each other's bytes reversed.\<close>

lemma decode_uint32_le_be: "decode_uint32_le p = decode_uint32_be (\<lambda>k. p (3 - k))"
  by (simp add: decode_defs)

text \<open>The numeric value: the four bytes are the digits to base 256.\<close>

lemma or_digits32:
  fixes a b c d :: byte
  shows "(push_bit 24 (ucast a) OR push_bit 16 (ucast b) OR push_bit 8 (ucast c) OR ucast d :: u32)
       = push_bit 24 (ucast a) + push_bit 16 (ucast b) + push_bit 8 (ucast c) + ucast d"
proof -
  have 1: "push_bit 8 (ucast c) OR ucast d = (push_bit 8 (ucast c) + ucast d :: u32)"
    by (rule disjunctive_add [symmetric]) (auto simp: bit_simps dest: bit_imp_le_length)
  have 2: "push_bit 16 (ucast b) OR (push_bit 8 (ucast c) OR ucast d)
         = (push_bit 16 (ucast b) + (push_bit 8 (ucast c) OR ucast d) :: u32)"
    by (rule disjunctive_add [symmetric]) (auto simp: bit_simps dest: bit_imp_le_length)
  have 3: "push_bit 24 (ucast a) OR (push_bit 16 (ucast b) OR (push_bit 8 (ucast c) OR ucast d))
         = (push_bit 24 (ucast a) + (push_bit 16 (ucast b) OR (push_bit 8 (ucast c) OR ucast d)) :: u32)"
    by (rule disjunctive_add [symmetric]) (auto simp: bit_simps dest: bit_imp_le_length)
  show ?thesis
    by (simp only: or.assoc 3, simp only: 2, simp only: 1 add.assoc)
qed

lemma unat_push_bit_byte:
  fixes a :: byte
  assumes "n \<le> 24"
  shows "unat (push_bit n (ucast a) :: u32) = unat a * 2 ^ n"
proof -
  have "unat a < 256" by (rule unat_byte_less)
  moreover have "(2::nat) ^ n \<le> 2 ^ 24" using assms by (rule power_increasing) simp
  ultimately have "unat a * 2 ^ n < 256 * 2 ^ 24" by (rule mult_less_le_imp_less) simp_all
  moreover have "unat a mod 4294967296 = unat a" using unat_byte_less [of a] by simp
  ultimately show ?thesis
    by (simp only: unsigned_push_bit_eq unsigned_ucast_eq take_bit_eq_mod)
       (simp add: push_bit_eq_mult)
qed

lemma unat_decode_uint32_be:
  "unat (decode_uint32_be p) =
     unat (p 0) * 16777216 + unat (p 1) * 65536 + unat (p 2) * 256 + unat (p 3)"
proof -
  have b: "unat (x :: byte) \<le> 255" for x using unat_byte_less [of x] by simp
  have "unat (decode_uint32_be p) =
    (unat (p 0) * 16777216 + unat (p 1) * 65536 + unat (p 2) * 256 + unat (p 3)) mod 2 ^ 32"
    unfolding decode_uint32_be_def or_digits32 using b [of "p 3"]
    by (simp add: unat_word_ariths unat_push_bit_byte unsigned_ucast_eq take_bit_eq_mod mod_simps)
  moreover have "unat (p 0) * 16777216 + unat (p 1) * 65536 + unat (p 2) * 256 + unat (p 3) < 2 ^ 32"
    using b [of "p 0"] b [of "p 1"] b [of "p 2"] b [of "p 3"] by simp
  ultimately show ?thesis by simp
qed

lemma unat_decode_uint32_le:
  "unat (decode_uint32_le p) =
     unat (p 3) * 16777216 + unat (p 2) * 65536 + unat (p 1) * 256 + unat (p 0)"
  by (simp add: decode_uint32_le_be unat_decode_uint32_be)


text \<open>The guessed order is the one whose reading is the smaller.\<close>

lemma decode_guess_min:
  "decode_uint32 p (check_endianness_by_uint32 p) = min (decode_uint32_le p) (decode_uint32_be p)"
  by (simp add: check_endianness_by_uint32_def decode_uint32_def Let_def min_def)

lemma decode_encode_be:
  "decode_uint32_be (list_ptr heap (encode_uint32 BE n @ rest)) = n"
proof (rule bit_word_eqI)
  fix k :: nat
  assume "k < LENGTH(32)"
  then consider "k < 8" | "8 \<le> k" "k < 16" | "16 \<le> k" "k < 24" | "24 \<le> k" "k < 32"
    by fastforce
  then show "bit (decode_uint32_be (list_ptr heap (encode_uint32 BE n @ rest))) k \<longleftrightarrow> bit n k"
    by cases (auto simp: decode_defs encode_uint32_def list_ptr_def bit_simps not_less)
qed

lemma decode_encode_le:
  "decode_uint32_le (list_ptr heap (encode_uint32 LE n @ rest)) = n"
proof -
  have "decode_uint32_le (list_ptr heap (encode_uint32 LE n @ rest)) =
        decode_uint32_be (list_ptr heap (encode_uint32 BE n @ rest))"
    by (simp add: decode_defs encode_uint32_def list_ptr_def)
  then show ?thesis by (simp add: decode_encode_be)
qed

lemma high_digits_zero:
  "a * 16777216 + b * 65536 + c * 256 + d < (65536::nat) \<Longrightarrow>
   a * 16777216 + b * 65536 + c * 256 + d = c * 256 + d"
  by (cases a; cases b) simp_all

text \<open>Reading a short value in the wrong order gives a value that is no smaller.\<close>

lemma swapped_be_ge:
  assumes "n < 65536"
  shows "n \<le> decode_uint32_le (list_ptr heap (encode_uint32 BE n @ rest))"
proof -
  let ?p = "list_ptr heap (encode_uint32 BE n @ rest)"
  have be: "unat n = unat (?p 0) * 16777216 + unat (?p 1) * 65536 + unat (?p 2) * 256 + unat (?p 3)"
    using unat_decode_uint32_be [of ?p] by (simp add: decode_encode_be)
  have "unat n < 65536" using assms by (simp add: word_less_nat_alt)
  with be have "unat n = unat (?p 2) * 256 + unat (?p 3)"
    using high_digits_zero by metis
  then have "unat n \<le> unat (decode_uint32_le ?p)"
    by (simp add: unat_decode_uint32_le)
  then show ?thesis by (simp add: word_le_nat_alt)
qed

lemma swapped_le_ge:
  assumes "n < 65536"
  shows "n \<le> decode_uint32_be (list_ptr heap (encode_uint32 LE n @ rest))"
proof -
  have "decode_uint32_be (list_ptr heap (encode_uint32 LE n @ rest)) =
        decode_uint32_le (list_ptr heap (encode_uint32 BE n @ rest))"
    by (simp add: decode_defs encode_uint32_def list_ptr_def)
  then show ?thesis using swapped_be_ge [OF assms] by simp
qed

lemma encode_uint32_guess:
  assumes "n < 65536"
  shows "decode_uint32 (list_ptr heap (encode_uint32 e n @ rest))
           (check_endianness_by_uint32 (list_ptr heap (encode_uint32 e n @ rest))) = n"
  using swapped_be_ge [OF assms] swapped_le_ge [OF assms]
  by (cases e) (simp_all add: decode_guess_min decode_encode_be decode_encode_le
      min_absorb1 min_absorb2)

lemma decode_encode_uint16: "decode_uint16 (list_ptr heap (encode_uint16 e m @ rest)) e = m"
  by (cases e; rule bit_word_eqI)
     (auto simp: decode_defs encode_uint16_def list_ptr_def bit_simps not_less)

section \<open>Properties\<close>

text \<open>
  C32. Decoding inverts encoding in both widths and both byte orders, whatever follows the
  encoded integer in memory.
\<close>

theorem decode_encode:
  "decode_uint32 (list_ptr heap (encode_uint32 e n @ rest)) e = n \<and>
   decode_uint16 (list_ptr heap (encode_uint16 e m @ rest)) e = m"
proof
  show "decode_uint32 (list_ptr heap (encode_uint32 e n @ rest)) e = n"
    by (cases e) (simp_all add: decode_uint32_def decode_encode_be decode_encode_le)
  show "decode_uint16 (list_ptr heap (encode_uint16 e m @ rest)) e = m"
    by (rule decode_encode_uint16)
qed

text \<open>
  The byte-order guess of the proxy is right on every length below 65536: whichever order
  the peer used, decoding in the guessed order gives the length the peer sent.
\<close>

theorem check_endianness_small:
  assumes "n < 65536"
  shows "decode_uint32 (list_ptr heap (encode_uint32 e n @ rest))
           (check_endianness_by_uint32 (list_ptr heap (encode_uint32 e n @ rest))) = n"
  using assms by (rule encode_uint32_guess)

theorem check_endianness_small_witness:
  "decode_uint32 (list_ptr (\<lambda>_. 0) (encode_uint32 BE 300 @ []))
     (check_endianness_by_uint32 (list_ptr (\<lambda>_. 0) (encode_uint32 BE 300 @ []))) = 300"
  by (rule check_endianness_small) simp

text \<open>
  The guess is wrong exactly when the other reading is smaller, and the first length where
  that happens is 65536: a big-endian packet of that length is framed as 256 bytes long, although
  the protocol allows it.
\<close>

theorem check_endianness_large:
  "(decode_uint32 (list_ptr heap (encode_uint32 BE n @ rest))
      (check_endianness_by_uint32 (list_ptr heap (encode_uint32 BE n @ rest))) = n \<longleftrightarrow>
    n \<le> decode_uint32_le (list_ptr heap (encode_uint32 BE n @ rest))) \<and>
   decode_uint32 (list_ptr heap (encode_uint32 BE 65536 @ rest))
     (check_endianness_by_uint32 (list_ptr heap (encode_uint32 BE 65536 @ rest))) = 256"
proof
  show "decode_uint32 (list_ptr heap (encode_uint32 BE n @ rest))
      (check_endianness_by_uint32 (list_ptr heap (encode_uint32 BE n @ rest))) = n \<longleftrightarrow>
    n \<le> decode_uint32_le (list_ptr heap (encode_uint32 BE n @ rest))"
    by (auto simp: decode_guess_min decode_encode_be min_def)
  show "decode_uint32 (list_ptr heap (encode_uint32 BE 65536 @ rest))
     (check_endianness_by_uint32 (list_ptr heap (encode_uint32 BE 65536 @ rest))) = 256"
    by (simp add: decode_guess_min decode_encode_be min_def)
       (simp add: decode_defs encode_uint32_def list_ptr_def)
qed

end
