(* ===== verification/Buffer_Interface.thy ===== *)
theory Buffer_Interface
  imports Prelude
begin

text \<open>
  What the clients of the bipartite buffer rely on: a single-producer single-consumer queue
  whose space is acquired before it is written and whose data is acquired before it is dropped.
  The two client patterns of the code (write a chunk or drop it; hand the readable region to a
  consumer and release what it took) are defined over the operations, and their effect on the
  contents is proved once, inside the locale.
\<close>

section \<open>The client patterns\<close>

text \<open>
  Acquire \<open>n\<close> cells; if there is room, copy \<open>xs\<close> there and release as many.  \<open>None\<close> is a
  failed assertion of the buffer.
\<close>

definition put_chunk ::
  "(nat \<Rightarrow> 'q \<Rightarrow> nat option \<times> 'q) \<Rightarrow> (nat \<Rightarrow> 'a list \<Rightarrow> 'q \<Rightarrow> 'q) \<Rightarrow> (nat \<Rightarrow> 'q \<Rightarrow> 'q option) \<Rightarrow>
   nat \<Rightarrow> 'a list \<Rightarrow> 'q \<Rightarrow> 'q option" where
  "put_chunk acq_w fill rel_w n xs q =
     (case acq_w n q of
        (None, q') \<Rightarrow> Some q'
      | (Some off, q') \<Rightarrow> rel_w (length xs) (fill off xs q'))"

text \<open>Acquire the readable region; if it is not empty, let \<open>f\<close> consume a part of it.\<close>

definition take_chunk ::
  "('q \<Rightarrow> (nat option \<times> nat) \<times> 'q) \<Rightarrow> ('q \<Rightarrow> nat \<Rightarrow> nat \<Rightarrow> 'a list) \<Rightarrow> (nat \<Rightarrow> 'q \<Rightarrow> 'q option) \<Rightarrow>
   ('a list \<Rightarrow> nat) \<Rightarrow> 'q \<Rightarrow> (nat \<times> 'q) option" where
  "take_chunk acq_r view rel_r f q =
     (case acq_r q of
        ((None, len), q') \<Rightarrow> Some (0, q')
      | ((Some off, len), q') \<Rightarrow>
          if 0 < len then (let n = f (view q' off len) in map_option (Pair n) (rel_r n q'))
          else Some (0, q'))"

section \<open>The contract\<close>

locale spsc_fifo =
  fixes inv :: "'q \<Rightarrow> bool"
    and contents :: "'q \<Rightarrow> 'a list"
    and ready :: "nat \<Rightarrow> 'q \<Rightarrow> bool"
    and acq_w :: "nat \<Rightarrow> 'q \<Rightarrow> nat option \<times> 'q"
    and fill :: "nat \<Rightarrow> 'a list \<Rightarrow> 'q \<Rightarrow> 'q"
    and rel_w :: "nat \<Rightarrow> 'q \<Rightarrow> 'q option"
    and acq_r :: "'q \<Rightarrow> (nat option \<times> nat) \<times> 'q"
    and view :: "'q \<Rightarrow> nat \<Rightarrow> nat \<Rightarrow> 'a list"
    and rel_r :: "nat \<Rightarrow> 'q \<Rightarrow> 'q option"
  assumes acq_w_None: "inv q \<Longrightarrow> acq_w n q = (None, q') \<Longrightarrow> q' = q"
    and acq_w_Some: "inv q \<Longrightarrow> ready n q \<Longrightarrow> acq_w n q = (Some off, q') \<Longrightarrow>
          inv q' \<and> contents q' = contents q \<and> ready n q'"
    and commit: "inv q \<Longrightarrow> ready n q \<Longrightarrow> acq_w n q = (Some off, q') \<Longrightarrow> length xs \<le> n \<Longrightarrow>
          \<exists>q''. rel_w (length xs) (fill off xs q') = Some q'' \<and> inv q'' \<and>
                contents q'' = contents q @ xs \<and> (\<forall>m. ready m q'')"
    and acq_r_None: "inv q \<Longrightarrow> acq_r q = ((None, len), q') \<Longrightarrow> q' = q \<and> contents q = []"
    and acq_r_Some: "inv q \<Longrightarrow> acq_r q = ((Some off, len), q') \<Longrightarrow>
          inv q' \<and> contents q' = contents q \<and> len \<le> length (contents q) \<and>
          view q' off len = take len (contents q) \<and> (len = 0 \<longleftrightarrow> contents q = []) \<and>
          (\<forall>m. ready m q' = ready m q)"
    and drop: "inv q \<Longrightarrow> acq_r q = ((Some off, len), q') \<Longrightarrow> n \<le> len \<Longrightarrow>
          \<exists>q''. rel_r n q' = Some q'' \<and> inv q'' \<and>
                contents q'' = List.drop n (contents q) \<and> (\<forall>m. ready m q'' = ready m q)"
begin

lemma put_chunk_ok:
  assumes "inv q" and "ready n q" and "length xs \<le> n"
  shows "\<exists>q'. put_chunk acq_w fill rel_w n xs q = Some q' \<and> inv q' \<and> ready n q' \<and>
    contents q' = contents q @ (if fst (acq_w n q) = None then [] else xs)"
proof (cases "acq_w n q")
  case (Pair p q')
  show ?thesis
  proof (cases p)
    case None
    with Pair acq_w_None [OF assms(1), of n q'] have "q' = q" by simp
    with None Pair assms show ?thesis by (simp add: put_chunk_def)
  next
    case (Some off)
    with Pair assms commit [of q n off q' xs] show ?thesis by (auto simp: put_chunk_def)
  qed
qed

lemma put_chunk_fresh:
  assumes "inv q" and "\<forall>m. ready m q" and "length xs \<le> n"
    and "put_chunk acq_w fill rel_w n xs q = Some q'"
  shows "\<forall>m. ready m q'"
  using assms acq_w_None commit [of q n _ _ xs]
  by (fastforce simp: put_chunk_def split: prod.splits option.splits)

lemma take_chunk_ok:
  assumes "inv q" and f: "\<And>xs. f xs \<le> length xs"
  shows "\<exists>n q'. take_chunk acq_r view rel_r f q = Some (n, q') \<and> inv q' \<and>
    n \<le> length (contents q) \<and> contents q' = List.drop n (contents q) \<and>
    (\<forall>m. ready m q' = ready m q) \<and>
    (contents q \<noteq> [] \<longrightarrow> (\<exists>len. 0 < len \<and> len \<le> length (contents q) \<and> n = f (take len (contents q))))"
proof (cases "acq_r q")
  case (Pair pl q')
  obtain p len where pl: "pl = (p, len)" by (cases pl)
  show ?thesis
  proof (cases p)
    case None
    with Pair pl assms(1) acq_r_None have "q' = q" "contents q = []" by auto
    with None Pair pl assms(1) show ?thesis by (auto simp: take_chunk_def)
  next
    case (Some off)
    with Pair pl have acq: "acq_r q = ((Some off, len), q')" by simp
    note facts = acq_r_Some [OF assms(1) acq]
    show ?thesis
    proof (cases "len = 0")
      case True
      with acq facts show ?thesis by (auto simp: take_chunk_def)
    next
      case False
      let ?n = "f (take len (contents q))"
      have n: "?n \<le> len" using f [of "take len (contents q)"] facts by simp
      with drop [OF assms(1) acq n] False acq facts show ?thesis
        by (auto simp: take_chunk_def Let_def intro!: exI [of _ len])
    qed
  qed
qed

end

end
