(* ===== verification/Bipartite.thy ===== *)
theory Bipartite
  imports Buffer_Interface
begin

text \<open>
  \<^verbatim>\<open>src/io/bipartite_buf.hpp\<close> and \<^verbatim>\<open>src/io/bipartite_buf_impl.hpp\<close>: the bipartite
  buffer, used single-threaded by \<^verbatim>\<open>io::channel\<close> and between two threads by
  \<^verbatim>\<open>psql_proxy::query_processor\<close>.  The array is a function from index, \<open>sz\<close> is the
  template parameter \<^verbatim>\<open>size\<close>; \<open>Some off\<close> stands for the pointer \<^verbatim>\<open>&_data[off]\<close>
  and \<open>None\<close> for \<^verbatim>\<open>nullptr\<close>.  A release is \<open>None\<close> where the code's \<^verbatim>\<open>assert\<close>
  fails.  The contract is that of a queue: \<open>bip_contents\<close> is what has been written and not
  yet read, releases append to it and drop from it.
\<close>

section \<open>State and operations\<close>

record 'a bip =
  bip_data :: "nat \<Rightarrow> 'a"
  write_wrapped :: bool
  read_wrapped :: bool
  bip_r :: nat
  bip_w :: nat
  bip_i :: nat

text \<open>The constructor; the array is left uninitialised (\<open>mem\<close>).\<close>

definition bip_new :: "(nat \<Rightarrow> 'a) \<Rightarrow> 'a bip" where
  "bip_new mem = \<lparr>bip_data = mem, write_wrapped = False, read_wrapped = False,
                  bip_r = 0, bip_w = 0, bip_i = 0\<rparr>"

definition calc_free :: "nat \<Rightarrow> nat \<Rightarrow> nat \<Rightarrow> nat" where
  "calc_free sz w r =
     (if r > w then szt_sub (szt_sub r w) 1
      else szt_sub (szt_sub sz (szt_sub w r)) 1)"

definition write_acquire :: "nat \<Rightarrow> nat \<Rightarrow> 'a bip \<Rightarrow> nat option \<times> 'a bip" where
  "write_acquire sz free_required b =
     (let w = bip_w b; r = bip_r b;
          free = calc_free sz w r;
          linear_space = szt_sub sz w;
          linear_free = min free linear_space
      in if free_required \<le> linear_free then (Some w, b)
         else if free_required \<le> szt_sub free linear_free
              then (Some 0, b\<lparr>write_wrapped := True\<rparr>)
         else (None, b))"

definition write_release :: "nat \<Rightarrow> nat \<Rightarrow> 'a bip \<Rightarrow> 'a bip option" where
  "write_release sz written b =
     (let w0 = bip_w b;
          i0 = (if write_wrapped b then w0 else bip_i b);
          w1 = (if write_wrapped b then 0 else w0);
          b1 = b\<lparr>write_wrapped := False\<rparr>
      in if szt_add w1 written \<le> sz then
           (let w2 = szt_add w1 written;
                i1 = (if w2 > i0 then w2 else i0);
                w3 = (if w2 = sz then 0 else w2)
            in Some (b1\<lparr>bip_i := i1, bip_w := w3\<rparr>))
         else None)"

definition read_acquire :: "'a bip \<Rightarrow> (nat option \<times> nat) \<times> 'a bip" where
  "read_acquire b =
     (let r = bip_r b; w = bip_w b
      in if r = w then ((None, 0), b)
         else if r < w then ((Some r, szt_sub w r), b)
         else (let i = bip_i b
               in if r = i then ((Some 0, w), b\<lparr>read_wrapped := True\<rparr>)
                  else ((Some r, szt_sub i r), b)))"

definition read_release :: "nat \<Rightarrow> nat \<Rightarrow> 'a bip \<Rightarrow> 'a bip option" where
  "read_release sz n b =
     (let r0 = (if read_wrapped b then 0 else bip_r b);
          b1 = b\<lparr>read_wrapped := False\<rparr>
      in if szt_add r0 n \<le> sz then
           (let r1 = szt_add r0 n;
                r2 = (if r1 = sz then 0 else r1)
            in Some (b1\<lparr>bip_r := r2\<rparr>))
         else None)"

text \<open>
  What a client does with the pointers: copy a list into the acquired space
  (\<^verbatim>\<open>std::copy(.., wbuf)\<close>, \<^verbatim>\<open>recv(wbuf, ..)\<close>), look at the acquired data.
\<close>

definition bip_fill :: "nat \<Rightarrow> 'a list \<Rightarrow> 'a bip \<Rightarrow> 'a bip" where
  "bip_fill off xs b =
     b\<lparr>bip_data := (\<lambda>k. if off \<le> k \<and> k < off + length xs then xs ! (k - off) else bip_data b k)\<rparr>"

definition bip_view :: "'a bip \<Rightarrow> nat \<Rightarrow> nat \<Rightarrow> 'a list" where
  "bip_view b off len = mem_range (bip_data b) off (off + len)"

lemmas bip_ops = calc_free_def write_acquire_def write_release_def read_acquire_def
  read_release_def Let_def

section \<open>Abstraction and invariant\<close>

definition bip_contents :: "'a bip \<Rightarrow> 'a list" where
  "bip_contents b =
     (if bip_r b \<le> bip_w b then mem_range (bip_data b) (bip_r b) (bip_w b)
      else mem_range (bip_data b) (bip_r b) (bip_i b) @ mem_range (bip_data b) 0 (bip_w b))"

definition bip_inv :: "nat \<Rightarrow> 'a bip \<Rightarrow> bool" where
  "bip_inv sz b \<longleftrightarrow>
     2 < sz \<and> 2 * sz \<le> SIZE_T \<and>
     bip_r b < sz \<and> bip_w b < sz \<and> bip_i b \<le> sz \<and>
     (bip_w b < bip_r b \<longrightarrow> bip_r b \<le> bip_i b) \<and>
     (write_wrapped b \<longrightarrow> 0 < bip_r b \<and> bip_r b \<le> bip_w b) \<and>
     (read_wrapped b \<longrightarrow> bip_w b < bip_r b \<and> bip_r b = bip_i b)"

text \<open>
  A reservation at the start of the array that was never released leaves the flag set; a later
  request is served correctly if the linear space at the end is too small for it as well.
\<close>

definition bip_ready :: "nat \<Rightarrow> nat \<Rightarrow> 'a bip \<Rightarrow> bool" where
  "bip_ready sz n b \<longleftrightarrow> (write_wrapped b \<longrightarrow> sz - bip_w b < n)"

lemma bip_inv_new [simp]: "2 < sz \<Longrightarrow> 2 * sz \<le> SIZE_T \<Longrightarrow> bip_inv sz (bip_new mem)"
  by (simp add: bip_inv_def bip_new_def)

lemma bip_contents_new [simp]: "bip_contents (bip_new mem) = []"
  by (simp add: bip_contents_def bip_new_def)


lemma bip_inv_bounds:
  assumes "bip_inv sz b"
  shows "2 < sz" "2 * sz \<le> SIZE_T" "sz < SIZE_T" "bip_r b < sz" "bip_w b < sz" "bip_i b \<le> sz"
    "bip_r b < SIZE_T" "bip_w b < SIZE_T" "bip_i b < SIZE_T"
  using assms unfolding bip_inv_def by linarith+

lemma bip_invD:
  assumes "bip_inv sz b"
  shows "bip_w b < bip_r b \<Longrightarrow> bip_r b \<le> bip_i b"
    "write_wrapped b \<Longrightarrow> 0 < bip_r b" "write_wrapped b \<Longrightarrow> bip_r b \<le> bip_w b"
    "read_wrapped b \<Longrightarrow> bip_w b < bip_r b" "read_wrapped b \<Longrightarrow> bip_r b = bip_i b"
  using assms by (simp_all add: bip_inv_def)

text \<open>The free count without wrap-around: one cell always stays unused.\<close>

lemma calc_free_eq:
  assumes "bip_inv sz b"
  shows "calc_free sz (bip_w b) (bip_r b) =
     (if bip_r b > bip_w b then bip_r b - bip_w b - 1 else sz - (bip_w b - bip_r b) - 1)"
  using bip_inv_bounds [OF assms]
  by (cases "bip_r b > bip_w b") (simp_all add: calc_free_def szt_sub_small)

lemma write_acquire_eq:
  assumes "bip_inv sz b"
  shows "write_acquire sz n b =
    (if bip_w b < bip_r b then (if n \<le> bip_r b - bip_w b - 1 then (Some (bip_w b), b) else (None, b))
     else if n \<le> min (sz - (bip_w b - bip_r b) - 1) (sz - bip_w b) then (Some (bip_w b), b)
     else if n \<le> bip_r b - 1 then (Some 0, b\<lparr>write_wrapped := True\<rparr>)
     else (None, b))"
proof -
  let ?free = "calc_free sz (bip_w b) (bip_r b)" and ?lin = "sz - bip_w b"
  have f: "?free - min ?free ?lin = (if bip_w b < bip_r b then 0 else bip_r b - 1)"
    "min ?free ?lin = (if bip_w b < bip_r b then bip_r b - bip_w b - 1
                       else min (sz - (bip_w b - bip_r b) - 1) ?lin)"
    "?free < SIZE_T"
    using bip_inv_bounds [OF assms] by (auto simp: calc_free_eq [OF assms] min_def)
  have s: "szt_sub sz (bip_w b) = ?lin" "szt_sub ?free (min ?free ?lin) = ?free - min ?free ?lin"
    using bip_inv_bounds [OF assms] f(3) by (simp_all add: szt_sub_small)
  have "write_acquire sz n b =
    (if n \<le> min ?free ?lin then (Some (bip_w b), b)
     else if n \<le> ?free - min ?free ?lin then (Some 0, b\<lparr>write_wrapped := True\<rparr>)
     else (None, b))"
    unfolding write_acquire_def Let_def s(1) s(2) ..
  then show ?thesis
    unfolding f(1) unfolding f(2) by (cases "bip_w b < bip_r b") simp_all
qed

lemma write_release_eq:
  assumes "bip_inv sz b" and "n \<le> sz"
  shows "write_release sz n b =
    (let w1 = (if write_wrapped b then 0 else bip_w b);
         i0 = (if write_wrapped b then bip_w b else bip_i b)
     in if w1 + n \<le> sz then
          Some (b\<lparr>write_wrapped := False, bip_i := max i0 (w1 + n),
                 bip_w := (if w1 + n = sz then 0 else w1 + n)\<rparr>)
        else None)"
proof -
  let ?w1 = "if write_wrapped b then 0 else bip_w b"
  have "szt_add ?w1 n = ?w1 + n"
    using bip_inv_bounds [OF assms(1)] assms(2) by (intro szt_add_small) simp
  then show ?thesis
    unfolding write_release_def Let_def by (simp add: max_def not_less)
qed

lemma read_acquire_eq:
  assumes "bip_inv sz b"
  shows "read_acquire b =
    (if bip_r b = bip_w b then ((None, 0), b)
     else if bip_r b < bip_w b then ((Some (bip_r b), bip_w b - bip_r b), b)
     else if bip_r b = bip_i b then ((Some 0, bip_w b), b\<lparr>read_wrapped := True\<rparr>)
     else ((Some (bip_r b), bip_i b - bip_r b), b))"
  using bip_inv_bounds [OF assms] bip_invD(1) [OF assms]
  by (simp add: read_acquire_def Let_def szt_sub_small)

lemma read_release_eq:
  assumes "bip_inv sz b" and "n \<le> sz"
  shows "read_release sz n b =
    (let r1 = (if read_wrapped b then 0 else bip_r b) + n
     in if r1 \<le> sz then
          Some (b\<lparr>read_wrapped := False, bip_r := (if r1 = sz then 0 else r1)\<rparr>)
        else None)"
proof -
  let ?r1 = "if read_wrapped b then 0 else bip_r b"
  have "szt_add ?r1 n = ?r1 + n"
    using bip_inv_bounds [OF assms(1)] assms(2) by (intro szt_add_small) simp
  then show ?thesis
    unfolding read_release_def Let_def by simp
qed


section \<open>Writing\<close>

text \<open>
  What a successful \<open>write_acquire\<close> of \<open>n\<close> cells leaves behind: the flag tells where the
  reservation lies, and the reservation is free.
\<close>

definition bip_reserved :: "nat \<Rightarrow> nat \<Rightarrow> nat \<Rightarrow> 'a bip \<Rightarrow> bool" where
  "bip_reserved sz n off b \<longleftrightarrow>
     (if write_wrapped b then off = 0 \<and> n < bip_r b \<and> bip_r b \<le> bip_w b
      else off = bip_w b \<and>
        (if bip_w b < bip_r b then n < bip_r b - bip_w b
         else n < sz - (bip_w b - bip_r b) \<and> n \<le> sz - bip_w b))"

lemma write_acquire_Some:
  assumes inv: "bip_inv sz b" and ready: "bip_ready sz n b"
    and acq: "write_acquire sz n b = (Some off, b')"
  shows "bip_inv sz b' \<and> bip_contents b' = bip_contents b \<and> bip_reserved sz n off b'"
proof (cases "bip_w b < bip_r b")
  case True
  then have "\<not> write_wrapped b" using bip_invD(3) [OF inv] by force
  with True acq inv show ?thesis
    unfolding write_acquire_eq [OF inv] by (auto simp: bip_reserved_def split: if_splits)
next
  case False
  note bounds = bip_inv_bounds [OF inv]
  show ?thesis
  proof (cases "n \<le> min (sz - (bip_w b - bip_r b) - 1) (sz - bip_w b)")
    case True
    with ready False acq inv bounds show ?thesis
      unfolding write_acquire_eq [OF inv] by (auto simp: bip_reserved_def bip_ready_def)
  next
    case long: False
    with False acq have "n \<le> bip_r b - 1" "off = 0" "b' = b\<lparr>write_wrapped := True\<rparr>"
      unfolding write_acquire_eq [OF inv] by (auto split: if_splits)
    moreover from this long False bounds have "0 < bip_r b" by (cases "bip_r b") auto
    ultimately show ?thesis using False inv
      by (auto simp: bip_reserved_def bip_inv_def bip_contents_def)
  qed
qed

lemma write_acquire_None:
  assumes inv: "bip_inv sz b" and acq: "write_acquire sz n b = (None, b')"
  shows "b' = b"
  using acq unfolding write_acquire_eq [OF inv] by (auto split: if_splits)

text \<open>The data of a reservation and the data elsewhere after the client filled it.\<close>

lemma mem_range_fill_same:
  "mem_range (bip_data (bip_fill off xs b)) off (off + length xs) = xs"
  by (rule nth_equalityI) (simp_all add: bip_fill_def)

lemma mem_range_fill_other:
  "hi \<le> off \<or> off + length xs \<le> lo \<Longrightarrow>
   mem_range (bip_data (bip_fill off xs b)) lo hi = mem_range (bip_data b) lo hi"
  by (rule mem_range_cong) (auto simp: bip_fill_def)

lemma mem_range_fill_append:
  "lo \<le> off \<Longrightarrow>
   mem_range (bip_data (bip_fill off xs b)) lo (off + length xs) = mem_range (bip_data b) lo off @ xs"
  by (simp add: mem_range_append [of lo off "off + length xs"] mem_range_fill_same
      mem_range_fill_other)

lemma bip_fill_fields [simp]:
  "bip_r (bip_fill off xs b) = bip_r b" "bip_w (bip_fill off xs b) = bip_w b"
  "bip_i (bip_fill off xs b) = bip_i b" "write_wrapped (bip_fill off xs b) = write_wrapped b"
  "read_wrapped (bip_fill off xs b) = read_wrapped b" "bip_inv sz (bip_fill off xs b) = bip_inv sz b"
  by (simp_all add: bip_fill_def bip_inv_def)

text \<open>
  The commit: releasing what was filled in never trips the assertion, keeps the invariant and
  appends exactly the written elements.
\<close>

lemma write_release_reserved:
  assumes inv: "bip_inv sz b" and res: "bip_reserved sz n off b" and len: "length xs \<le> n"
  shows "\<exists>b'. write_release sz (length xs) (bip_fill off xs b) = Some b' \<and> bip_inv sz b' \<and>
    bip_contents b' = bip_contents b @ xs \<and> \<not> write_wrapped b'"
proof -
  note bounds = bip_inv_bounds [OF inv]
  let ?f = "bip_fill off xs b" and ?m = "length xs"
  have m: "?m \<le> sz" using res len bounds by (auto simp: bip_reserved_def split: if_splits)
  note rel = write_release_eq [of sz ?f, OF _ m, simplified, OF inv]
  consider (wrapped) "write_wrapped b" "off = 0" "?m < bip_r b" "bip_r b \<le> bip_w b"
    | (behind) "\<not> write_wrapped b" "off = bip_w b" "bip_w b + ?m < bip_r b"
    | (linear) "\<not> write_wrapped b" "off = bip_w b" "bip_r b \<le> bip_w b" "bip_w b + ?m < sz"
    | (full) "\<not> write_wrapped b" "off = bip_w b" "bip_r b \<le> bip_w b" "bip_w b + ?m = sz" "0 < bip_r b"
  proof (cases "write_wrapped b")
    case True
    with res len that(1) show ?thesis by (simp add: bip_reserved_def)
  next
    case nw: False
    show ?thesis
    proof (cases "bip_w b < bip_r b")
      case True
      with nw res have r: "off = bip_w b" "n < bip_r b - bip_w b" by (simp_all add: bip_reserved_def)
      with len have "bip_w b + ?m < bip_r b" by linarith
      with nw r(1) that(2) show ?thesis by blast
    next
      case False
      with nw res have r: "off = bip_w b" "n < sz - (bip_w b - bip_r b)" "n \<le> sz - bip_w b"
        by (simp_all add: bip_reserved_def)
      have "bip_w b + ?m \<le> sz" using r(3) len bounds by linarith
      moreover have "bip_w b + ?m = sz \<Longrightarrow> 0 < bip_r b" using r(2) len bounds by linarith
      ultimately show ?thesis using nw r(1) False that(3,4) by linarith
    qed
  qed
  then show ?thesis
  proof cases
    case wrapped
    let ?b = "?f\<lparr>write_wrapped := False, bip_i := bip_w b, bip_w := ?m\<rparr>"
    have "max (bip_w b) ?m = bip_w b" "?m \<noteq> sz" using wrapped bounds by simp_all
    then have "write_release sz ?m ?f = Some ?b" using wrapped(1) m by (simp add: rel)
    moreover have "bip_inv sz ?b" using wrapped inv by (simp add: bip_inv_def)
    moreover have "bip_contents ?b = bip_contents b @ xs"
      using wrapped mem_range_fill_append [of 0 off xs b]
        mem_range_fill_other [of "bip_w b" off xs "bip_r b" b]
      by (simp add: bip_contents_def)
    ultimately show ?thesis by simp
  next
    case behind
    let ?b = "?f\<lparr>write_wrapped := False, bip_w := bip_w b + ?m\<rparr>"
    have i: "bip_r b \<le> bip_i b" using bip_invD(1) [OF inv] behind by simp
    then have "max (bip_i b) (bip_w b + ?m) = bip_i b" "bip_w b + ?m \<noteq> sz" "bip_w b + ?m \<le> sz"
      using behind bounds by simp_all
    then have "write_release sz ?m ?f = Some ?b" using behind(1) by (simp add: rel)
    moreover have "bip_inv sz ?b" using behind inv by (simp add: bip_inv_def)
    moreover have "bip_contents ?b = bip_contents b @ xs"
      using behind mem_range_fill_append [of 0 off xs b]
        mem_range_fill_other [of "bip_i b" off xs "bip_r b" b]
      by (simp add: bip_contents_def)
    ultimately show ?thesis by simp
  next
    case linear
    let ?b = "?f\<lparr>write_wrapped := False, bip_i := max (bip_i b) (bip_w b + ?m), bip_w := bip_w b + ?m\<rparr>"
    have "write_release sz ?m ?f = Some ?b" using linear(1,4) by (simp add: rel Let_def)
    moreover have "bip_inv sz ?b" using linear inv by (simp add: bip_inv_def)
    moreover have "bip_contents ?b = bip_contents b @ xs"
      using linear mem_range_fill_append [of "bip_r b" off xs b] by (simp add: bip_contents_def)
    ultimately show ?thesis by simp
  next
    case full
    let ?b = "?f\<lparr>write_wrapped := False, bip_i := sz, bip_w := 0\<rparr>"
    have "max (bip_i b) sz = sz" using bounds by simp
    then have "write_release sz ?m ?f = Some ?b" using full(1,4) by (simp add: rel Let_def)
    moreover have "bip_inv sz ?b" using full inv by (simp add: bip_inv_def)
    moreover have "bip_contents ?b = bip_contents b @ xs"
      using full mem_range_fill_append [of "bip_r b" off xs b] by (simp add: bip_contents_def)
    ultimately show ?thesis by simp
  qed
qed

section \<open>Reading\<close>

text \<open>The linear region a successful \<open>read_acquire\<close> hands out.\<close>

definition bip_acquired :: "nat \<Rightarrow> nat \<Rightarrow> 'a bip \<Rightarrow> bool" where
  "bip_acquired off len b \<longleftrightarrow>
     (if read_wrapped b then off = 0 \<and> len = bip_w b
      else off = bip_r b \<and>
        (if bip_r b < bip_w b then len = bip_w b - bip_r b
         else bip_w b < bip_r b \<and> bip_r b \<noteq> bip_i b \<and> len = bip_i b - bip_r b))"

lemma read_acquire_None:
  assumes inv: "bip_inv sz b" and acq: "read_acquire b = ((None, len), b')"
  shows "b' = b \<and> len = 0 \<and> bip_contents b = []"
  using acq unfolding read_acquire_eq [OF inv]
  by (auto simp: bip_contents_def split: if_splits)

lemma read_acquire_Some:
  assumes inv: "bip_inv sz b" and acq: "read_acquire b = ((Some off, len), b')"
  shows "bip_inv sz b' \<and> bip_contents b' = bip_contents b \<and> bip_acquired off len b' \<and>
         write_wrapped b' = write_wrapped b \<and> bip_w b' = bip_w b"
proof -
  note bounds = bip_inv_bounds [OF inv] and D = bip_invD [OF inv]
  note eq = acq [unfolded read_acquire_eq [OF inv]]
  have neq: "bip_r b \<noteq> bip_w b" using eq by force
  show ?thesis
  proof (cases "bip_r b < bip_w b")
    case True
    with eq have "off = bip_r b" "len = bip_w b - bip_r b" "b' = b" by auto
    moreover have "\<not> read_wrapped b" using D(4) True by force
    ultimately show ?thesis using inv True by (simp add: bip_acquired_def)
  next
    case False
    with neq have w: "bip_w b < bip_r b" by simp
    show ?thesis
    proof (cases "bip_r b = bip_i b")
      case True
      with eq neq False have "off = 0" "len = bip_w b" "b' = b\<lparr>read_wrapped := True\<rparr>" by auto
      with inv w True show ?thesis by (simp add: bip_acquired_def bip_inv_def bip_contents_def)
    next
      case i: False
      with eq neq False have "off = bip_r b" "len = bip_i b - bip_r b" "b' = b" by auto
      moreover have "\<not> read_wrapped b" using D(5) i by force
      ultimately show ?thesis using inv w i by (simp add: bip_acquired_def)
    qed
  qed
qed

text \<open>The acquired region holds a prefix of the contents, empty only if the contents are.\<close>

lemma bip_acquired_view:
  assumes inv: "bip_inv sz b" and acq: "bip_acquired off len b"
  shows "bip_contents b = bip_view b off len @ drop len (bip_contents b)" (is ?split)
    and "len \<le> length (bip_contents b)" (is ?len)
    and "len = 0 \<longleftrightarrow> bip_contents b = []" (is ?empty)
proof -
  note bounds = bip_inv_bounds [OF inv] and D = bip_invD [OF inv]
  consider "bip_r b < bip_w b" "off = bip_r b" "len = bip_w b - bip_r b"
    | "bip_w b < bip_r b" "bip_r b = bip_i b" "off = 0" "len = bip_w b"
    | "bip_w b < bip_r b" "bip_r b < bip_i b" "off = bip_r b" "len = bip_i b - bip_r b"
    using acq D unfolding bip_acquired_def
    by (cases "read_wrapped b"; cases "bip_r b < bip_w b") (force simp: le_less)+
  then have "?split \<and> ?len \<and> ?empty"
    by cases (auto simp: bip_contents_def bip_view_def)
  then show ?split ?len ?empty by blast+
qed

lemma length_bip_view [simp]: "length (bip_view b off len) = len"
  by (simp add: bip_view_def)

text \<open>The release of an acquired region: any part of it is dropped from the front.\<close>

lemma read_release_acquired:
  assumes inv: "bip_inv sz b" and acq: "bip_acquired off len b" and n: "n \<le> len"
  shows "\<exists>b'. read_release sz n b = Some b' \<and> bip_inv sz b' \<and>
    bip_contents b' = drop n (bip_contents b) \<and> write_wrapped b' = write_wrapped b \<and> bip_w b' = bip_w b"
proof -
  note bounds = bip_inv_bounds [OF inv] and D = bip_invD [OF inv]
  consider (wrapped) "read_wrapped b" "bip_w b < bip_r b" "bip_r b = bip_i b" "n \<le> bip_w b"
    | (linear) "\<not> read_wrapped b" "bip_r b < bip_w b" "bip_r b + n \<le> bip_w b"
    | (tail) "\<not> read_wrapped b" "bip_w b < bip_r b" "bip_r b + n \<le> bip_i b" "bip_r b + n < sz"
    | (all) "\<not> read_wrapped b" "bip_w b < bip_r b" "bip_r b + n = sz" "bip_i b = sz"
  proof (cases "read_wrapped b")
    case True
    with acq n D(4,5) that(1) show ?thesis by (simp add: bip_acquired_def)
  next
    case nr: False
    show ?thesis
    proof (cases "bip_r b < bip_w b")
      case True
      with nr acq have "len = bip_w b - bip_r b" by (simp add: bip_acquired_def)
      with n True have "bip_r b + n \<le> bip_w b" by linarith
      with nr True that(2) show ?thesis by blast
    next
      case False
      with nr acq have w: "bip_w b < bip_r b" "len = bip_i b - bip_r b"
        by (simp_all add: bip_acquired_def split: if_splits)
      with D(1) n have le: "bip_r b + n \<le> bip_i b" by linarith
      then have "bip_r b + n < sz \<or> bip_r b + n = sz \<and> bip_i b = sz" using bounds by linarith
      with nr w(1) le that(3,4) show ?thesis by blast
    qed
  qed
  moreover from this have n_le: "n \<le> sz" using bounds by cases linarith+
  note rel = read_release_eq [OF inv n_le]
  ultimately show ?thesis
  proof cases
    case wrapped
    then have "n \<noteq> sz" "n \<le> sz" using bounds by simp_all
    with wrapped inv show ?thesis
      by (auto simp: rel Let_def bip_inv_def bip_contents_def mem_range_drop)
  next
    case linear
    then have "bip_r b + n \<noteq> sz" "bip_r b + n \<le> sz" using bounds by simp_all
    with linear inv show ?thesis
      by (auto simp: rel Let_def bip_inv_def bip_contents_def mem_range_drop)
  next
    case tail
    then have "drop n (mem_range (bip_data b) (bip_r b) (bip_i b) @ mem_range (bip_data b) 0 (bip_w b)) =
        mem_range (bip_data b) (bip_r b + n) (bip_i b) @ mem_range (bip_data b) 0 (bip_w b)"
      by (simp add: mem_range_drop)
    with tail inv show ?thesis
      by (auto simp: rel Let_def bip_inv_def bip_contents_def)
  next
    case all
    then have "length (mem_range (bip_data b) (bip_r b) (bip_i b)) = n" by simp
    with all inv show ?thesis
      by (auto simp: rel Let_def bip_inv_def bip_contents_def)
  qed
qed

text \<open>What is left after a whole region has been released lies in one piece.\<close>

definition bip_linear :: "'a bip \<Rightarrow> bool" where
  "bip_linear b \<longleftrightarrow> bip_r b \<le> bip_w b \<or> bip_r b = bip_i b"

lemma read_acquire_linear:
  assumes "bip_inv sz b" and "bip_linear b" and "read_acquire b = ((p, len), b')"
  shows "len = length (bip_contents b)"
  using assms unfolding read_acquire_eq [OF assms(1)]
  by (auto simp: bip_linear_def bip_contents_def split: if_splits)

lemma read_release_linear:
  assumes inv: "bip_inv sz b" and acq: "bip_acquired off len b" and rel: "read_release sz len b = Some b'"
  shows "bip_linear b'"
proof -
  note bounds = bip_inv_bounds [OF inv] and D = bip_invD [OF inv]
  have "len \<le> sz" using acq bounds by (auto simp: bip_acquired_def split: if_splits)
  from rel [unfolded read_release_eq [OF inv this] Let_def] acq bounds D show ?thesis
    by (auto simp: bip_acquired_def bip_linear_def split: if_splits)
qed


section \<open>The buffer provides the queue contract\<close>

lemma bip_ready_unwrapped: "\<not> write_wrapped b \<Longrightarrow> bip_ready sz n b"
  by (simp add: bip_ready_def)

lemma bip_ready_cong:
  "write_wrapped b' = write_wrapped b \<Longrightarrow> bip_w b' = bip_w b \<Longrightarrow> bip_ready sz n b' = bip_ready sz n b"
  by (simp add: bip_ready_def)

text \<open>A reservation leaves the buffer ready for another request of the same size.\<close>

lemma write_acquire_ready:
  assumes inv: "bip_inv sz b" and ready: "bip_ready sz n b"
    and acq: "write_acquire sz n b = (p, b')"
  shows "bip_ready sz n b'"
proof (cases "bip_w b < bip_r b")
  case True
  with acq ready show ?thesis unfolding write_acquire_eq [OF inv] by (auto split: if_splits)
next
  case False
  show ?thesis
  proof (cases "n \<le> min (sz - (bip_w b - bip_r b) - 1) (sz - bip_w b)")
    case True
    with False acq ready show ?thesis unfolding write_acquire_eq [OF inv] by auto
  next
    case long: False
    show ?thesis
    proof (cases "n \<le> bip_r b - 1")
      case True
      with long have "0 < bip_r b" by (cases "bip_r b") auto
      then have "\<not> n \<le> sz - bip_w b" using long False bip_inv_bounds [OF inv] by auto
      moreover from True False long acq have "b' = b\<lparr>write_wrapped := True\<rparr>"
        unfolding write_acquire_eq [OF inv] by auto
      ultimately show ?thesis by (simp add: bip_ready_def)
    next
      case none: False
      with False long acq ready show ?thesis unfolding write_acquire_eq [OF inv] by auto
    qed
  qed
qed

interpretation bip: spsc_fifo "bip_inv sz" bip_contents "bip_ready sz" "write_acquire sz"
  bip_fill "write_release sz" read_acquire bip_view "read_release sz" for sz
proof unfold_locales
  fix b b' :: "'a bip" and n len off :: nat and xs :: "'a list"
  assume inv: "bip_inv sz b"
  show "write_acquire sz n b = (None, b') \<Longrightarrow> b' = b"
    by (rule write_acquire_None [OF inv])
  show "bip_inv sz b' \<and> bip_contents b' = bip_contents b \<and> bip_ready sz n b'"
    if "bip_ready sz n b" and "write_acquire sz n b = (Some off, b')"
    using write_acquire_Some [OF inv that] write_acquire_ready [OF inv that] by simp
  show "\<exists>q''. write_release sz (length xs) (bip_fill off xs b') = Some q'' \<and> bip_inv sz q'' \<and>
      bip_contents q'' = bip_contents b @ xs \<and> (\<forall>m. bip_ready sz m q'')"
    if "bip_ready sz n b" and "write_acquire sz n b = (Some off, b')" and "length xs \<le> n"
    using write_acquire_Some [OF inv that(1,2)] write_release_reserved [of sz b' n off xs, OF _ _ that(3)]
    by (auto simp: bip_ready_def)
  show "read_acquire b = ((None, len), b') \<Longrightarrow> b' = b \<and> bip_contents b = []"
    using read_acquire_None [OF inv] by blast
  show "bip_inv sz b' \<and> bip_contents b' = bip_contents b \<and> len \<le> length (bip_contents b) \<and>
      bip_view b' off len = take len (bip_contents b) \<and> (len = 0 \<longleftrightarrow> bip_contents b = []) \<and>
      (\<forall>m. bip_ready sz m b' = bip_ready sz m b)"
    if acq: "read_acquire b = ((Some off, len), b')"
  proof -
    note r = read_acquire_Some [OF inv acq]
    then have inv': "bip_inv sz b'" and a: "bip_acquired off len b'" by simp_all
    have "bip_view b' off len = take len (bip_contents b')"
      using bip_acquired_view(1) [OF inv' a] by (metis append_eq_conv_conj length_bip_view)
    with r bip_acquired_view(2,3) [OF inv' a] show ?thesis by (simp add: bip_ready_def)
  qed
  show "\<exists>q''. read_release sz n b' = Some q'' \<and> bip_inv sz q'' \<and>
      bip_contents q'' = drop n (bip_contents b) \<and> (\<forall>m. bip_ready sz m q'' = bip_ready sz m b)"
    if acq: "read_acquire b = ((Some off, len), b')" and n: "n \<le> len"
    using read_acquire_Some [OF inv acq] read_release_acquired [of sz b' off len n, OF _ _ n]
    by (auto simp: bip_ready_def)
qed


section \<open>Properties\<close>

text \<open>The cells that hold unread data.\<close>

definition bip_used :: "'a bip \<Rightarrow> nat set" where
  "bip_used b =
     (if bip_r b \<le> bip_w b then {bip_r b..<bip_w b}
      else {bip_r b..<bip_i b} \<union> {0..<bip_w b})"

lemma bip_reserved_disjoint:
  "bip_inv sz b \<Longrightarrow> bip_reserved sz n off b \<Longrightarrow> off + n \<le> sz \<and> {off..<off + n} \<inter> bip_used b = {}"
  by (auto simp: bip_inv_def bip_reserved_def bip_used_def split: if_splits)

lemma bip_used_flag [simp]: "bip_used (b\<lparr>write_wrapped := x\<rparr>) = bip_used b"
  by (simp add: bip_used_def)

text \<open>
  C30. \<open>write_acquire\<close> hands out space that lies inside the array and holds no unread data.
\<close>

theorem write_acquire_safe:
  assumes "bip_inv sz b" and "bip_ready sz n b" and "write_acquire sz n b = (Some off, b')"
  shows "off + n \<le> sz \<and> {off..<off + n} \<inter> bip_used b = {}"
proof -
  have "bip_used b' = bip_used b"
    using assms(3) unfolding write_acquire_def Let_def by (auto split: if_splits)
  then show ?thesis
    using write_acquire_Some [OF assms] bip_reserved_disjoint by metis
qed

theorem write_acquire_safe_witness:
  "(0::nat) + 5 \<le> 8 \<and> {0..<0 + 5} \<inter> bip_used (bip_new (\<lambda>_. 0 :: byte)) = {}"
  by (rule write_acquire_safe [where b' = "bip_new (\<lambda>_. 0)"])
     (simp add: SIZE_T_def, simp add: bip_ready_def bip_new_def,
      simp add: SIZE_T_def bip_new_def bip_ops szt_sub_def)

text \<open>
  C23. Refinement to a queue, producer side: acquiring, filling and releasing appends exactly the
  released elements, or changes nothing when there is no room; no assertion fails.
\<close>

theorem bip_put_refines_append:
  assumes "bip_inv sz b" and "bip_ready sz n b" and "length xs \<le> n"
  shows "\<exists>b'. put_chunk (write_acquire sz) bip_fill (write_release sz) n xs b = Some b' \<and>
    bip_inv sz b' \<and>
    bip_contents b' = bip_contents b @ (if fst (write_acquire sz n b) = None then [] else xs)"
  using bip.put_chunk_ok [OF assms] by blast

theorem bip_put_refines_append_witness:
  "\<exists>b'. put_chunk (write_acquire 8) bip_fill (write_release 8) 3 [1, 2 :: byte] (bip_new (\<lambda>_. 0)) = Some b' \<and>
    bip_inv 8 b' \<and> bip_contents b' = [1, 2]"
proof -
  let ?b = "bip_new (\<lambda>_. 0 :: byte)"
  have "bip_inv 8 ?b" by (simp add: SIZE_T_def)
  moreover have "bip_ready 8 3 ?b" by (simp add: bip_ready_def bip_new_def)
  moreover have "fst (write_acquire 8 3 ?b) = Some 0"
    by (simp add: SIZE_T_def bip_new_def bip_ops szt_sub_def)
  ultimately show ?thesis
    using bip_put_refines_append [of 8 ?b 3 "[1, 2]"] by simp
qed

text \<open>
  C24. Refinement to a queue, consumer side: whatever part of the acquired region the consumer
  releases is dropped from the front of the contents, it is offered a non-empty region whenever
  the contents are non-empty, and no assertion fails.
\<close>

theorem bip_take_refines_drop:
  assumes "bip_inv sz b" and "\<And>xs. f xs \<le> length xs"
  shows "\<exists>n b'. take_chunk read_acquire bip_view (read_release sz) f b = Some (n, b') \<and>
    bip_inv sz b' \<and> n \<le> length (bip_contents b) \<and> bip_contents b' = drop n (bip_contents b) \<and>
    (bip_contents b \<noteq> [] \<longrightarrow>
      (\<exists>len. 0 < len \<and> len \<le> length (bip_contents b) \<and> n = f (take len (bip_contents b))))"
  using bip.take_chunk_ok [of sz b f, OF assms] by blast

text \<open>A buffer with data before and after the wrap, used by the witnesses.\<close>

definition wrapped_example :: "byte bip" where
  "wrapped_example = \<lparr>bip_data = (\<lambda>k. of_nat k), write_wrapped = False, read_wrapped = False,
     bip_r = 5, bip_w = 2, bip_i = 7\<rparr>"

theorem bip_take_refines_drop_witness:
  "bip_contents wrapped_example = [5, 6, 0, 1] \<and>
   (\<exists>n b'. take_chunk read_acquire bip_view (read_release 8) length wrapped_example = Some (n, b') \<and>
    n \<le> 4 \<and> bip_contents b' = drop n [5, 6, 0, 1])"
proof -
  have "bip_inv 8 wrapped_example" by (simp add: bip_inv_def wrapped_example_def SIZE_T_def)
  moreover have c: "bip_contents wrapped_example = [5, 6, 0, 1]"
    by (simp add: bip_contents_def wrapped_example_def mem_range_def upt_rec)
  ultimately show ?thesis
    using bip_take_refines_drop [of 8 wrapped_example length] by auto
qed

text \<open>
  In an empty buffer whose indices meet, any request of at most half the array succeeds,
  wherever the indices stand.
\<close>

theorem write_acquire_half:
  assumes "bip_inv sz b" and "bip_r b = bip_w b" and "2 * n \<le> sz"
  shows "fst (write_acquire sz n b) \<noteq> None"
  using assms(2,3) bip_inv_bounds [OF assms(1)]
  unfolding write_acquire_eq [OF assms(1)] by (auto simp: min_def)

theorem write_acquire_half_witness:
  "fst (write_acquire 8 4 (wrapped_example\<lparr>bip_w := 5\<rparr>)) \<noteq> None"
  by (rule write_acquire_half) (simp_all add: bip_inv_def wrapped_example_def SIZE_T_def)

definition stale_example :: "byte bip" where
  "stale_example = snd (write_acquire 8 4
     \<lparr>bip_data = (\<lambda>k. of_nat k), write_wrapped = False, read_wrapped = False,
      bip_r = 5, bip_w = 5, bip_i = 5\<rparr>)"


end
