(* ===== verification/Spsc.thy ===== *)
theory Spsc
  imports Bipartite
begin

text \<open>
  The bipartite buffer between two threads: \<^verbatim>\<open>thread_safety_atomic\<close> of
  \<^verbatim>\<open>src/io/bipartite_buf.hpp\<close>, as \<^verbatim>\<open>psql_proxy::query_processor\<close> uses it (the
  reactor thread writes, the file writer thread reads).  A step is one shared access: a load or
  store of an index, or the write or read of one cell; the two threads interleave freely.  Each
  thread computes from the index values it loaded, which the other thread may have moved on
  since.  The interleaving is sequentially consistent; \<open>Spsc_Orders\<close> has the memory orders of the
  code.
\<close>

section \<open>States and steps\<close>

datatype 'a producer =
    P_Idle
  | P_Loaded nat nat nat          \<comment> \<open>request, loaded \<open>_w\<close>, loaded \<open>_r\<close>\<close>
  | P_Fill nat nat "'a list"      \<comment> \<open>reserved offset and size, cells written so far\<close>
  | P_StoreI nat nat "'a list"    \<comment> \<open>about to store \<open>_i\<close>, then \<open>_w\<close>\<close>
  | P_StoreW nat "'a list"
  | P_Aborted

datatype 'a consumer =
    C_Idle
  | C_Loaded nat nat              \<comment> \<open>loaded \<open>_r\<close> and \<open>_w\<close>\<close>
  | C_Read nat nat "'a list"      \<comment> \<open>acquired region, cells read so far\<close>
  | C_Aborted

text \<open>\<open>sent\<close> and \<open>received\<close> record what was committed by the producer and released by the consumer.\<close>

record 'a spsc =
  shared :: "'a bip"
  prod :: "'a producer"
  cons :: "'a consumer"
  sent :: "'a list"
  received :: "'a list"

definition spsc_init :: "(nat \<Rightarrow> 'a) \<Rightarrow> 'a spsc" where
  "spsc_init mem = \<lparr>shared = bip_new mem, prod = P_Idle, cons = C_Idle, sent = [], received = []\<rparr>"

inductive spsc_step :: "nat \<Rightarrow> 'a spsc \<Rightarrow> 'a spsc \<Rightarrow> bool" for sz where
  p_load: "prod s = P_Idle \<Longrightarrow>
     spsc_step sz s (s\<lparr>prod := P_Loaded n (bip_w (shared s)) (bip_r (shared s))\<rparr>)"
| p_acquire: "prod s = P_Loaded n w r \<Longrightarrow>
     write_acquire sz n ((shared s)\<lparr>bip_w := w, bip_r := r\<rparr>) = (Some off, b) \<Longrightarrow>
     spsc_step sz s (s\<lparr>prod := P_Fill off n [], shared := (shared s)\<lparr>write_wrapped := write_wrapped b\<rparr>\<rparr>)"
| p_no_space: "prod s = P_Loaded n w r \<Longrightarrow>
     write_acquire sz n ((shared s)\<lparr>bip_w := w, bip_r := r\<rparr>) = (None, b) \<Longrightarrow>
     spsc_step sz s (s\<lparr>prod := P_Idle\<rparr>)"
| p_write: "prod s = P_Fill off n xs \<Longrightarrow> length xs < n \<Longrightarrow>
     spsc_step sz s (s\<lparr>prod := P_Fill off n (xs @ [x]),
       shared := (shared s)\<lparr>bip_data := (bip_data (shared s))(off + length xs := x)\<rparr>\<rparr>)"
| p_release: "prod s = P_Fill off n xs \<Longrightarrow> write_release sz (length xs) (shared s) = Some b \<Longrightarrow>
     spsc_step sz s (s\<lparr>prod := P_StoreI (bip_i b) (bip_w b) xs,
       shared := (shared s)\<lparr>write_wrapped := False\<rparr>\<rparr>)"
| p_assert: "prod s = P_Fill off n xs \<Longrightarrow> write_release sz (length xs) (shared s) = None \<Longrightarrow>
     spsc_step sz s (s\<lparr>prod := P_Aborted\<rparr>)"
| p_store_i: "prod s = P_StoreI i w xs \<Longrightarrow>
     spsc_step sz s (s\<lparr>prod := P_StoreW w xs, shared := (shared s)\<lparr>bip_i := i\<rparr>\<rparr>)"
| p_store_w: "prod s = P_StoreW w xs \<Longrightarrow>
     spsc_step sz s (s\<lparr>prod := P_Idle, shared := (shared s)\<lparr>bip_w := w\<rparr>, sent := sent s @ xs\<rparr>)"
| c_load: "cons s = C_Idle \<Longrightarrow>
     spsc_step sz s (s\<lparr>cons := C_Loaded (bip_r (shared s)) (bip_w (shared s))\<rparr>)"
| c_empty: "cons s = C_Loaded r w \<Longrightarrow>
     read_acquire ((shared s)\<lparr>bip_r := r, bip_w := w\<rparr>) = ((None, len), b) \<Longrightarrow>
     spsc_step sz s (s\<lparr>cons := C_Idle\<rparr>)"
| c_acquire: "cons s = C_Loaded r w \<Longrightarrow>
     read_acquire ((shared s)\<lparr>bip_r := r, bip_w := w\<rparr>) = ((Some off, len), b) \<Longrightarrow>
     spsc_step sz s (s\<lparr>cons := (if 0 < len then C_Read off len [] else C_Idle),
       shared := (shared s)\<lparr>read_wrapped := read_wrapped b\<rparr>\<rparr>)"
| c_read: "cons s = C_Read off len ys \<Longrightarrow> length ys < len \<Longrightarrow>
     spsc_step sz s (s\<lparr>cons := C_Read off len (ys @ [bip_data (shared s) (off + length ys)])\<rparr>)"
| c_release: "cons s = C_Read off len ys \<Longrightarrow> n \<le> length ys \<Longrightarrow> read_release sz n (shared s) = Some b \<Longrightarrow>
     spsc_step sz s (s\<lparr>cons := C_Idle, shared := b, received := received s @ take n ys\<rparr>)"
| c_assert: "cons s = C_Read off len ys \<Longrightarrow> n \<le> length ys \<Longrightarrow> read_release sz n (shared s) = None \<Longrightarrow>
     spsc_step sz s (s\<lparr>cons := C_Aborted\<rparr>)"

inductive spsc_reachable :: "nat \<Rightarrow> 'a spsc \<Rightarrow> bool" for sz where
  init: "spsc_reachable sz (spsc_init mem)"
| step: "spsc_reachable sz s \<Longrightarrow> spsc_step sz s t \<Longrightarrow> spsc_reachable sz t"

section \<open>The invariant\<close>

text \<open>
  \<open>pending sz xs i w b\<close>: once \<open>i\<close> and then \<open>w\<close> are stored, \<open>xs\<close> is appended to the contents.
\<close>

definition pending :: "nat \<Rightarrow> 'a list \<Rightarrow> nat \<Rightarrow> nat \<Rightarrow> 'a bip \<Rightarrow> bool" where
  "pending sz xs i w b \<longleftrightarrow>
     (i = bip_w b \<and> w = length xs \<and> length xs < bip_r b \<and> bip_r b \<le> bip_w b \<and>
        mem_range (bip_data b) 0 (length xs) = xs) \<or>
     (mem_range (bip_data b) (bip_w b) (bip_w b + length xs) = xs \<and> bip_w b + length xs \<le> sz \<and>
        i = max (bip_i b) (bip_w b + length xs) \<and>
        w = (if bip_w b + length xs = sz then 0 else bip_w b + length xs) \<and>
        (bip_w b < bip_r b \<longrightarrow> bip_w b + length xs < bip_r b) \<and>
        (bip_w b + length xs = sz \<longrightarrow> 0 < bip_r b))"

fun prod_inv :: "nat \<Rightarrow> 'a bip \<Rightarrow> 'a producer \<Rightarrow> bool" where
  "prod_inv sz b P_Idle \<longleftrightarrow> \<not> write_wrapped b"
| "prod_inv sz b (P_Loaded n w r) \<longleftrightarrow> \<not> write_wrapped b \<and> w = bip_w b \<and> r < sz \<and>
     (r \<le> w \<longrightarrow> r \<le> bip_r b \<and> bip_r b \<le> w) \<and> (w < r \<longrightarrow> r \<le> bip_r b \<or> bip_r b \<le> w)"
| "prod_inv sz b (P_Fill off n xs) \<longleftrightarrow> bip_reserved sz n off b \<and> length xs \<le> n \<and>
     mem_range (bip_data b) off (off + length xs) = xs"
| "prod_inv sz b (P_StoreI i w xs) \<longleftrightarrow> \<not> write_wrapped b \<and> pending sz xs i w b"
| "prod_inv sz b (P_StoreW w xs) \<longleftrightarrow> \<not> write_wrapped b \<and> pending sz xs (bip_i b) w b"
| "prod_inv sz b P_Aborted \<longleftrightarrow> False"

fun cons_inv :: "'a bip \<Rightarrow> 'a consumer \<Rightarrow> bool" where
  "cons_inv b C_Idle \<longleftrightarrow> True"
| "cons_inv b (C_Loaded r w) \<longleftrightarrow> r = bip_r b \<and>
     (r < w \<longrightarrow> (if r \<le> bip_w b then w \<le> bip_w b else w \<le> bip_i b)) \<and>
     (w < r \<longrightarrow> w \<le> bip_w b \<and> bip_w b < r)"
| "cons_inv b (C_Read off len ys) \<longleftrightarrow>
     (if read_wrapped b then off = 0 \<and> len \<le> bip_w b
      else off = bip_r b \<and> (if bip_r b \<le> bip_w b then bip_r b + len \<le> bip_w b
                           else bip_r b + len \<le> bip_i b)) \<and>
     length ys \<le> len \<and> mem_range (bip_data b) off (off + length ys) = ys"
| "cons_inv b C_Aborted \<longleftrightarrow> False"

definition spsc_inv :: "nat \<Rightarrow> 'a spsc \<Rightarrow> bool" where
  "spsc_inv sz s \<longleftrightarrow> bip_inv sz (shared s) \<and> prod_inv sz (shared s) (prod s) \<and>
     cons_inv (shared s) (cons s) \<and> sent s = received s @ bip_contents (shared s)"

lemma spsc_inv_init: "2 < sz \<Longrightarrow> 2 * sz \<le> SIZE_T \<Longrightarrow> spsc_inv sz (spsc_init mem)"
  by (simp add: spsc_inv_def spsc_init_def) (simp add: bip_new_def)

section \<open>The producer's steps\<close>

text \<open>A request answered from a stale \<open>_r\<close> reserves space that is free now.\<close>

lemma acquire_stale:
  assumes inv: "bip_inv sz b" and loaded: "prod_inv sz b (P_Loaded n w r)"
    and acq: "write_acquire sz n (b\<lparr>bip_w := w, bip_r := r\<rparr>) = (Some off, b')"
  shows "bip_reserved sz n off (b\<lparr>write_wrapped := write_wrapped b'\<rparr>) \<and>
         bip_inv sz (b\<lparr>write_wrapped := write_wrapped b'\<rparr>)"
proof -
  let ?b = "b\<lparr>bip_w := w, bip_r := r, bip_i := sz, read_wrapped := False\<rparr>"
  have inv': "bip_inv sz ?b" using inv loaded by (auto simp: bip_inv_def)
  have fields: "write_acquire sz n ?b = (Some off, b'\<lparr>bip_i := sz, read_wrapped := False\<rparr>)"
    using acq by (auto simp: write_acquire_def Let_def split: if_splits)
  have ready: "bip_ready sz n ?b" using loaded by (simp add: bip_ready_def)
  have w: "w = bip_w b" and r: "r < sz" using loaded by simp_all
  note res = write_acquire_Some [OF inv' ready fields]
  have b': "bip_r b' = r" "bip_w b' = w"
    using acq by (auto simp: write_acquire_def Let_def split: if_splits)
  show ?thesis
  proof (cases "write_wrapped b'")
    case True
    with res b' have "off = 0" "n < r" "r \<le> w" by (simp_all add: bip_reserved_def)
    with loaded inv True show ?thesis by (auto simp: bip_reserved_def bip_inv_def)
  next
    case False
    with res b' have "off = w" and
      fit: "if w < r then n < r - w else n < sz - (w - r) \<and> n \<le> sz - w"
      by (cases "w < r"; simp add: bip_reserved_def)+
    with loaded inv False r show ?thesis
      by (auto simp: bip_reserved_def bip_inv_def split: if_splits)
  qed
qed


text \<open>Writing into the reservation changes no unread cell, so no cell a reader may look at.\<close>

lemma mem_range_upd_other:
  "k < lo \<or> hi \<le> k \<Longrightarrow> mem_range (d(k := x)) lo hi = mem_range d lo hi"
  by (auto simp: mem_range_def)

lemma mem_range_upd_snoc:
  "mem_range d off (off + length xs) = xs \<Longrightarrow>
   mem_range (d(off + length xs := x)) off (off + length (xs @ [x])) = xs @ [x]"
  by (simp add: mem_range_snoc mem_range_upd_other)

lemma reserved_write:
  assumes "bip_inv sz b" and "bip_reserved sz n off b" and "k < n"
  shows "bip_contents (b\<lparr>bip_data := (bip_data b)(off + k := x)\<rparr>) = bip_contents b"
    and "cons_inv b c \<Longrightarrow> cons_inv (b\<lparr>bip_data := (bip_data b)(off + k := x)\<rparr>) c"
proof -
  show "bip_contents (b\<lparr>bip_data := (bip_data b)(off + k := x)\<rparr>) = bip_contents b"
    using assms by (auto simp: bip_contents_def bip_reserved_def bip_inv_def
        intro!: mem_range_upd_other split: if_splits)
  assume c: "cons_inv b c"
  show "cons_inv (b\<lparr>bip_data := (bip_data b)(off + k := x)\<rparr>) c"
  proof (cases c)
    case (C_Read o2 len ys)
    have "off + k < o2 \<or> o2 + length ys \<le> off + k"
      using assms c C_Read bip_invD(4) [OF assms(1)]
      by (auto simp: bip_reserved_def split: if_splits)
    with c C_Read show ?thesis by (auto simp: mem_range_upd_other split: if_splits)
  qed (use c in auto)
qed

lemma fill_release:
  assumes inv: "bip_inv sz b" and res: "bip_reserved sz n off b" and len: "length xs \<le> n"
    and data: "mem_range (bip_data b) off (off + length xs) = xs"
  shows "\<exists>b'. write_release sz (length xs) b = Some b' \<and>
    pending sz xs (bip_i b') (bip_w b') (b\<lparr>write_wrapped := False\<rparr>)"
proof -
  note bounds = bip_inv_bounds [OF inv]
  have m: "length xs \<le> sz" using bip_reserved_disjoint [OF inv res] len by simp
  show ?thesis
  proof (cases "write_wrapped b")
    case True
    then have off: "off = 0" and lt: "length xs < bip_r b" and le: "bip_r b \<le> bip_w b"
      using res len by (simp_all add: bip_reserved_def)
    then have "max (bip_w b) (length xs) = bip_w b" "length xs \<noteq> sz" using bounds by simp_all
    then show ?thesis using True m data off lt le
      by (simp add: write_release_eq [OF inv m] pending_def Let_def)
  next
    case False
    let ?w = "bip_w b + length xs"
    have off: "off = bip_w b" and fit: "?w \<le> sz" "bip_w b < bip_r b \<longrightarrow> ?w < bip_r b"
      "?w = sz \<longrightarrow> 0 < bip_r b"
      using res len bounds False by (auto simp: bip_reserved_def split: if_splits)
    with False data show ?thesis
      by (simp add: write_release_eq [OF inv m] pending_def Let_def)
  qed
qed

lemma store_i_inv:
  assumes inv: "bip_inv sz b" and pend: "pending sz xs i w b" and c: "cons_inv b c"
  shows "bip_inv sz (b\<lparr>bip_i := i\<rparr>) \<and> pending sz xs i w (b\<lparr>bip_i := i\<rparr>) \<and>
    cons_inv (b\<lparr>bip_i := i\<rparr>) c \<and> bip_contents (b\<lparr>bip_i := i\<rparr>) = bip_contents b"
proof -
  have wrapped: "bip_w b < bip_r b \<Longrightarrow> i = bip_i b"
    using pend bip_invD(1) [OF inv] by (auto simp: pending_def)
  have i: "i \<le> sz" using pend bip_inv_bounds [OF inv] by (auto simp: pending_def)
  have "cons_inv (b\<lparr>bip_i := i\<rparr>) c"
    using c wrapped by (cases c) (auto split: if_splits)
  moreover have "bip_inv sz (b\<lparr>bip_i := i\<rparr>)"
    using inv i wrapped by (cases "bip_w b < bip_r b") (auto simp: bip_inv_def)
  moreover have "pending sz xs i w (b\<lparr>bip_i := i\<rparr>)"
    using pend by (auto simp: pending_def)
  moreover have "bip_contents (b\<lparr>bip_i := i\<rparr>) = bip_contents b"
    using wrapped by (simp add: bip_contents_def)
  ultimately show ?thesis by blast
qed

lemma store_w_inv:
  assumes inv: "bip_inv sz b" and nw: "\<not> write_wrapped b" and pend: "pending sz xs (bip_i b) w b"
    and c: "cons_inv b c"
  shows "bip_inv sz (b\<lparr>bip_w := w\<rparr>) \<and> cons_inv (b\<lparr>bip_w := w\<rparr>) c \<and>
    bip_contents (b\<lparr>bip_w := w\<rparr>) = bip_contents b @ xs"
proof -
  note bounds = bip_inv_bounds [OF inv] and D = bip_invD [OF inv]
  let ?d = "bip_data b" and ?m = "length xs"
  consider (wrap) "bip_i b = bip_w b" "w = ?m" "?m < bip_r b" "bip_r b \<le> bip_w b" "mem_range ?d 0 ?m = xs"
    | (fit) "mem_range ?d (bip_w b) (bip_w b + ?m) = xs" "w = bip_w b + ?m" "w < sz"
        "bip_w b < bip_r b \<longrightarrow> w < bip_r b" "w \<le> bip_i b"
    | (full) "mem_range ?d (bip_w b) sz = xs" "bip_w b + ?m = sz" "w = 0" "0 < bip_r b"
        "bip_r b \<le> bip_w b" "bip_i b = sz"
  proof (cases "bip_i b = bip_w b \<and> w = ?m \<and> ?m < bip_r b \<and> bip_r b \<le> bip_w b \<and> mem_range ?d 0 ?m = xs")
    case True
    with that(1) show ?thesis by blast
  next
    case False
    with pend have p: "mem_range ?d (bip_w b) (bip_w b + ?m) = xs" "bip_w b + ?m \<le> sz"
      "bip_i b = max (bip_i b) (bip_w b + ?m)"
      "w = (if bip_w b + ?m = sz then 0 else bip_w b + ?m)"
      "bip_w b < bip_r b \<longrightarrow> bip_w b + ?m < bip_r b" "bip_w b + ?m = sz \<longrightarrow> 0 < bip_r b"
      unfolding pending_def by blast+
    show ?thesis
    proof (cases "bip_w b + ?m = sz")
      case True
      with p bounds have "bip_r b \<le> bip_w b" "bip_i b = sz" by linarith+
      with True p that(3) show ?thesis by simp
    next
      case lt: False
      with p have "bip_w b + ?m \<le> bip_i b" by linarith
      with lt p that(2) show ?thesis by simp
    qed
  qed
  then show ?thesis
  proof cases
    case wrap
    then have "\<not> read_wrapped b" using D(4) by force
    with wrap inv nw c show ?thesis
      by (cases c) (auto simp: bip_inv_def bip_contents_def)
  next
    case fit
    have app: "lo \<le> bip_w b \<Longrightarrow> mem_range ?d lo w = mem_range ?d lo (bip_w b) @ xs" for lo
      using fit(1,2) mem_range_append [of lo "bip_w b" w ?d] by simp
    show ?thesis
    proof (cases "bip_w b < bip_r b")
      case True
      with fit have "w < bip_r b" by simp
      with True fit inv nw c app [of 0] show ?thesis
        by (cases c) (auto simp: bip_inv_def bip_contents_def split: if_splits)
    next
      case False
      then have "\<not> read_wrapped b" using D(4) by force
      with False fit inv nw c app [of "bip_r b"] show ?thesis
        by (cases c) (auto simp: bip_inv_def bip_contents_def split: if_splits)
    qed
  next
    case full
    then have "\<not> read_wrapped b" using D(4) by force
    moreover have "mem_range ?d (bip_r b) sz = mem_range ?d (bip_r b) (bip_w b) @ xs"
      using full mem_range_append [of "bip_r b" "bip_w b" sz ?d] bounds by simp
    ultimately show ?thesis using full inv nw c
      by (cases c) (auto simp: bip_inv_def bip_contents_def split: if_splits)
  qed
qed


section \<open>The consumer's steps\<close>

text \<open>A read answered from a stale \<open>_w\<close> hands out a region that holds unread data now.\<close>

lemma read_acquire_stale:
  assumes inv: "bip_inv sz b" and loaded: "cons_inv b (C_Loaded r w)"
    and acq: "read_acquire (b\<lparr>bip_r := r, bip_w := w\<rparr>) = ((Some off, len), b')"
  shows "bip_inv sz (b\<lparr>read_wrapped := read_wrapped b'\<rparr>) \<and>
    cons_inv (b\<lparr>read_wrapped := read_wrapped b'\<rparr>) (if 0 < len then C_Read off len [] else C_Idle)"
proof -
  note bounds = bip_inv_bounds [OF inv] and D = bip_invD [OF inv]
  have r: "r = bip_r b" using loaded by simp
  have rw: "r \<noteq> w" using acq by (auto simp: read_acquire_def Let_def)
  show ?thesis
  proof (cases "r < w")
    case True
    then have "\<not> read_wrapped b" using loaded D(4,5) r by fastforce
    moreover have "w < SIZE_T" using loaded True bounds r by (auto split: if_splits)
    ultimately have "off = r" "len = w - r" "b' = b\<lparr>bip_r := r, bip_w := w\<rparr>"
      using acq True by (auto simp: read_acquire_def Let_def szt_sub_small)
    with True loaded inv r \<open>\<not> read_wrapped b\<close> show ?thesis
      by (auto simp: bip_inv_def split: if_splits)
  next
    case False
    with rw loaded r have w: "w < r" "w \<le> bip_w b" "bip_w b < bip_r b" by auto
    show ?thesis
    proof (cases "r = bip_i b")
      case True
      with acq w r have "off = 0" "len = w" "read_wrapped b'"
        by (auto simp: read_acquire_def Let_def)
      with True w r inv show ?thesis by (auto simp: bip_inv_def)
    next
      case i: False
      then have "\<not> read_wrapped b" using D(5) r by force
      moreover have "r \<le> bip_i b" using D(1) w r by simp
      ultimately have "off = r" "len = bip_i b - r" "\<not> read_wrapped b'"
        using acq i w bounds by (auto simp: read_acquire_def Let_def szt_sub_small)
      with w r inv \<open>r \<le> bip_i b\<close> show ?thesis by (auto simp: bip_inv_def)
    qed
  qed
qed

lemma read_more:
  assumes "cons_inv b (C_Read off len ys)" and "length ys < len"
  shows "cons_inv b (C_Read off len (ys @ [bip_data b (off + length ys)]))"
  using assms by (auto simp: mem_range_snoc)

text \<open>
  What the release of a read region does: the read index moves within the unread data, the
  contents lose what was read.
\<close>

lemma consume_release:
  assumes inv: "bip_inv sz b" and c: "cons_inv b (C_Read off len ys)" and n: "n \<le> length ys"
  shows "\<exists>b'. read_release sz n b = Some b' \<and> bip_inv sz b' \<and>
    bip_contents b = take n ys @ bip_contents b' \<and>
    b' = b\<lparr>read_wrapped := False, bip_r := bip_r b'\<rparr> \<and>
    (bip_r b \<le> bip_w b \<longrightarrow> bip_r b \<le> bip_r b' \<and> bip_r b' \<le> bip_w b) \<and>
    (bip_w b < bip_r b \<longrightarrow> bip_r b \<le> bip_r b' \<or> bip_r b' \<le> bip_w b)"
proof -
  note bounds = bip_inv_bounds [OF inv] and D = bip_invD [OF inv]
  let ?d = "bip_data b"
  have ys: "take n ys = mem_range ?d off (off + n)" and nlen: "n \<le> len"
    using c n mem_range_take [of off n "off + length ys" ?d] by auto
  have split: "lo \<le> hi \<Longrightarrow> lo + n \<le> hi \<Longrightarrow>
      mem_range ?d lo hi = mem_range ?d lo (lo + n) @ mem_range ?d (lo + n) hi" for lo hi
    by (rule mem_range_append) simp_all
  show ?thesis
  proof (cases "read_wrapped b")
    case True
    with D c nlen have f: "off = 0" "n \<le> bip_w b" "bip_w b < bip_r b" "bip_r b = bip_i b" by auto
    with bounds have "n \<le> sz" "n \<noteq> sz" by simp_all
    then show ?thesis using True f inv ys split [of 0 "bip_w b"]
      by (auto simp: read_release_eq [OF inv] Let_def bip_inv_def bip_contents_def)
  next
    case nw: False
    with c have off: "off = bip_r b" by simp
    show ?thesis
    proof (cases "bip_r b \<le> bip_w b")
      case True
      with c nw nlen have f: "bip_r b + n \<le> bip_w b" by simp
      with bounds have "n \<le> sz" "bip_r b + n \<le> sz" "bip_r b + n \<noteq> sz" by simp_all
      then show ?thesis using nw True f inv ys off split [of "bip_r b" "bip_w b"]
        by (auto simp: read_release_eq [OF inv] Let_def bip_inv_def bip_contents_def)
    next
      case False
      with c nw nlen have f: "bip_r b + n \<le> bip_i b" by simp
      with bounds have n: "n \<le> sz" "bip_r b + n \<le> sz" by simp_all
      have ri: "bip_r b \<le> bip_i b" using D(1) False by simp
      show ?thesis
      proof (cases "bip_r b + n = sz")
        case True
        with f bounds have i: "bip_i b = sz" by simp
        let ?b = "b\<lparr>read_wrapped := False, bip_r := 0\<rparr>"
        have "read_release sz n b = Some ?b"
          using nw True n(1) by (simp add: read_release_eq [OF inv] Let_def)
        moreover have "bip_inv sz ?b" using False inv by (simp add: bip_inv_def)
        moreover have "bip_contents b = take n ys @ bip_contents ?b"
          using ys off False i True by (simp add: bip_contents_def)
        ultimately show ?thesis using False by simp
      next
        case ne: False
        with f n nw False inv ys off ri split [of "bip_r b" "bip_i b"] show ?thesis
          by (auto simp: read_release_eq [OF inv] Let_def bip_inv_def bip_contents_def)
      qed
    qed
  qed
qed

text \<open>The producer's knowledge survives a move of the read index.\<close>

lemma prod_inv_read_move:
  assumes inv: "bip_inv sz b" and p: "prod_inv sz b pr" and r': "r' < sz"
    and a: "bip_r b \<le> bip_w b \<Longrightarrow> bip_r b \<le> r' \<and> r' \<le> bip_w b"
    and w: "bip_w b < bip_r b \<Longrightarrow> bip_r b \<le> r' \<or> r' \<le> bip_w b"
  shows "prod_inv sz (b\<lparr>read_wrapped := rw, bip_r := r'\<rparr>) pr"
proof (cases pr)
  case (P_Loaded n w r)
  with p a w show ?thesis by (cases "bip_r b \<le> bip_w b") auto
next
  case (P_Fill off n xs)
  with p a w r' bip_inv_bounds [OF inv] show ?thesis
    by (cases "bip_r b \<le> bip_w b") (auto simp: bip_reserved_def split: if_splits)
next
  case (P_StoreI i w xs)
  with p a w bip_inv_bounds [OF inv] show ?thesis
    by (cases "bip_r b \<le> bip_w b") (auto simp: pending_def)
next
  case (P_StoreW w xs)
  with p a w bip_inv_bounds [OF inv] show ?thesis
    by (cases "bip_r b \<le> bip_w b") (auto simp: pending_def)
qed (use p in auto)


section \<open>Every step keeps the invariant\<close>

lemma prod_inv_data_free:
  "prod_inv sz b pr \<Longrightarrow> prod_inv sz (b\<lparr>read_wrapped := rw\<rparr>) pr"
  by (cases pr) (auto simp: bip_reserved_def pending_def)

lemma cons_inv_flag [simp]: "cons_inv (b\<lparr>write_wrapped := ww\<rparr>) c = cons_inv b c"
  by (cases c) auto

lemma bip_contents_flags [simp]:
  "bip_contents (b\<lparr>write_wrapped := ww\<rparr>) = bip_contents b"
  "bip_contents (b\<lparr>read_wrapped := ww\<rparr>) = bip_contents b"
  by (simp_all add: bip_contents_def)

lemma bip_reserved_data [simp]: "bip_reserved sz n off (b\<lparr>bip_data := d\<rparr>) = bip_reserved sz n off b"
  by (simp add: bip_reserved_def)

lemma bip_inv_unflag: "bip_inv sz b \<Longrightarrow> bip_inv sz (b\<lparr>write_wrapped := False\<rparr>)"
  by (auto simp: bip_inv_def)

lemma spsc_step_inv:
  assumes "spsc_step sz s t" and "spsc_inv sz s"
  shows "spsc_inv sz t"
  using assms
proof (induction rule: spsc_step.induct)
  case (p_load s n)
  then show ?case using bip_inv_bounds(4) by (auto simp: spsc_inv_def)
next
  case (p_acquire s n w r off b)
  then have "bip_inv sz (shared s)" "prod_inv sz (shared s) (P_Loaded n w r)"
    by (simp_all only: spsc_inv_def)
  note acquire_stale [OF this p_acquire.hyps(2)]
  then show ?case using p_acquire.prems by (simp only: spsc_inv_def) (simp add: spsc_inv_def)
next
  case (p_no_space s n w r b)
  then show ?case by (simp add: spsc_inv_def)
next
  case (p_write s off n xs x)
  then have inv: "bip_inv sz (shared s)" and f: "prod_inv sz (shared s) (P_Fill off n xs)"
    by (simp_all add: spsc_inv_def)
  then have res: "bip_reserved sz n off (shared s)" by simp
  note w = reserved_write(1) [OF inv res p_write.hyps(2), of x]
    reserved_write(2) [OF inv res p_write.hyps(2), of "cons s" x]
  have "bip_inv sz ((shared s)\<lparr>bip_data := d\<rparr>)" for d using inv by (auto simp: bip_inv_def)
  with w p_write mem_range_upd_snoc [of "bip_data (shared s)" off xs x] f show ?case
    by (simp add: spsc_inv_def)
next
  case (p_release s off n xs b)
  then have inv: "bip_inv sz (shared s)" and f: "prod_inv sz (shared s) (P_Fill off n xs)"
    by (simp_all add: spsc_inv_def)
  then show ?case using fill_release [of sz "shared s" n off xs] p_release bip_inv_unflag [OF inv]
    by (auto simp: spsc_inv_def)
next
  case (p_assert s off n xs)
  then show ?case using fill_release [of sz "shared s" n off xs] by (auto simp: spsc_inv_def)
next
  case (p_store_i s i w xs)
  then show ?case using store_i_inv [of sz "shared s" xs i w "cons s"] by (simp add: spsc_inv_def)
next
  case (p_store_w s w xs)
  then show ?case using store_w_inv [of sz "shared s" xs w "cons s"] by (simp add: spsc_inv_def)
next
  case (c_load s)
  then show ?case using bip_invD(1) [of sz "shared s"] by (auto simp: spsc_inv_def)
next
  case (c_empty s r w len b)
  then show ?case by (simp add: spsc_inv_def)
next
  case (c_acquire s r w off len b)
  then have "bip_inv sz (shared s)" "cons_inv (shared s) (C_Loaded r w)"
    by (simp_all only: spsc_inv_def)
  note read_acquire_stale [OF this c_acquire.hyps(2)]
  moreover have "prod_inv sz ((shared s)\<lparr>read_wrapped := read_wrapped b\<rparr>) (prod s)"
    using c_acquire.prems by (intro prod_inv_data_free) (simp add: spsc_inv_def)
  ultimately show ?case using c_acquire.prems by (simp add: spsc_inv_def)
next
  case (c_read s off len ys)
  then show ?case using read_more [of "shared s" off len ys] by (simp add: spsc_inv_def)
next
  case (c_release s off len ys n b)
  then have inv: "bip_inv sz (shared s)" and c: "cons_inv (shared s) (C_Read off len ys)"
    by (simp_all add: spsc_inv_def)
  from consume_release [OF inv c c_release.hyps(2)] c_release.hyps(3)
  have b: "bip_inv sz b" "bip_contents (shared s) = take n ys @ bip_contents b"
    "b = (shared s)\<lparr>read_wrapped := False, bip_r := bip_r b\<rparr>"
    "bip_r (shared s) \<le> bip_w (shared s) \<Longrightarrow>
       bip_r (shared s) \<le> bip_r b \<and> bip_r b \<le> bip_w (shared s)"
    "bip_w (shared s) < bip_r (shared s) \<Longrightarrow>
       bip_r (shared s) \<le> bip_r b \<or> bip_r b \<le> bip_w (shared s)"
    by auto
  have "prod_inv sz b (prod s)"
    using prod_inv_read_move [OF inv, of "prod s" "bip_r b" False] b c_release.prems
      bip_inv_bounds(4) [OF b(1)] by (simp add: spsc_inv_def)
  with b c_release.prems show ?case by (simp add: spsc_inv_def)
next
  case (c_assert s off len ys n)
  then show ?case using consume_release [of sz "shared s" off len ys n] by (auto simp: spsc_inv_def)
qed

lemma spsc_reachable_inv:
  assumes "spsc_reachable sz s" and "2 < sz" and "2 * sz \<le> SIZE_T"
  shows "spsc_inv sz s"
  using assms by (induction rule: spsc_reachable.induct) (auto intro: spsc_inv_init spsc_step_inv)

section \<open>Properties\<close>

text \<open>
  Under every interleaving of the two threads the buffer is a queue: what the producer
  committed is what the consumer released followed by the contents, in order and without loss or
  duplication, and no assertion of the code ever fails.
\<close>

theorem spsc_fifo_safe:
  assumes "spsc_reachable sz s" and "2 < sz" and "2 * sz \<le> SIZE_T"
  shows "sent s = received s @ bip_contents (shared s) \<and> prod s \<noteq> P_Aborted \<and> cons s \<noteq> C_Aborted"
  using spsc_reachable_inv [OF assms] by (auto simp: spsc_inv_def)

definition spsc_example :: "byte spsc" where
  "spsc_example = (spsc_init (\<lambda>_. 0))\<lparr>prod := P_Loaded 3 0 0\<rparr>"

lemma spsc_example_reachable: "spsc_reachable 8 spsc_example"
proof -
  have "spsc_step 8 (spsc_init (\<lambda>_. 0)) spsc_example"
    using spsc_step.p_load [of "spsc_init (\<lambda>_. 0 :: byte)" 8 3]
    by (simp add: spsc_example_def spsc_init_def bip_new_def)
  then show ?thesis by (rule spsc_reachable.step [OF spsc_reachable.init])
qed

theorem spsc_fifo_safe_witness:
  "sent spsc_example = received spsc_example @ bip_contents (shared spsc_example) \<and>
   prod spsc_example \<noteq> P_Aborted \<and> cons spsc_example \<noteq> C_Aborted"
  by (rule spsc_fifo_safe [OF spsc_example_reachable]) (simp_all add: SIZE_T_def)

text \<open>
  No data race on the cells: whenever the producer is about to write a cell of its
  reservation, that cell lies inside the array and outside the region the consumer has acquired.
\<close>

theorem spsc_race_free:
  assumes "spsc_reachable sz s" and "2 < sz" and "2 * sz \<le> SIZE_T"
    and "prod s = P_Fill off n xs" and "length xs < n" and "cons s = C_Read off' len ys"
  shows "off + length xs < sz \<and> off + length xs \<notin> {off'..<off' + len}"
proof -
  have inv: "bip_inv sz (shared s)" and p: "prod_inv sz (shared s) (P_Fill off n xs)"
    and c: "cons_inv (shared s) (C_Read off' len ys)"
    using spsc_reachable_inv [OF assms(1-3)] assms(4,6) by (simp_all add: spsc_inv_def)
  have "off + n \<le> sz \<and> {off..<off + n} \<inter> bip_used (shared s) = {}"
    using bip_reserved_disjoint [OF inv] p by simp
  moreover have "{off'..<off' + len} \<subseteq> bip_used (shared s)"
    using c bip_invD(4) [OF inv] by (auto simp: bip_used_def split: if_splits)
  moreover have "off + length xs \<in> {off..<off + n}" using assms(5) by simp
  ultimately have "off + length xs \<notin> {off'..<off' + len}" and "off + n \<le> sz" by blast+
  with assms(5) show ?thesis by simp
qed

text \<open>A run in which both threads hold a region: one byte is sent, then both sides acquire.\<close>

definition spsc_state ::
  "(nat \<Rightarrow> byte) \<Rightarrow> nat \<Rightarrow> nat \<Rightarrow> byte producer \<Rightarrow> byte consumer \<Rightarrow> byte list \<Rightarrow> byte spsc" where
  "spsc_state d w i p c snt = \<lparr>shared = \<lparr>bip_data = d, write_wrapped = False, read_wrapped = False,
     bip_r = 0, bip_w = w, bip_i = i\<rparr>, prod = p, cons = c, sent = snt, received = []\<rparr>"

lemma spsc_to: "spsc_reachable sz s \<Longrightarrow> spsc_step sz s t \<Longrightarrow> t = u \<Longrightarrow> spsc_reachable sz u"
  by (blast intro: spsc_reachable.step)

lemma spsc_both_reachable:
  "spsc_reachable 8 (spsc_state ((\<lambda>_. 0)(0 := 7)) 1 1 (P_Fill 1 2 []) (C_Read 0 1 []) [7])"
proof -
  let ?d = "(\<lambda>_. 0)(0 := 7) :: nat \<Rightarrow> byte"
  note eval = spsc_state_def bip_ops szt_sub_def szt_add_def SIZE_T_def
  have "spsc_reachable 8 (spsc_state (\<lambda>_. 0) 0 0 P_Idle C_Idle [])"
    using spsc_reachable.init [of 8 "\<lambda>_. 0"] by (simp add: spsc_init_def bip_new_def spsc_state_def)
  then have "spsc_reachable 8 (spsc_state (\<lambda>_. 0) 0 0 (P_Loaded 1 0 0) C_Idle [])"
    by (rule spsc_to [OF _ spsc_step.p_load [where n = 1]]) (simp add: eval)+
  then have "spsc_reachable 8 (spsc_state (\<lambda>_. 0) 0 0 (P_Fill 0 1 []) C_Idle [])"
    by (rule spsc_to [OF _ spsc_step.p_acquire [where n = 1 and w = 0 and r = 0 and off = 0]])
       (simp add: eval)+
  then have "spsc_reachable 8 (spsc_state ?d 0 0 (P_Fill 0 1 [7]) C_Idle [])"
    by (rule spsc_to [OF _ spsc_step.p_write [where off = 0 and n = 1 and xs = "[]" and x = 7]])
       (simp add: eval)+
  then have "spsc_reachable 8 (spsc_state ?d 0 0 (P_StoreI 1 1 [7]) C_Idle [])"
    by (rule spsc_to [OF _ spsc_step.p_release [where off = 0 and n = 1 and xs = "[7]"]])
       (simp add: eval)+
  then have "spsc_reachable 8 (spsc_state ?d 0 1 (P_StoreW 1 [7]) C_Idle [])"
    by (rule spsc_to [OF _ spsc_step.p_store_i]) (simp add: eval)+
  then have "spsc_reachable 8 (spsc_state ?d 1 1 P_Idle C_Idle [7])"
    by (rule spsc_to [OF _ spsc_step.p_store_w]) (simp add: eval)+
  then have "spsc_reachable 8 (spsc_state ?d 1 1 P_Idle (C_Loaded 0 1) [7])"
    by (rule spsc_to [OF _ spsc_step.c_load]) (simp add: eval)+
  then have "spsc_reachable 8 (spsc_state ?d 1 1 P_Idle (C_Read 0 1 []) [7])"
    by (rule spsc_to [OF _ spsc_step.c_acquire [where r = 0 and w = 1 and off = 0 and len = 1]])
       (simp add: eval)+
  then have "spsc_reachable 8 (spsc_state ?d 1 1 (P_Loaded 2 1 0) (C_Read 0 1 []) [7])"
    by (rule spsc_to [OF _ spsc_step.p_load [where n = 2]]) (simp add: eval)+
  then show ?thesis
    by (rule spsc_to [OF _ spsc_step.p_acquire [where n = 2 and w = 1 and r = 0 and off = 1]])
       (simp add: eval)+
qed

theorem spsc_race_free_witness:
  "(1::nat) + length ([] :: byte list) < 8 \<and> 1 + length ([] :: byte list) \<notin> {0..<0 + 1}"
  by (rule spsc_race_free [OF spsc_both_reachable]) (simp add: SIZE_T_def spsc_state_def)+

end
