(* ===== verification/Spsc_Orders.thy ===== *)
theory Spsc_Orders
  imports Spsc
begin

text \<open>
  The bipartite buffer between two threads with the memory orders of the code: the stores of
  \<^verbatim>\<open>_w\<close> and \<^verbatim>\<open>_r\<close> release, the loads of the other thread's index acquire, everything else is
  relaxed.  A load may return an old value, and only what a thread has acquired is visible to it.
  Each index is stored by one thread only, so its modification order is the list of its stores.  Clocks
  order the accesses to the cells, which are not atomic: an access that is not ordered after the last
  conflicting one is a data race.
\<close>

section \<open>Atomic indices\<close>

datatype order = Relaxed | Acquire | Release
datatype index = Idx_R | Idx_W | Idx_I
datatype thread = Producer | Consumer

text \<open>
  What a thread has seen: of each index the number of the latest store it knows of, and of each thread
  the number of the latest access to a cell that is ordered before its own next step.
\<close>

record view =
  seen :: "index \<Rightarrow> nat"
  clock :: "thread \<Rightarrow> nat"

record message =
  msg_val :: nat
  msg_view :: view

type_synonym index_memory = "index \<Rightarrow> message list"

definition view_bottom :: view where
  "view_bottom = \<lparr>seen = \<lambda>_. 0, clock = \<lambda>_. 0\<rparr>"

definition view_join :: "view \<Rightarrow> view \<Rightarrow> view" where
  "view_join a b = \<lparr>seen = \<lambda>x. max (seen a x) (seen b x), clock = \<lambda>t. max (clock a t) (clock b t)\<rparr>"

text \<open>
  \<^verbatim>\<open>thread_safety_atomic::store\<close> and \<^verbatim>\<open>load\<close>.  A releasing store carries the view of its thread; a
  load takes store number \<open>k\<close>, which must not be older than what the thread has seen, and an acquiring
  one takes over the view that the store carries.
\<close>

definition atomic_store :: "order \<Rightarrow> index \<Rightarrow> nat \<Rightarrow> view \<Rightarrow> index_memory \<Rightarrow> view \<times> index_memory" where
  "atomic_store ord x n v mem =
     (let v1 = v\<lparr>seen := (seen v)(x := length (mem x))\<rparr>
      in (v1, mem(x := mem x @ [\<lparr>msg_val = n, msg_view = (if ord = Release then v1 else view_bottom)\<rparr>])))"

definition atomic_load :: "order \<Rightarrow> index \<Rightarrow> nat \<Rightarrow> view \<Rightarrow> index_memory \<Rightarrow> (nat \<times> view) option" where
  "atomic_load ord x k v mem =
     (if seen v x \<le> k \<and> k < length (mem x) then
        (let m = mem x ! k; v1 = v\<lparr>seen := (seen v)(x := k)\<rparr>
         in Some (msg_val m, if ord = Acquire then view_join v1 (msg_view m) else v1))
      else None)"

text \<open>An access to a cell advances the clock of its thread.\<close>

definition tick :: "thread \<Rightarrow> view \<Rightarrow> view" where
  "tick t v = v\<lparr>clock := (clock v)(t := clock v t + 1)\<rparr>"

section \<open>States and steps\<close>

text \<open>
  \<open>wrote\<close> and \<open>read_at\<close> have the clock of the last write and the last read of each cell.  The states of
  the two threads are those of \<open>Spsc\<close>.
\<close>

record 'a weak =
  cells :: "nat \<Rightarrow> 'a"
  indices :: index_memory
  wrote :: "nat \<Rightarrow> nat"
  read_at :: "nat \<Rightarrow> nat"
  p_view :: view
  c_view :: view
  p_wrapped :: bool
  c_wrapped :: bool
  p_at :: "'a producer"
  c_at :: "'a consumer"
  committed :: "'a list"
  released :: "'a list"

definition weak_init :: "(nat \<Rightarrow> 'a) \<Rightarrow> 'a weak" where
  "weak_init mem =
     \<lparr>cells = mem, indices = (\<lambda>_. [\<lparr>msg_val = 0, msg_view = view_bottom\<rparr>]), wrote = \<lambda>_. 0, read_at = \<lambda>_. 0,
      p_view = view_bottom, c_view = view_bottom, p_wrapped = False, c_wrapped = False,
      p_at = P_Idle, c_at = C_Idle, committed = [], released = []\<rparr>"

text \<open>The object as a thread sees it: the index values it has loaded.\<close>

definition local_bip :: "'a weak \<Rightarrow> nat \<Rightarrow> nat \<Rightarrow> nat \<Rightarrow> 'a bip" where
  "local_bip s r w i =
     \<lparr>bip_data = cells s, write_wrapped = p_wrapped s, read_wrapped = c_wrapped s,
      bip_r = r, bip_w = w, bip_i = i\<rparr>"

text \<open>
  The invalidate index is loaded only where the code does: by \<open>write_release\<close> unless the write has
  wrapped, by \<open>read_acquire\<close> if the write index is behind the read index.  What has not been loaded
  is not looked at, and 0 stands for it.
\<close>

inductive weak_step :: "nat \<Rightarrow> 'a weak \<Rightarrow> 'a weak \<Rightarrow> bool" for sz where
  p_load: "p_at s = P_Idle \<Longrightarrow>
     atomic_load Relaxed Idx_W k (p_view s) (indices s) = Some (w, v1) \<Longrightarrow>
     atomic_load Acquire Idx_R j v1 (indices s) = Some (r, v2) \<Longrightarrow>
     weak_step sz s (s\<lparr>p_at := P_Loaded n w r, p_view := v2\<rparr>)"
| p_acquire: "p_at s = P_Loaded n w r \<Longrightarrow> write_acquire sz n (local_bip s r w 0) = (Some off, b) \<Longrightarrow>
     weak_step sz s (s\<lparr>p_at := P_Fill off n [], p_wrapped := write_wrapped b\<rparr>)"
| p_no_space: "p_at s = P_Loaded n w r \<Longrightarrow> write_acquire sz n (local_bip s r w 0) = (None, b) \<Longrightarrow>
     weak_step sz s (s\<lparr>p_at := P_Idle\<rparr>)"
| p_write: "p_at s = P_Fill off n xs \<Longrightarrow> length xs < n \<Longrightarrow>
     weak_step sz s (s\<lparr>p_at := P_Fill off n (xs @ [x]), cells := (cells s)(off + length xs := x),
       p_view := tick Producer (p_view s),
       wrote := (wrote s)(off + length xs := clock (p_view s) Producer + 1)\<rparr>)"
| p_release: "p_at s = P_Fill off n xs \<Longrightarrow>
     atomic_load Relaxed Idx_W k (p_view s) (indices s) = Some (w, v1) \<Longrightarrow>
     (if p_wrapped s then (i, v2) = (0, v1) else atomic_load Relaxed Idx_I m v1 (indices s) = Some (i, v2)) \<Longrightarrow>
     write_release sz (length xs) (local_bip s 0 w i) = Some b \<Longrightarrow>
     weak_step sz s (s\<lparr>p_at := P_StoreI (bip_i b) (bip_w b) xs, p_view := v2, p_wrapped := write_wrapped b\<rparr>)"
| p_assert: "p_at s = P_Fill off n xs \<Longrightarrow>
     atomic_load Relaxed Idx_W k (p_view s) (indices s) = Some (w, v1) \<Longrightarrow>
     (if p_wrapped s then (i, v2) = (0, v1) else atomic_load Relaxed Idx_I m v1 (indices s) = Some (i, v2)) \<Longrightarrow>
     write_release sz (length xs) (local_bip s 0 w i) = None \<Longrightarrow>
     weak_step sz s (s\<lparr>p_at := P_Aborted\<rparr>)"
| p_store_i: "p_at s = P_StoreI i w xs \<Longrightarrow>
     atomic_store Relaxed Idx_I i (p_view s) (indices s) = (v1, mem) \<Longrightarrow>
     weak_step sz s (s\<lparr>p_at := P_StoreW w xs, p_view := v1, indices := mem\<rparr>)"
| p_store_w: "p_at s = P_StoreW w xs \<Longrightarrow>
     atomic_store Release Idx_W w (p_view s) (indices s) = (v1, mem) \<Longrightarrow>
     weak_step sz s (s\<lparr>p_at := P_Idle, p_view := v1, indices := mem, committed := committed s @ xs\<rparr>)"
| c_load: "c_at s = C_Idle \<Longrightarrow>
     atomic_load Relaxed Idx_R j (c_view s) (indices s) = Some (r, v1) \<Longrightarrow>
     atomic_load Acquire Idx_W k v1 (indices s) = Some (w, v2) \<Longrightarrow>
     weak_step sz s (s\<lparr>c_at := C_Loaded r w, c_view := v2\<rparr>)"
| c_empty: "c_at s = C_Loaded r w \<Longrightarrow>
     (if r \<le> w then (i, v1) = (0, c_view s) else atomic_load Relaxed Idx_I m (c_view s) (indices s) = Some (i, v1)) \<Longrightarrow>
     read_acquire (local_bip s r w i) = ((None, len), b) \<Longrightarrow>
     weak_step sz s (s\<lparr>c_at := C_Idle, c_view := v1, c_wrapped := read_wrapped b\<rparr>)"
| c_acquire: "c_at s = C_Loaded r w \<Longrightarrow>
     (if r \<le> w then (i, v1) = (0, c_view s) else atomic_load Relaxed Idx_I m (c_view s) (indices s) = Some (i, v1)) \<Longrightarrow>
     read_acquire (local_bip s r w i) = ((Some off, len), b) \<Longrightarrow>
     weak_step sz s (s\<lparr>c_at := (if 0 < len then C_Read off len [] else C_Idle), c_view := v1,
       c_wrapped := read_wrapped b\<rparr>)"
| c_read: "c_at s = C_Read off len ys \<Longrightarrow> length ys < len \<Longrightarrow>
     weak_step sz s (s\<lparr>c_at := C_Read off len (ys @ [cells s (off + length ys)]),
       c_view := tick Consumer (c_view s),
       read_at := (read_at s)(off + length ys := clock (c_view s) Consumer + 1)\<rparr>)"
| c_release: "c_at s = C_Read off len ys \<Longrightarrow> n \<le> length ys \<Longrightarrow>
     (if c_wrapped s then (r, v1) = (0, c_view s) else atomic_load Relaxed Idx_R j (c_view s) (indices s) = Some (r, v1)) \<Longrightarrow>
     read_release sz n (local_bip s r 0 0) = Some b \<Longrightarrow>
     atomic_store Release Idx_R (bip_r b) v1 (indices s) = (v2, mem) \<Longrightarrow>
     weak_step sz s (s\<lparr>c_at := C_Idle, c_view := v2, indices := mem, c_wrapped := read_wrapped b,
       released := released s @ take n ys\<rparr>)"
| c_assert: "c_at s = C_Read off len ys \<Longrightarrow> n \<le> length ys \<Longrightarrow>
     (if c_wrapped s then (r, v1) = (0, c_view s) else atomic_load Relaxed Idx_R j (c_view s) (indices s) = Some (r, v1)) \<Longrightarrow>
     read_release sz n (local_bip s r 0 0) = None \<Longrightarrow>
     weak_step sz s (s\<lparr>c_at := C_Aborted\<rparr>)"

inductive weak_reachable :: "nat \<Rightarrow> 'a weak \<Rightarrow> bool" for sz where
  init: "weak_reachable sz (weak_init mem)"
| step: "weak_reachable sz s \<Longrightarrow> weak_step sz s t \<Longrightarrow> weak_reachable sz t"

text \<open>The access that comes next is not ordered after the last conflicting access of the other thread.\<close>

definition races :: "'a weak \<Rightarrow> bool" where
  "races s \<longleftrightarrow>
     (case p_at s of
        P_Fill off n xs \<Rightarrow> length xs < n \<and> clock (p_view s) Consumer < read_at s (off + length xs)
      | _ \<Rightarrow> False) \<or>
     (case c_at s of
        C_Read off len ys \<Rightarrow> length ys < len \<and> clock (c_view s) Producer < wrote s (off + length ys)
      | _ \<Rightarrow> False)"

text \<open>The regions that the two threads have acquired are inside the array.\<close>

definition regions_inside :: "nat \<Rightarrow> 'a weak \<Rightarrow> bool" where
  "regions_inside sz s \<longleftrightarrow>
     (case p_at s of P_Fill off n xs \<Rightarrow> off + n \<le> sz | _ \<Rightarrow> True) \<and>
     (case c_at s of C_Read off len ys \<Rightarrow> off + len \<le> sz | _ \<Rightarrow> True)"

text \<open>The object with the latest value of every index.\<close>

definition latest :: "'a weak \<Rightarrow> 'a bip" where
  "latest s =
     local_bip s (msg_val (last (indices s Idx_R))) (msg_val (last (indices s Idx_W))) (msg_val (last (indices s Idx_I)))"

section \<open>Positions\<close>

text \<open>
  The proof counts the positions of the two indices without wrapping: position \<open>v\<close> is cell \<open>v mod sz\<close> of lap
  \<open>v div sz\<close>.  Two positions less than one lap apart compare like this.
\<close>

lemma laps:
  fixes a b sz :: nat
  assumes "a \<le> b" and "b < a + sz"
  shows "(b div sz = a div sz \<and> a mod sz \<le> b mod sz \<and> b - a = b mod sz - a mod sz) \<or>
    (b div sz = Suc (a div sz) \<and> b mod sz < a mod sz \<and> b - a = sz - a mod sz + b mod sz)"
proof -
  have sz: "0 < sz" using assms by (cases sz) simp_all
  have a: "a = a div sz * sz + a mod sz" and b: "b = b div sz * sz + b mod sz" by simp_all
  have m: "a mod sz < sz" "b mod sz < sz" using sz by simp_all
  have "a div sz \<le> b div sz" using assms(1) by (rule div_le_mono)
  moreover have "b div sz < Suc (Suc (a div sz))"
  proof -
    have "b < Suc (Suc (a div sz)) * sz" unfolding mult_Suc using assms(2) a m(1) by linarith
    then show ?thesis using sz by (simp add: div_less_iff_less_mult)
  qed
  ultimately consider "b div sz = a div sz" | "b div sz = Suc (a div sz)" by linarith
  then show ?thesis
  proof cases
    case 1
    have e: "b = a div sz * sz + b mod sz" using b unfolding 1 .
    have "a mod sz \<le> b mod sz" using e a assms(1) by linarith
    moreover have "b - a = b mod sz - a mod sz" using e a by linarith
    ultimately show ?thesis using 1 by simp
  next
    case 2
    then have e: "b = a div sz * sz + sz + b mod sz" using b by simp
    then have "b mod sz < a mod sz" using a assms(2) by linarith
    moreover have "b - a = sz - a mod sz + b mod sz" using e a m by linarith
    ultimately show ?thesis using 2 by simp
  qed
qed

lemma lap_step:
  fixes v n sz :: nat
  assumes "0 < sz" and "v mod sz + n \<le> sz"
  shows "(v + n) mod sz = (if v mod sz + n = sz then 0 else v mod sz + n)"
    and "(v + n) div sz = (if v mod sz + n = sz then Suc (v div sz) else v div sz)"
proof -
  have v: "v + n = v div sz * sz + (v mod sz + n)" by simp
  have "(v + n) mod sz = (if v mod sz + n = sz then 0 else v mod sz + n) \<and>
    (v + n) div sz = (if v mod sz + n = sz then Suc (v div sz) else v div sz)"
  proof (cases "v mod sz + n = sz")
    case True
    then have "v + n = Suc (v div sz) * sz" using v by simp
    with True assms(1) show ?thesis by (metis div_mult_self_is_m mod_mult_self2_is_0)
  next
    case False
    with assms(2) have l: "v mod sz + n < sz" by simp
    have "(v + n) div sz = v div sz" unfolding v using l assms(1) by (subst div_mult_self3) simp_all
    moreover have "(v + n) mod sz = v mod sz + n" unfolding v using l by (subst mod_mult_self3) simp
    ultimately show ?thesis using False by simp
  qed
  then show "(v + n) mod sz = (if v mod sz + n = sz then 0 else v mod sz + n)"
    and "(v + n) div sz = (if v mod sz + n = sz then Suc (v div sz) else v div sz)" by simp_all
qed

text \<open>The positions of one region lie in one lap.\<close>

lemma region_lap:
  fixes v t n sz :: nat
  assumes "v mod sz + n \<le> sz" and "t < n"
  shows "(v + t) mod sz = v mod sz + t" "(v + t) div sz = v div sz"
  using lap_step [of sz v t] assms by (cases sz; simp)+

text \<open>Two positions of one cell, one less than a lap before the other or after it.\<close>

lemma same_cell:
  fixes a b sz :: nat
  assumes "a mod sz = b mod sz" and "a < b + sz"
  shows "a \<le> b"
proof (rule ccontr)
  assume "\<not> a \<le> b"
  then have "b \<le> a" by simp
  from laps [OF this assms(2)] assms(1) \<open>\<not> a \<le> b\<close> show False by auto
qed

lemma same_cell_before:
  fixes a b r sz :: nat
  assumes "a mod sz = b mod sz" and "a < b" and "b < r + sz"
  shows "a < r"
proof (rule ccontr)
  assume "\<not> a < r"
  with assms have "b < a + sz" by simp
  with same_cell [of b sz a] assms show False by simp
qed

text \<open>The cell after the last of a lap is the first of the next one.\<close>

definition next_lap :: "nat \<Rightarrow> nat \<Rightarrow> nat" where
  "next_lap sz v = Suc (v div sz) * sz"

lemma next_lap [simp]: "0 < sz \<Longrightarrow> next_lap sz v mod sz = 0" "0 < sz \<Longrightarrow> next_lap sz v div sz = Suc (v div sz)"
  by (simp_all add: next_lap_def del: mult_Suc)

lemma next_lap_diff: "0 < sz \<Longrightarrow> next_lap sz v = v + (sz - v mod sz)"
proof -
  assume "0 < sz"
  then have "v mod sz < sz" by simp
  with div_mult_mod_eq [of v sz] show ?thesis unfolding next_lap_def mult_Suc by linarith
qed

lemma next_lap_gt: "0 < sz \<Longrightarrow> v < next_lap sz v"
  using mod_less_divisor [of sz v] by (simp add: next_lap_diff del: mod_less_divisor)

section \<open>The operations on loaded indices\<close>

lemma weak_write_acquire:
  assumes "2 < sz" and "2 * sz \<le> SIZE_T" and "r < sz" and "w < sz"
  shows "write_acquire sz n (local_bip s r w i) =
    (if n \<le> (if w < r then r - w - 1 else min (sz - (w - r) - 1) (sz - w)) then (Some w, local_bip s r w i)
     else if \<not> w < r \<and> n \<le> r - 1 then (Some 0, (local_bip s r w i)\<lparr>write_wrapped := True\<rparr>)
     else (None, local_bip s r w i))"
proof -
  let ?b = "(local_bip s r w sz)\<lparr>read_wrapped := False, write_wrapped := False\<rparr>"
  have inv: "bip_inv sz ?b" using assms by (simp add: bip_inv_def local_bip_def)
  have "write_acquire sz n (local_bip s r w i) =
    (case write_acquire sz n ?b of (p, c) \<Rightarrow>
       (p, if write_wrapped c then (local_bip s r w i)\<lparr>write_wrapped := True\<rparr> else local_bip s r w i))"
    by (simp add: write_acquire_def Let_def local_bip_def)
  then show ?thesis
    unfolding write_acquire_eq [OF inv] by (cases "w < r") (auto simp: local_bip_def)
qed

lemma weak_write_release:
  assumes "2 * sz \<le> SIZE_T" and "n \<le> sz" and "w < sz"
  shows "write_release sz n (local_bip s r w i) =
    (let w1 = (if p_wrapped s then 0 else w); i0 = (if p_wrapped s then w else i)
     in if w1 + n \<le> sz then
          Some ((local_bip s r w i)\<lparr>write_wrapped := False, bip_i := max i0 (w1 + n),
                 bip_w := (if w1 + n = sz then 0 else w1 + n)\<rparr>)
        else None)"
proof -
  have "szt_add 0 n = n" "szt_add w n = w + n" using assms by (simp_all add: szt_add_small)
  then show ?thesis by (cases "p_wrapped s") (simp_all add: write_release_def Let_def max_def not_less local_bip_def)
qed

lemma weak_read_acquire:
  assumes "r < SIZE_T" and "w < SIZE_T" and "i < SIZE_T" and "w < r \<Longrightarrow> r \<le> i"
  shows "read_acquire (local_bip s r w i) =
    (if r = w then ((None, 0), local_bip s r w i)
     else if r < w then ((Some r, w - r), local_bip s r w i)
     else if r = i then ((Some 0, w), (local_bip s r w i)\<lparr>read_wrapped := True\<rparr>)
     else ((Some r, i - r), local_bip s r w i))"
  using assms by (simp add: read_acquire_def Let_def szt_sub_small local_bip_def)

lemma weak_read_release:
  assumes "2 * sz \<le> SIZE_T" and "n \<le> sz" and "r < sz"
  shows "read_release sz n (local_bip s r w i) =
    (let r1 = (if c_wrapped s then 0 else r) + n
     in if r1 \<le> sz then
          Some ((local_bip s r w i)\<lparr>read_wrapped := False, bip_r := (if r1 = sz then 0 else r1)\<rparr>)
        else None)"
proof -
  have "szt_add 0 n = n" "szt_add r n = r + n" using assms by (simp_all add: szt_add_small)
  then show ?thesis by (cases "c_wrapped s") (simp_all add: read_release_def Let_def local_bip_def)
qed

section \<open>Loads and stores\<close>

lemma view_fields [simp]:
  "seen (view_join a b) x = max (seen a x) (seen b x)" "clock (view_join a b) t = max (clock a t) (clock b t)"
  "seen (tick t v) = seen v" "seen view_bottom x = 0" "clock view_bottom t = 0"
  "clock (tick t v) u = (if u = t then clock v t + 1 else clock v u)"
  by (simp_all add: view_join_def tick_def view_bottom_def)

text \<open>A thread sees the last store of the index that only it stores.\<close>

lemma load_own:
  assumes "atomic_load Relaxed x k v mem = Some (n, v1)" and "Suc (seen v x) = length (mem x)"
  shows "n = msg_val (last (mem x))" and "v1 = v"
proof -
  from assms have k: "k = length (mem x) - 1" "0 < length (mem x)" and m: "n = msg_val (mem x ! k)"
    and v: "v1 = v\<lparr>seen := (seen v)(x := k)\<rparr>"
    by (auto simp: atomic_load_def Let_def split: if_splits)
  from m k show "n = msg_val (last (mem x))" by (simp add: last_conv_nth)
  from assms(2) k have "(seen v)(x := k) = seen v" by (simp add: fun_eq_iff)
  with v show "v1 = v" by simp
qed

lemma load_relaxed:
  assumes "atomic_load Relaxed x k v mem = Some (n, v1)"
  shows "seen v x \<le> k" "k < length (mem x)" "n = msg_val (mem x ! k)" "clock v1 = clock v"
    "seen v1 = (seen v)(x := k)"
  using assms by (auto simp: atomic_load_def Let_def split: if_splits)

lemma load_acquire:
  assumes "atomic_load Acquire x k v mem = Some (n, v1)"
  shows "seen v x \<le> k" "k < length (mem x)" "n = msg_val (mem x ! k)"
    "v1 = view_join (v\<lparr>seen := (seen v)(x := k)\<rparr>) (msg_view (mem x ! k))"
  using assms by (auto simp: atomic_load_def Let_def split: if_splits)

lemma store_facts:
  assumes "atomic_store ord x n v mem = (v1, mem1)"
  shows "mem1 = mem(x := mem x @ [\<lparr>msg_val = n, msg_view = (if ord = Release then v1 else view_bottom)\<rparr>])"
    "clock v1 = clock v" "seen v1 = (seen v)(x := length (mem x))"
  using assms by (auto simp: atomic_store_def Let_def)

end
