(* ===== verification/Spsc_Views.thy ===== *)
theory Spsc_Views
  imports Spsc_Orders
begin

text \<open>
  The invariant of the buffer under the memory orders of the code.  It counts the stores of \<open>_w\<close> and \<open>_r\<close> as
  positions that do not wrap and says, of every store that a thread may still load, what the cells, the
  limit \<open>_i\<close> and the clocks are at its position.
\<close>

section \<open>The invariant\<close>

text \<open>
  What the proof knows beside the state: the positions that have been stored as \<open>_w\<close> and \<open>_r\<close>, the item
  committed at each position, and where the data of each lap ends, which is where the producer has
  wrapped.
\<close>

record 'a ghost =
  w_pos :: "nat list"
  r_pos :: "nat list"
  item_at :: "nat \<Rightarrow> 'a"
  lap_end :: "nat \<Rightarrow> nat"

abbreviation pos_w :: "'a ghost \<Rightarrow> nat" where "pos_w g \<equiv> last (w_pos g)"
abbreviation pos_r :: "'a ghost \<Rightarrow> nat" where "pos_r g \<equiv> last (r_pos g)"

text \<open>The positions of the other thread that a thread has seen.\<close>

abbreviation seen_w :: "'a ghost \<Rightarrow> 'a weak \<Rightarrow> nat" where "seen_w g s \<equiv> w_pos g ! seen (c_view s) Idx_W"
abbreviation seen_r :: "'a ghost \<Rightarrow> 'a weak \<Rightarrow> nat" where "seen_r g s \<equiv> r_pos g ! seen (p_view s) Idx_R"

text \<open>The items between two positions, and the value of \<open>_i\<close> that goes with a position of \<open>_w\<close>.\<close>

definition items :: "nat \<Rightarrow> (nat \<Rightarrow> nat) \<Rightarrow> (nat \<Rightarrow> 'a) \<Rightarrow> nat \<Rightarrow> nat \<Rightarrow> 'a list" where
  "items sz e f p q = map f (filter (\<lambda>a. a mod sz < e (a div sz)) [p..<q])"

definition limit_at :: "nat \<Rightarrow> (nat \<Rightarrow> nat) \<Rightarrow> nat \<Rightarrow> nat" where
  "limit_at sz e v = max (if v div sz = 0 then 0 else e (v div sz - 1)) (v mod sz)"

definition views_ok :: "'a weak \<Rightarrow> bool" where
  "views_ok s \<longleftrightarrow>
     (\<forall>x. \<forall>k<length (indices s x). seen (msg_view (indices s x ! k)) x \<le> k \<and>
        (\<forall>y. seen (msg_view (indices s x ! k)) y < length (indices s y))) \<and>
     (\<forall>y. seen (p_view s) y < length (indices s y)) \<and> (\<forall>y. seen (c_view s) y < length (indices s y)) \<and>
     Suc (seen (p_view s) Idx_W) = length (indices s Idx_W) \<and> Suc (seen (p_view s) Idx_I) = length (indices s Idx_I) \<and>
     Suc (seen (c_view s) Idx_R) = length (indices s Idx_R) \<and>
     seen (c_view s) Idx_W \<le> seen (c_view s) Idx_I \<and>
     (\<forall>k<length (indices s Idx_W). k \<le> seen (msg_view (indices s Idx_W ! k)) Idx_I)"

definition positions_ok :: "nat \<Rightarrow> 'a ghost \<Rightarrow> 'a weak \<Rightarrow> bool" where
  "positions_ok sz g s \<longleftrightarrow>
     map msg_val (indices s Idx_W) = map (\<lambda>v. v mod sz) (w_pos g) \<and>
     map msg_val (indices s Idx_R) = map (\<lambda>v. v mod sz) (r_pos g) \<and>
     w_pos g \<noteq> [] \<and> r_pos g \<noteq> [] \<and> sorted (w_pos g) \<and> sorted (r_pos g) \<and>
     pos_r g \<le> seen_w g s \<and> pos_w g < seen_r g s + sz"

definition laps_ok :: "nat \<Rightarrow> 'a ghost \<Rightarrow> bool" where
  "laps_ok sz g \<longleftrightarrow>
     (\<forall>l. lap_end g l \<le> sz) \<and> (\<forall>l\<ge>pos_w g div sz. lap_end g l = sz) \<and>
     (\<forall>v\<in>set (w_pos g) \<union> set (r_pos g). v mod sz \<le> lap_end g (v div sz))"

definition data_ok :: "nat \<Rightarrow> 'a ghost \<Rightarrow> 'a weak \<Rightarrow> bool" where
  "data_ok sz g s \<longleftrightarrow>
     (\<forall>a. seen_r g s \<le> a \<longrightarrow> a < pos_w g \<longrightarrow> a mod sz < lap_end g (a div sz) \<longrightarrow> cells s (a mod sz) = item_at g a) \<and>
     committed s = items sz (lap_end g) (item_at g) 0 (pos_w g) \<and>
     released s = items sz (lap_end g) (item_at g) 0 (pos_r g)"

text \<open>
  The last write of a cell at a position is ordered before everything that has seen a later position of
  \<open>_w\<close>; the last read before everything that has seen a later position of \<open>_r\<close>.
\<close>

definition wrote_before :: "nat \<Rightarrow> 'a ghost \<Rightarrow> 'a weak \<Rightarrow> nat \<Rightarrow> nat \<Rightarrow> bool" where
  "wrote_before sz g s hi c \<longleftrightarrow> wrote s c = 0 \<or>
     (\<exists>a<hi. a mod sz = c \<and>
        (\<forall>k<length (w_pos g). a < w_pos g ! k \<longrightarrow> wrote s c \<le> clock (msg_view (indices s Idx_W ! k)) Producer))"

definition read_before :: "nat \<Rightarrow> 'a ghost \<Rightarrow> 'a weak \<Rightarrow> nat \<Rightarrow> nat \<Rightarrow> bool" where
  "read_before sz g s hi c \<longleftrightarrow> read_at s c = 0 \<or>
     (\<exists>a<hi. a mod sz = c \<and>
        (\<forall>k<length (r_pos g). a < r_pos g ! k \<longrightarrow> read_at s c \<le> clock (msg_view (indices s Idx_R ! k)) Consumer))"

definition clocks_ok :: "nat \<Rightarrow> 'a ghost \<Rightarrow> 'a weak \<Rightarrow> bool" where
  "clocks_ok sz g s \<longleftrightarrow>
     (\<forall>c. wrote s c \<le> clock (p_view s) Producer) \<and> (\<forall>c. read_at s c \<le> clock (c_view s) Consumer) \<and>
     clock (msg_view (indices s Idx_W ! seen (c_view s) Idx_W)) Producer \<le> clock (c_view s) Producer \<and>
     clock (msg_view (indices s Idx_R ! seen (p_view s) Idx_R)) Consumer \<le> clock (p_view s) Consumer \<and>
     (\<forall>c < sz. wrote_before sz g s (seen_r g s + sz) c) \<and> (\<forall>c < sz. read_before sz g s (pos_w g) c)"

lemma before_mono:
  "wrote_before sz g s lo c \<Longrightarrow> lo \<le> hi \<Longrightarrow> wrote_before sz g s hi c"
  "read_before sz g s lo c \<Longrightarrow> lo \<le> hi \<Longrightarrow> read_before sz g s hi c"
  unfolding wrote_before_def read_before_def by (blast intro: less_le_trans)+

lemma before_cong:
  "wrote t c = wrote s c \<Longrightarrow> indices t Idx_W = indices s Idx_W \<Longrightarrow> wrote_before sz g t hi c = wrote_before sz g s hi c"
  "read_at t c = read_at s c \<Longrightarrow> indices t Idx_R = indices s Idx_R \<Longrightarrow> read_before sz g t hi c = read_before sz g s hi c"
  by (simp_all add: wrote_before_def read_before_def)

text \<open>Cells that have been written from a position on, for the next store of \<open>_w\<close>.\<close>

definition staged :: "nat \<Rightarrow> 'a ghost \<Rightarrow> 'a weak \<Rightarrow> nat \<Rightarrow> 'a list \<Rightarrow> bool" where
  "staged sz g s base xs \<longleftrightarrow>
     (base = pos_w g \<or> base = next_lap sz (pos_w g) \<and> 0 < pos_w g mod sz) \<and>
     base + length xs < seen_r g s + sz \<and> base mod sz + length xs \<le> sz \<and>
     (\<forall>t<length xs. cells s (base mod sz + t) = xs ! t)"

definition laps_after :: "nat \<Rightarrow> 'a ghost \<Rightarrow> nat \<Rightarrow> nat \<Rightarrow> nat" where
  "laps_after sz g base = (if base = pos_w g then lap_end g else (lap_end g)(pos_w g div sz := pos_w g mod sz))"

definition limits :: "nat \<Rightarrow> 'a ghost \<Rightarrow> nat list" where
  "limits sz g = map (limit_at sz (lap_end g)) (w_pos g)"

definition fill_base :: "nat \<Rightarrow> 'a ghost \<Rightarrow> 'a weak \<Rightarrow> nat" where
  "fill_base sz g s = (if p_wrapped s then next_lap sz (pos_w g) else pos_w g)"

fun producer_ok :: "nat \<Rightarrow> 'a ghost \<Rightarrow> 'a weak \<Rightarrow> 'a producer \<Rightarrow> bool" where
  "producer_ok sz g s P_Idle \<longleftrightarrow> \<not> p_wrapped s \<and> map msg_val (indices s Idx_I) = limits sz g"
| "producer_ok sz g s (P_Loaded n w r) \<longleftrightarrow> \<not> p_wrapped s \<and> map msg_val (indices s Idx_I) = limits sz g \<and>
     w = pos_w g mod sz \<and> r = seen_r g s mod sz"
| "producer_ok sz g s (P_Fill off n xs) \<longleftrightarrow> map msg_val (indices s Idx_I) = limits sz g \<and>
     off = fill_base sz g s mod sz \<and> staged sz g s (fill_base sz g s) xs \<and> length xs \<le> n \<and>
     fill_base sz g s + n < seen_r g s + sz \<and> off + n \<le> sz"
| "producer_ok sz g s (P_StoreI i w xs) \<longleftrightarrow> \<not> p_wrapped s \<and> map msg_val (indices s Idx_I) = limits sz g \<and>
     (\<exists>base. staged sz g s base xs \<and> w = (base + length xs) mod sz \<and>
        i = limit_at sz (laps_after sz g base) (base + length xs))"
| "producer_ok sz g s (P_StoreW w xs) \<longleftrightarrow> \<not> p_wrapped s \<and>
     (\<exists>base. staged sz g s base xs \<and> w = (base + length xs) mod sz \<and>
        map msg_val (indices s Idx_I) = limits sz g @ [limit_at sz (laps_after sz g base) (base + length xs)])"
| "producer_ok sz g s P_Aborted \<longleftrightarrow> False"

definition read_base :: "nat \<Rightarrow> 'a ghost \<Rightarrow> 'a weak \<Rightarrow> nat" where
  "read_base sz g s = (if c_wrapped s then next_lap sz (pos_r g) else pos_r g)"

fun consumer_ok :: "nat \<Rightarrow> 'a ghost \<Rightarrow> 'a weak \<Rightarrow> 'a consumer \<Rightarrow> bool" where
  "consumer_ok sz g s C_Idle \<longleftrightarrow> True"
| "consumer_ok sz g s (C_Loaded r w) \<longleftrightarrow> r = pos_r g mod sz \<and> w = seen_w g s mod sz"
| "consumer_ok sz g s (C_Read off len ys) \<longleftrightarrow>
     off = read_base sz g s mod sz \<and> read_base sz g s + len \<le> seen_w g s \<and>
     off + len \<le> lap_end g (read_base sz g s div sz) \<and> length ys \<le> len \<and>
     ys = map (item_at g) [read_base sz g s..<read_base sz g s + length ys]"
| "consumer_ok sz g s C_Aborted \<longleftrightarrow> False"

definition wrap_ok :: "nat \<Rightarrow> 'a ghost \<Rightarrow> 'a weak \<Rightarrow> bool" where
  "wrap_ok sz g s \<longleftrightarrow> (c_wrapped s \<longrightarrow>
     seen_w g s div sz = Suc (pos_r g div sz) \<and> pos_r g mod sz = lap_end g (pos_r g div sz))"

definition weak_inv :: "nat \<Rightarrow> 'a ghost \<Rightarrow> 'a weak \<Rightarrow> bool" where
  "weak_inv sz g s \<longleftrightarrow> views_ok s \<and> positions_ok sz g s \<and> laps_ok sz g \<and> data_ok sz g s \<and> clocks_ok sz g s \<and>
     wrap_ok sz g s \<and> producer_ok sz g s (p_at s) \<and> consumer_ok sz g s (c_at s)"

lemma weak_inv_init:
  assumes "2 < sz"
  shows "weak_inv sz \<lparr>w_pos = [0], r_pos = [0], item_at = f, lap_end = \<lambda>_. sz\<rparr> (weak_init mem)"
  using assms
  by (auto simp: weak_inv_def weak_init_def views_ok_def positions_ok_def laps_ok_def data_ok_def clocks_ok_def
      wrote_before_def read_before_def wrap_ok_def items_def limits_def limit_at_def)

text \<open>How the positions lie to each other.\<close>

lemma positions_lengths:
  assumes "positions_ok sz g s"
  shows "length (indices s Idx_W) = length (w_pos g)" "length (indices s Idx_R) = length (r_pos g)"
  using assms unfolding positions_ok_def by (metis length_map)+

lemma positions_values:
  assumes "positions_ok sz g s"
  shows "k < length (w_pos g) \<Longrightarrow> msg_val (indices s Idx_W ! k) = w_pos g ! k mod sz"
    and "k < length (r_pos g) \<Longrightarrow> msg_val (indices s Idx_R ! k) = r_pos g ! k mod sz"
proof -
  note len = positions_lengths [OF assms]
  from assms have w: "map msg_val (indices s Idx_W) = map (\<lambda>v. v mod sz) (w_pos g)"
    and r: "map msg_val (indices s Idx_R) = map (\<lambda>v. v mod sz) (r_pos g)" by (simp_all add: positions_ok_def)
  show "k < length (w_pos g) \<Longrightarrow> msg_val (indices s Idx_W ! k) = w_pos g ! k mod sz"
    using arg_cong [where f = "\<lambda>xs. xs ! k", OF w] len by simp
  show "k < length (r_pos g) \<Longrightarrow> msg_val (indices s Idx_R ! k) = r_pos g ! k mod sz"
    using arg_cong [where f = "\<lambda>xs. xs ! k", OF r] len by simp
qed

lemma sorted_last: "sorted xs \<Longrightarrow> k < length xs \<Longrightarrow> xs ! k \<le> last xs"
  by (cases "xs = []") (simp_all add: last_conv_nth sorted_iff_nth_mono)

lemma positions_order:
  assumes "views_ok s" and "positions_ok sz g s"
  shows "pos_r g \<le> seen_w g s" "seen_w g s \<le> pos_w g" "pos_w g < seen_r g s + sz" "seen_r g s \<le> pos_r g"
    "pos_w g < pos_r g + sz" "seen_w g s < pos_r g + sz" "seen_r g s \<le> pos_w g"
proof -
  note len = positions_lengths [OF assms(2)]
  show 1: "pos_r g \<le> seen_w g s" and 2: "pos_w g < seen_r g s + sz" using assms(2) by (simp_all add: positions_ok_def)
  have "seen (c_view s) Idx_W < length (indices s Idx_W)" "seen (p_view s) Idx_R < length (indices s Idx_R)"
    using assms(1) unfolding views_ok_def by blast+
  then have "seen (c_view s) Idx_W < length (w_pos g)" "seen (p_view s) Idx_R < length (r_pos g)" unfolding len .
  then show 3: "seen_w g s \<le> pos_w g" and 4: "seen_r g s \<le> pos_r g"
    using assms(2) by (auto simp: positions_ok_def intro: sorted_last)
  show "pos_w g < pos_r g + sz" "seen_w g s < pos_r g + sz" "seen_r g s \<le> pos_w g" using 1 2 3 4 by linarith+
qed

end
