(* ===== verification/Spsc_Writer.thy ===== *)
theory Spsc_Writer
  imports Spsc_Views
begin

text \<open>The steps of the producer keep the invariant of \<open>Spsc_Views\<close>.\<close>

section \<open>The producer\<close>

lemma weak_invD:
  assumes "weak_inv sz g s"
  shows "views_ok s" "positions_ok sz g s" "laps_ok sz g" "data_ok sz g s" "clocks_ok sz g s" "wrap_ok sz g s"
    "producer_ok sz g s (p_at s)" "consumer_ok sz g s (c_at s)"
  using assms by (simp_all add: weak_inv_def)

lemma consumer_ok_cong:
  assumes "consumer_ok sz g s c" and "seen_w g t = seen_w g s" and "c_wrapped t = c_wrapped s"
  shows "consumer_ok sz g t c"
  using assms by (cases c) (simp_all add: read_base_def)

lemma producer_ok_cong:
  assumes "producer_ok sz g s p" and "seen_r g t = seen_r g s" and "p_wrapped t = p_wrapped s"
    and "indices t Idx_I = indices s Idx_I" and "cells t = cells s"
  shows "producer_ok sz g t p"
  using assms by (cases p) (simp_all add: fill_base_def staged_def)

text \<open>The producer's view grows by what a store of \<open>_r\<close> carries.\<close>

lemma producer_view:
  assumes inv: "weak_inv sz g s" and idle: "p_at s = P_Idle"
    and load: "atomic_load Acquire Idx_R j (p_view s) (indices s) = Some (r, v)"
    and t: "t = s\<lparr>p_at := P_Loaded n w r, p_view := v\<rparr>" and w: "w = pos_w g mod sz"
  shows "weak_inv sz g t"
proof -
  note D = weak_invD [OF inv]
  note L = load_acquire [OF load] and len = positions_lengths [OF D(2)]
  from D(1) have V: "seen (msg_view (indices s Idx_R ! j)) Idx_R \<le> j"
    "seen (msg_view (indices s Idx_R ! j)) y < length (indices s y)" for y
    using L(2) unfolding views_ok_def by blast+
  have own: "Suc (seen (p_view s) Idx_W) = length (indices s Idx_W)" "Suc (seen (p_view s) Idx_I) = length (indices s Idx_I)"
    using D(1) unfolding views_ok_def by blast+
  have seen: "seen v Idx_R = j" "seen v Idx_W = seen (p_view s) Idx_W" "seen v Idx_I = seen (p_view s) Idx_I"
    using V(1) V(2) [of Idx_W] V(2) [of Idx_I] own unfolding L(4) by simp_all
  have views: "views_ok t"
  proof -
    have "seen v y < length (indices s y)" for y
      using L(2) seen own by (cases y) simp_all
    with D(1) seen show ?thesis unfolding views_ok_def t by simp
  qed
  have mono: "seen_r g s \<le> r_pos g ! j"
    using L(1,2) D(2) len by (simp add: positions_ok_def sorted_iff_nth_mono)
  have "positions_ok sz g t"
    using D(2) mono seen by (simp add: positions_ok_def t)
  moreover have "data_ok sz g t" using D(4) mono seen by (simp add: data_ok_def t)
  moreover have "clocks_ok sz g t"
  proof -
    have c: "clock (p_view s) Producer \<le> clock v Producer" "clock (msg_view (indices s Idx_R ! j)) Consumer \<le> clock v Consumer"
      unfolding L(4) by simp_all
    have "wrote_before sz g t (r_pos g ! j + sz) c" if "c < sz" for c
      using D(5) that mono before_mono(1) [of sz g t "seen_r g s + sz" c "r_pos g ! j + sz"]
        before_cong(1) [of t c s] by (simp add: clocks_ok_def t)
    moreover have "read_before sz g t (pos_w g) c" if "c < sz" for c
      using D(5) that before_cong(2) [of t c s] by (simp add: clocks_ok_def t)
    moreover have "wrote s c \<le> clock v Producer" for c
      using D(5) c(1) unfolding clocks_ok_def by (meson order_trans)
    ultimately show ?thesis using D(5) c(2) seen by (simp add: clocks_ok_def t)
  qed
  moreover have "wrap_ok sz g t" using D(6) by (simp add: wrap_ok_def t)
  moreover have "producer_ok sz g t (p_at t)"
    using D(7) idle w L(2,3) positions_values(2) [OF D(2), of j] len seen by (simp add: t)
  moreover have "consumer_ok sz g t (c_at t)" using consumer_ok_cong [OF D(8), of t] by (simp add: t)
  ultimately show ?thesis using views D(3) by (simp add: weak_inv_def)
qed

lemma pos_w_value:
  assumes "positions_ok sz g s"
  shows "msg_val (last (indices s Idx_W)) = pos_w g mod sz" "msg_val (last (indices s Idx_R)) = pos_r g mod sz"
    and "indices s Idx_W \<noteq> []" "indices s Idx_R \<noteq> []"
proof -
  from assms have m: "map msg_val (indices s Idx_W) = map (\<lambda>v. v mod sz) (w_pos g)" "w_pos g \<noteq> []"
    "map msg_val (indices s Idx_R) = map (\<lambda>v. v mod sz) (r_pos g)" "r_pos g \<noteq> []" by (simp_all add: positions_ok_def)
  then show ne: "indices s Idx_W \<noteq> []" "indices s Idx_R \<noteq> []" by auto
  show "msg_val (last (indices s Idx_W)) = pos_w g mod sz" "msg_val (last (indices s Idx_R)) = pos_r g mod sz"
    using arg_cong [where f = last, OF m(1)] arg_cong [where f = last, OF m(3)] ne m(2,4) by (simp_all add: last_map)
qed

lemma inv_p_load:
  assumes inv: "weak_inv sz g s" and "p_at s = P_Idle"
    and "atomic_load Relaxed Idx_W k (p_view s) (indices s) = Some (w, v1)"
    and "atomic_load Acquire Idx_R j v1 (indices s) = Some (r, v2)"
  shows "weak_inv sz g (s\<lparr>p_at := P_Loaded n w r, p_view := v2\<rparr>)"
proof -
  note D = weak_invD [OF inv]
  have "Suc (seen (p_view s) Idx_W) = length (indices s Idx_W)" using D(1) unfolding views_ok_def by blast
  from load_own [OF assms(3) this] have "w = pos_w g mod sz" "v1 = p_view s" using pos_w_value [OF D(2)] by simp_all
  with producer_view [OF inv assms(2)] assms(4) show ?thesis by blast
qed

text \<open>Steps that change only where a thread is.\<close>

lemma weak_inv_frame:
  assumes inv: "weak_inv sz g s"
    and same: "cells t = cells s" "indices t = indices s" "wrote t = wrote s" "read_at t = read_at s" "p_view t = p_view s"
      "c_view t = c_view s" "committed t = committed s" "released t = released s"
    and "wrap_ok sz g t" and "producer_ok sz g t (p_at t)" and "consumer_ok sz g t (c_at t)"
  shows "weak_inv sz g t"
proof -
  note D = weak_invD [OF inv]
  have before: "wrote_before sz g t hi c = wrote_before sz g s hi c" "read_before sz g t hi c = read_before sz g s hi c"
    for hi c by (rule before_cong; simp add: same)+
  have "views_ok t" using D(1) by (simp add: views_ok_def same)
  moreover have "positions_ok sz g t" using D(2) by (simp add: positions_ok_def same)
  moreover have "data_ok sz g t" using D(4) by (simp add: data_ok_def same)
  moreover have "clocks_ok sz g t" using D(5) unfolding clocks_ok_def before same .
  ultimately show ?thesis using D(3) assms(10-12) by (simp add: weak_inv_def)
qed

lemma inv_p_acquire:
  assumes inv: "weak_inv sz g s" and sz: "2 < sz" "2 * sz \<le> SIZE_T" and at: "p_at s = P_Loaded n w r"
    and acq: "write_acquire sz n (local_bip s r w 0) = (Some off, b)"
  shows "weak_inv sz g (s\<lparr>p_at := P_Fill off n [], p_wrapped := write_wrapped b\<rparr>)" (is "weak_inv sz g ?t")
proof (rule weak_inv_frame [OF inv])
  note D = weak_invD [OF inv]
  note O = positions_order [OF D(1,2)]
  from D(7) at have nw: "\<not> p_wrapped s" and i: "map msg_val (indices s Idx_I) = limits sz g"
    and w: "w = pos_w g mod sz" and r: "r = seen_r g s mod sz" by simp_all
  from sz w r have b: "r < sz" "w < sz" by simp_all
  note eq = weak_write_acquire [OF sz b, of n s 0, unfolded acq]
  note lap = laps [OF O(7,3), folded w r]
  show "wrap_ok sz g ?t" using D(6) by (simp add: wrap_ok_def)
  show "consumer_ok sz g ?t (c_at ?t)" using consumer_ok_cong [OF D(8), of ?t] by simp
  show "producer_ok sz g ?t (p_at ?t)"
  proof (cases "write_wrapped b")
    case False
    then have "off = w" "n \<le> (if w < r then r - w - 1 else min (sz - (w - r) - 1) (sz - w))"
      using eq nw by (auto simp: local_bip_def split: if_splits)
    then have "pos_w g + n < seen_r g s + sz" "w + n \<le> sz" using lap O(7) b by (auto split: if_splits)
    with False i w \<open>off = w\<close> show ?thesis by (simp add: fill_base_def staged_def)
  next
    case True
    then have "off = 0" "\<not> w < r" "n \<le> r - 1" "sz - w < n \<or> sz - (w - r) - 1 < n"
      using eq nw by (auto simp: local_bip_def split: if_splits)
    then have "r \<le> w" "n < r" by (cases r; simp)+
    have "pos_w g = seen_r g s + (w - r)" using lap O(7) \<open>r \<le> w\<close> by linarith
    moreover have "next_lap sz (pos_w g) = pos_w g + (sz - w)" using sz w by (simp add: next_lap_diff)
    ultimately have n: "next_lap sz (pos_w g) + n < seen_r g s + sz" "0 < w"
      using \<open>r \<le> w\<close> \<open>n < r\<close> b by linarith+
    with True i w \<open>off = 0\<close> sz \<open>n < r\<close> b show ?thesis by (simp add: fill_base_def staged_def)
  qed
qed simp_all

text \<open>The cells of a region that is being written.\<close>

lemma fill_cell:
  assumes "staged sz g s base xs" and "base + n < seen_r g s + sz" and "base mod sz + n \<le> sz" and "length xs < n"
    and "2 < sz"
  shows "(base + length xs) mod sz = base mod sz + length xs" "pos_w g \<le> base + length xs"
    "base + length xs < seen_r g s + sz"
proof -
  show "(base + length xs) mod sz = base mod sz + length xs" by (rule region_lap [OF assms(3,4)])
  have "pos_w g \<le> base" using assms(1,5) next_lap_gt [of sz "pos_w g"] by (auto simp: staged_def)
  then show "pos_w g \<le> base + length xs" by simp
  show "base + length xs < seen_r g s + sz" using assms(2,4) by linarith
qed

lemma inv_p_write:
  assumes inv: "weak_inv sz g s" and sz: "2 < sz" and at: "p_at s = P_Fill off n xs" and len: "length xs < n"
  shows "weak_inv sz g (s\<lparr>p_at := P_Fill off n (xs @ [x]), cells := (cells s)(off + length xs := x),
       p_view := tick Producer (p_view s),
       wrote := (wrote s)(off + length xs := clock (p_view s) Producer + 1)\<rparr>)" (is "weak_inv sz g ?t")
proof -
  note D = weak_invD [OF inv]
  note O = positions_order [OF D(1,2)]
  let ?base = "fill_base sz g s"
  from D(7) at have P: "map msg_val (indices s Idx_I) = limits sz g" "off = ?base mod sz" "staged sz g s ?base xs"
    "?base + n < seen_r g s + sz" "off + n \<le> sz" by simp_all
  note C = fill_cell [OF P(3,4) P(5) [unfolded P(2)] len sz, folded P(2)]
  have "views_ok ?t" using D(1) by (simp add: views_ok_def)
  moreover have "positions_ok sz g ?t" using D(2) by (simp add: positions_ok_def)
  moreover have "data_ok sz g ?t"
  proof -
    have "a mod sz \<noteq> off + length xs" if "seen_r g s \<le> a" "a < pos_w g" for a
    proof
      assume "a mod sz = off + length xs"
      with C(1) have "a mod sz = (?base + length xs) mod sz" by simp
      moreover have "a < ?base + length xs" using that(2) C(2) by simp
      ultimately have "a < seen_r g s" using C(3) by (rule same_cell_before)
      with that(1) show False by simp
    qed
    with D(4) show ?thesis by (simp add: data_ok_def)
  qed
  moreover have "clocks_ok sz g ?t"
  proof -
    have "wrote_before sz g ?t (seen_r g s + sz) c" if "c < sz" for c
    proof (cases "c = off + length xs")
      case True
      have "\<not> ?base + length xs < w_pos g ! k" if "k < length (w_pos g)" for k
        using C(2) sorted_last [OF _ that] D(2) by (fastforce simp: positions_ok_def)
      then show ?thesis unfolding wrote_before_def
        by (intro disjI2 exI [of _ "?base + length xs"]) (use C True in simp)
    next
      case False
      with D(5) that before_cong(1) [of ?t c s] show ?thesis by (simp add: clocks_ok_def)
    qed
    moreover have "read_before sz g ?t (pos_w g) c" if "c < sz" for c
      using D(5) that before_cong(2) [of ?t c s] by (simp add: clocks_ok_def)
    ultimately show ?thesis using D(5) by (auto simp: clocks_ok_def le_Suc_eq)
  qed
  moreover have "wrap_ok sz g ?t" using D(6) by (simp add: wrap_ok_def)
  moreover have "producer_ok sz g ?t (p_at ?t)"
  proof -
    have b: "fill_base sz g (s\<lparr>p_at := a, cells := c, p_view := v, wrote := u\<rparr>) = ?base" for a c v u
      by (simp add: fill_base_def)
    have "staged sz g ?t ?base (xs @ [x])"
      using P len unfolding staged_def by (auto simp: nth_append less_Suc_eq)
    with P len show ?thesis by (simp add: b)
  qed
  moreover have "consumer_ok sz g ?t (c_at ?t)" using consumer_ok_cong [OF D(8), of ?t] by simp
  ultimately show ?thesis using D(3) by (simp add: weak_inv_def)
qed

lemma inv_p_no_space:
  assumes inv: "weak_inv sz g s" and at: "p_at s = P_Loaded n w r"
  shows "weak_inv sz g (s\<lparr>p_at := P_Idle\<rparr>)"
proof (rule weak_inv_frame [OF inv])
  note D = weak_invD [OF inv]
  show "wrap_ok sz g (s\<lparr>p_at := P_Idle\<rparr>)" using D(6) by (simp add: wrap_ok_def)
  show "producer_ok sz g (s\<lparr>p_at := P_Idle\<rparr>) (p_at (s\<lparr>p_at := P_Idle\<rparr>))" using D(7) at by simp
  show "consumer_ok sz g (s\<lparr>p_at := P_Idle\<rparr>) (c_at (s\<lparr>p_at := P_Idle\<rparr>))"
    using consumer_ok_cong [OF D(8), of "s\<lparr>p_at := P_Idle\<rparr>"] by simp
qed simp_all

lemma limit_le: "(\<And>l. e l \<le> sz) \<Longrightarrow> 0 < sz \<Longrightarrow> limit_at sz e v \<le> sz"
  by (simp add: limit_at_def less_imp_le)

lemma limit_step:
  assumes "0 < sz" and "v mod sz + n \<le> sz" and "\<And>l. e l \<le> sz" and "e (v div sz) = sz"
  shows "limit_at sz e (v + n) = max (limit_at sz e v) (v mod sz + n)"
proof (cases "v mod sz + n = sz")
  case True
  with lap_step [OF assms(1,2)] assms(4) limit_le [of e sz v, OF assms(3,1)] show ?thesis by (simp add: limit_at_def)
next
  case False
  with lap_step [OF assms(1,2)] show ?thesis by (simp add: limit_at_def max_def)
qed

lemma last_limits:
  assumes "map msg_val (indices s Idx_I) = limits sz g" and "w_pos g \<noteq> []"
  shows "msg_val (last (indices s Idx_I)) = limit_at sz (lap_end g) (pos_w g)"
proof -
  from assms have "indices s Idx_I \<noteq> []" by (auto simp: limits_def)
  with arg_cong [where f = last, OF assms(1)] assms(2) show ?thesis by (simp add: limits_def last_map)
qed

lemma release_ok:
  assumes inv: "weak_inv sz g s" and sz: "2 < sz" "2 * sz \<le> SIZE_T" and at: "p_at s = P_Fill off n xs"
    and w: "w = pos_w g mod sz" and i: "\<not> p_wrapped s \<Longrightarrow> i = limit_at sz (lap_end g) (pos_w g)"
  shows "\<exists>b. write_release sz (length xs) (local_bip s 0 w i) = Some b \<and> \<not> write_wrapped b \<and>
    bip_w b = (fill_base sz g s + length xs) mod sz \<and>
    bip_i b = limit_at sz (laps_after sz g (fill_base sz g s)) (fill_base sz g s + length xs)"
proof -
  note D = weak_invD [OF inv]
  note O = positions_order [OF D(1,2)]
  let ?base = "fill_base sz g s" and ?m = "length xs"
  from D(7) at have P: "off = ?base mod sz" "staged sz g s ?base xs" by simp_all
  then have m: "?base mod sz + ?m \<le> sz" "?base + ?m < seen_r g s + sz" by (simp_all add: staged_def)
  have ws: "w < sz" and msz: "?m \<le> sz" using w sz m by simp_all
  note rel = weak_write_release [OF sz(2) msz ws, of s 0 i]
  note step = lap_step [OF _ m(1)]
  show ?thesis
  proof (cases "p_wrapped s")
    case False
    then have b: "?base = pos_w g" by (simp add: fill_base_def)
    have "limit_at sz (lap_end g) (pos_w g + ?m) = max (limit_at sz (lap_end g) (pos_w g)) (w + ?m)"
      using limit_step [of sz "pos_w g" ?m "lap_end g"] m(1) D(3) sz by (simp add: b w laps_ok_def)
    with False rel i [OF False] m(1) step sz show ?thesis by (simp add: b w laps_after_def Let_def)
  next
    case True
    then have b: "?base = next_lap sz (pos_w g)" by (simp add: fill_base_def)
    have ne: "next_lap sz (pos_w g) \<noteq> pos_w g" using sz next_lap_gt [of sz "pos_w g"] by simp
    have "next_lap sz (pos_w g) \<ge> seen_r g s" using O(7) sz next_lap_gt [of sz "pos_w g"] by simp
    then have lt: "?m < sz" using m(2) b by simp
    have "limit_at sz (laps_after sz g ?base) (?base + ?m) = max w ?m"
      using step lt sz ne by (simp add: b limit_at_def laps_after_def w)
    with True rel step lt sz show ?thesis by (simp add: b Let_def)
  qed
qed

lemma release_loads:
  assumes inv: "weak_inv sz g s" and at: "p_at s = P_Fill off n xs"
    and "atomic_load Relaxed Idx_W k (p_view s) (indices s) = Some (w, v1)"
    and "if p_wrapped s then (i, v2) = (0, v1) else atomic_load Relaxed Idx_I m v1 (indices s) = Some (i, v2)"
  shows "w = pos_w g mod sz" "v2 = p_view s" "\<not> p_wrapped s \<Longrightarrow> i = limit_at sz (lap_end g) (pos_w g)"
proof -
  note D = weak_invD [OF inv]
  have own: "Suc (seen (p_view s) Idx_W) = length (indices s Idx_W)" "Suc (seen (p_view s) Idx_I) = length (indices s Idx_I)"
    using D(1) unfolding views_ok_def by blast+
  from load_own [OF assms(3) own(1)] show w: "w = pos_w g mod sz" using pos_w_value [OF D(2)] by simp
  from load_own [OF assms(3) own(1)] have v1: "v1 = p_view s" by simp
  show "v2 = p_view s"
    using assms(4) v1 load_own(2) [of Idx_I m "p_view s" "indices s" i v2] own(2) by (auto split: if_splits)
  have "w_pos g \<noteq> []" "map msg_val (indices s Idx_I) = limits sz g" using D(2,7) at by (simp_all add: positions_ok_def)
  then show "\<not> p_wrapped s \<Longrightarrow> i = limit_at sz (lap_end g) (pos_w g)"
    using assms(4) v1 load_own(1) [of Idx_I m "p_view s" "indices s" i v2] own(2) last_limits by auto
qed

lemma inv_p_release:
  assumes inv: "weak_inv sz g s" and sz: "2 < sz" "2 * sz \<le> SIZE_T" and at: "p_at s = P_Fill off n xs"
    and loads: "atomic_load Relaxed Idx_W k (p_view s) (indices s) = Some (w, v1)"
      "if p_wrapped s then (i, v2) = (0, v1) else atomic_load Relaxed Idx_I m v1 (indices s) = Some (i, v2)"
    and rel: "write_release sz (length xs) (local_bip s 0 w i) = Some b"
  shows "weak_inv sz g (s\<lparr>p_at := P_StoreI (bip_i b) (bip_w b) xs, p_view := v2, p_wrapped := write_wrapped b\<rparr>)"
    (is "weak_inv sz g ?t")
proof (rule weak_inv_frame [OF inv])
  note D = weak_invD [OF inv]
  note L = release_loads [OF inv at loads]
  from release_ok [OF inv sz at L(1,3)] rel have b: "\<not> write_wrapped b"
    "bip_w b = (fill_base sz g s + length xs) mod sz"
    "bip_i b = limit_at sz (laps_after sz g (fill_base sz g s)) (fill_base sz g s + length xs)" by auto
  show "p_view ?t = p_view s" using L(2) by simp
  show "wrap_ok sz g ?t" using D(6) by (simp add: wrap_ok_def)
  show "consumer_ok sz g ?t (c_at ?t)" using consumer_ok_cong [OF D(8), of ?t] by simp
  have "staged sz g ?t (fill_base sz g s) xs" "map msg_val (indices s Idx_I) = limits sz g"
    using D(7) at L(2) by (simp_all add: staged_def)
  with b show "producer_ok sz g ?t (p_at ?t)" by auto
qed simp_all

text \<open>The store of \<open>_i\<close> is seen by nobody until \<open>_w\<close> is stored or the consumer happens to load it.\<close>

lemma inv_p_store_i:
  assumes inv: "weak_inv sz g s" and at: "p_at s = P_StoreI i w xs"
    and st: "atomic_store Relaxed Idx_I i (p_view s) (indices s) = (v1, mem)"
  shows "weak_inv sz g (s\<lparr>p_at := P_StoreW w xs, p_view := v1, indices := mem\<rparr>)" (is "weak_inv sz g ?t")
proof -
  note D = weak_invD [OF inv] and S = store_facts [OF st]
  have mem: "mem Idx_W = indices s Idx_W" "mem Idx_R = indices s Idx_R"
    "mem Idx_I = indices s Idx_I @ [\<lparr>msg_val = i, msg_view = view_bottom\<rparr>]" by (simp_all add: S(1))
  have ne: "0 < length (indices s y)" for y using D(1) unfolding views_ok_def by (metis gr_implies_not0 neq0_conv)
  have longer: "length (indices s y) \<le> length (mem y)" for y by (simp add: S(1))
  have old: "seen (msg_view (indices s x ! k)) x \<le> k \<and> (\<forall>y. seen (msg_view (indices s x ! k)) y < length (mem y))"
    if "k < length (indices s x)" for x k
    using D(1) that longer unfolding views_ok_def by (meson less_le_trans)
  have new: "seen (msg_view \<lparr>msg_val = i, msg_view = view_bottom\<rparr>) y < length (mem y)" for y
    using ne [of y] longer [of y] by auto
  have "views_ok ?t"
  proof -
    have "seen (msg_view (mem x ! k)) x \<le> k \<and> (\<forall>y. seen (msg_view (mem x ! k)) y < length (mem y))"
      if "k < length (mem x)" for x k
      using that old [of k x] new ne by (cases "x = Idx_I") (auto simp: S(1) nth_append less_Suc_eq)
    moreover have "seen v1 y < length (mem y)" "seen (c_view s) y < length (mem y)" for y
      using D(1) longer [of y] unfolding views_ok_def S(3) by (auto simp: mem(3) intro: less_le_trans)
    ultimately show ?thesis
      using D(1) unfolding views_ok_def by (simp add: mem S(3))
  qed
  moreover have "positions_ok sz g ?t" using D(2) by (simp add: positions_ok_def mem S(3))
  moreover have "data_ok sz g ?t" using D(4) by (simp add: data_ok_def S(3))
  moreover have "clocks_ok sz g ?t"
  proof -
    have "wrote_before sz g ?t hi c = wrote_before sz g s hi c" "read_before sz g ?t hi c = read_before sz g s hi c"
      for hi c by (rule before_cong; simp add: mem)+
    with D(5) show ?thesis by (simp add: clocks_ok_def mem S(2,3))
  qed
  moreover have "wrap_ok sz g ?t" using D(6) by (simp add: wrap_ok_def)
  moreover have "producer_ok sz g ?t (p_at ?t)"
    using D(7) at by (auto simp: mem S(3) staged_def)
  moreover have "consumer_ok sz g ?t (c_at ?t)" using consumer_ok_cong [OF D(8), of ?t] by simp
  ultimately show ?thesis using D(3) by (simp add: weak_inv_def)
qed

text \<open>After the store of \<open>_w\<close> the staged items belong to the queue.\<close>

definition after_store_w :: "nat \<Rightarrow> 'a ghost \<Rightarrow> nat \<Rightarrow> 'a list \<Rightarrow> 'a ghost" where
  "after_store_w sz g base xs =
     g\<lparr>w_pos := w_pos g @ [base + length xs],
       item_at := (\<lambda>a. if base \<le> a \<and> a < base + length xs then xs ! (a - base) else item_at g a),
       lap_end := laps_after sz g base\<rparr>"

lemma after_store_w_simps [simp]:
  "w_pos (after_store_w sz g base xs) = w_pos g @ [base + length xs]"
  "r_pos (after_store_w sz g base xs) = r_pos g"
  "lap_end (after_store_w sz g base xs) = laps_after sz g base"
  "item_at (after_store_w sz g base xs) = (\<lambda>a. if base \<le> a \<and> a < base + length xs then xs ! (a - base) else item_at g a)"
  by (simp_all add: after_store_w_def)

lemma staged_base:
  assumes "staged sz g s base xs" and "0 < sz"
  shows "pos_w g \<le> base" "base = pos_w g \<or> base div sz = Suc (pos_w g div sz) \<and> base mod sz = 0 \<and> pos_w g < base"
  using assms next_lap_gt [of sz "pos_w g"] by (auto simp: staged_def)

text \<open>Which positions carry an item does not change before the end of the queue, and between it and the base none does.\<close>

lemma laps_after_below:
  assumes "laps_ok sz g" and "a < pos_w g" and "0 < sz"
  shows "a mod sz < laps_after sz g base (a div sz) \<longleftrightarrow> a mod sz < lap_end g (a div sz)"
proof (cases "base \<noteq> pos_w g \<and> a div sz = pos_w g div sz")
  case True
  have "a mod sz < pos_w g mod sz"
  proof -
    have "a = a div sz * sz + a mod sz" "pos_w g = pos_w g div sz * sz + pos_w g mod sz" by simp_all
    then have "a = pos_w g div sz * sz + a mod sz" using True by metis
    with assms(2) \<open>pos_w g = pos_w g div sz * sz + pos_w g mod sz\<close> show ?thesis by linarith
  qed
  moreover have "lap_end g (a div sz) = sz" using assms(1) True by (simp add: laps_ok_def)
  ultimately show ?thesis using True assms(3) by (simp add: laps_after_def)
next
  case False
  then show ?thesis by (auto simp: laps_after_def)
qed

lemma laps_after_skip:
  assumes "staged sz g s base xs" and "pos_w g \<le> a" and "a < base" and "0 < sz"
  shows "\<not> a mod sz < laps_after sz g base (a div sz)"
proof -
  from staged_base [OF assms(1,4)] assms(2,3) have b: "base div sz = Suc (pos_w g div sz)" "base mod sz = 0"
    "base \<noteq> pos_w g" by auto
  have base: "base = Suc (pos_w g div sz) * sz" using b(1,2) by (metis div_mult_mod_eq add.right_neutral)
  have "a div sz < Suc (pos_w g div sz)" using assms(3,4) unfolding base by (simp add: div_less_iff_less_mult del: mult_Suc)
  moreover have "pos_w g div sz \<le> a div sz" using assms(2) by (rule div_le_mono)
  ultimately have d: "a div sz = pos_w g div sz" by simp
  have "a = a div sz * sz + a mod sz" "pos_w g = pos_w g div sz * sz + pos_w g mod sz" by simp_all
  with d assms(2) have "pos_w g mod sz \<le> a mod sz" by (metis add_le_cancel_left)
  with d b(3) show ?thesis by (simp add: laps_after_def)
qed

lemma laps_after_base:
  assumes "laps_ok sz g" and "staged sz g s base xs" and "t < length xs" and "0 < sz"
  shows "(base + t) mod sz < laps_after sz g base ((base + t) div sz)"
proof -
  have "base mod sz + length xs \<le> sz" using assms(2) by (simp add: staged_def)
  note r = region_lap [OF this assms(3)]
  have "laps_after sz g base (base div sz) = sz"
    using staged_base(2) [OF assms(2,4)] assms(1) by (auto simp: laps_after_def laps_ok_def)
  moreover have "(base + t) mod sz < sz" using assms(4) by simp
  ultimately show ?thesis unfolding r(2) by simp
qed

lemma items_append:
  "p \<le> q \<Longrightarrow> q \<le> r \<Longrightarrow> items sz e f p r = items sz e f p q @ items sz e f q r"
proof -
  assume "p \<le> q" "q \<le> r"
  then have "[p..<r] = [p..<q] @ [q..<r]" using upt_add_eq_append [of p q "r - q"] by simp
  then show ?thesis by (simp add: items_def)
qed

lemma items_cong:
  assumes "\<And>a. p \<le> a \<Longrightarrow> a < q \<Longrightarrow> (a mod sz < e (a div sz)) = (a mod sz < e' (a div sz))"
    and "\<And>a. p \<le> a \<Longrightarrow> a < q \<Longrightarrow> a mod sz < e (a div sz) \<Longrightarrow> f a = f' a"
  shows "items sz e f p q = items sz e' f' p q"
proof -
  have "filter (\<lambda>a. a mod sz < e (a div sz)) [p..<q] = filter (\<lambda>a. a mod sz < e' (a div sz)) [p..<q]"
    by (rule filter_cong) (use assms(1) in auto)
  moreover have "map f (filter (\<lambda>a. a mod sz < e (a div sz)) [p..<q]) = map f' (filter (\<lambda>a. a mod sz < e (a div sz)) [p..<q])"
    by (rule map_cong) (use assms(2) in auto)
  ultimately show ?thesis by (simp add: items_def)
qed

lemma items_none: "(\<And>a. p \<le> a \<Longrightarrow> a < q \<Longrightarrow> \<not> a mod sz < e (a div sz)) \<Longrightarrow> items sz e f p q = []"
  by (simp add: items_def filter_empty_conv)

lemma items_all:
  assumes "\<And>t. t < length xs \<Longrightarrow> (p + t) mod sz < e ((p + t) div sz) \<and> f (p + t) = xs ! t"
  shows "items sz e f p (p + length xs) = xs"
proof -
  have "filter (\<lambda>a. a mod sz < e (a div sz)) [p..<p + length xs] = [p..<p + length xs]"
    unfolding filter_id_conv using assms by (metis atLeastLessThan_iff le_add_diff_inverse less_diff_conv2 set_upt add.commute)
  moreover have "map f [p..<p + length xs] = xs" by (rule nth_equalityI) (use assms in simp_all)
  ultimately show ?thesis by (simp add: items_def)
qed

lemma after_store_w_items:
  assumes "laps_ok sz g" and st: "staged sz g s base xs" and "0 < sz"
  shows "items sz (laps_after sz g base) (item_at (after_store_w sz g base xs)) 0 (base + length xs) =
      items sz (lap_end g) (item_at g) 0 (pos_w g) @ xs"
    and "p \<le> pos_w g \<Longrightarrow> items sz (laps_after sz g base) (item_at (after_store_w sz g base xs)) 0 p = items sz (lap_end g) (item_at g) 0 p"
proof -
  let ?e = "laps_after sz g base" and ?f = "item_at (after_store_w sz g base xs)"
  note b = staged_base(1) [OF st assms(3)]
  show old: "items sz ?e ?f 0 p = items sz (lap_end g) (item_at g) 0 p" if "p \<le> pos_w g" for p
    by (rule items_cong) (use that b laps_after_below [OF assms(1) _ assms(3)] in auto)
  have "items sz ?e ?f (pos_w g) base = []" by (rule items_none) (rule laps_after_skip [OF st _ _ assms(3)])
  moreover have "items sz ?e ?f base (base + length xs) = xs"
    by (rule items_all) (use laps_after_base [OF assms(1) st _ assms(3)] in simp)
  ultimately show "items sz ?e ?f 0 (base + length xs) = items sz (lap_end g) (item_at g) 0 (pos_w g) @ xs"
    using items_append [of 0 "pos_w g" "base + length xs" sz ?e ?f] items_append [of "pos_w g" base "base + length xs" sz ?e ?f] b
      old [of "pos_w g"] by simp
qed

lemma limit_before:
  assumes "laps_ok sz g" and "v \<in> set (w_pos g)" and "sorted (w_pos g)"
  shows "limit_at sz (laps_after sz g base) v = limit_at sz (lap_end g) v"
proof (cases "base \<noteq> pos_w g \<and> v div sz \<noteq> 0 \<and> v div sz - 1 = pos_w g div sz")
  case True
  have "v \<le> pos_w g" using assms(2,3) by (metis in_set_conv_nth sorted_last)
  then have "v div sz \<le> pos_w g div sz" by (rule div_le_mono)
  with True show ?thesis by linarith
next
  case False
  then show ?thesis by (auto simp: limit_at_def laps_after_def)
qed

lemma laps_after_ok:
  assumes laps: "laps_ok sz g" and st: "staged sz g s base xs" and sz: "0 < sz" and "sorted (w_pos g)" and "sorted (r_pos g)"
    and "pos_r g \<le> pos_w g"
  shows "laps_ok sz (after_store_w sz g base xs)"
proof -
  note b = staged_base [OF st sz]
  have le: "laps_after sz g base l \<le> sz" for l
    using laps sz by (auto simp: laps_after_def laps_ok_def less_imp_le)
  have full: "laps_after sz g base l = sz" if "(base + length xs) div sz \<le> l" for l
  proof -
    have "base div sz \<le> l" using that div_le_mono [of base "base + length xs" sz] by simp
    moreover have "pos_w g div sz \<le> base div sz" using b(1) by (rule div_le_mono)
    ultimately show ?thesis using laps b(2) by (auto simp: laps_after_def laps_ok_def)
  qed
  have "v mod sz \<le> laps_after sz g base (v div sz)" if "v \<in> set (w_pos g) \<union> set (r_pos g)" for v
  proof (cases "base \<noteq> pos_w g \<and> v div sz = pos_w g div sz")
    case True
    have "v \<le> pos_w g"
      using that assms(4-6) sorted_last [of "w_pos g"] sorted_last [of "r_pos g"] by (fastforce simp: in_set_conv_nth)
    then have "v mod sz \<le> pos_w g mod sz"
      using True div_mult_mod_eq [of v sz] div_mult_mod_eq [of "pos_w g" sz] by (metis add_le_cancel_left)
    with True show ?thesis by (simp add: laps_after_def)
  next
    case False
    with that laps show ?thesis by (auto simp: laps_after_def laps_ok_def)
  qed
  moreover have "(base + length xs) mod sz \<le> laps_after sz g base ((base + length xs) div sz)"
    using full [OF order_refl] sz by (simp add: less_imp_le)
  ultimately show ?thesis using le full by (auto simp: laps_ok_def)
qed

text \<open>A store that carries the view of its thread keeps the views in order.\<close>

lemma store_release_views:
  assumes views: "views_ok s" and st: "atomic_store Release x n v (indices s) = (v1, mem)"
    and v: "\<And>y. seen v y < length (indices s y)"
  shows "k < length (mem y) \<Longrightarrow> seen (msg_view (mem y ! k)) y \<le> k \<and> (\<forall>z. seen (msg_view (mem y ! k)) z < length (mem z))"
    and "seen v1 y < length (mem y)" and "length (indices s y) \<le> length (mem y)"
proof -
  note S = store_facts [OF st]
  have ne: "0 < length (indices s y)" for y using views unfolding views_ok_def by (metis gr_implies_not0 neq0_conv)
  show longer: "length (indices s y) \<le> length (mem y)" for y by (simp add: S(1))
  have len: "length (mem y) = (if y = x then Suc (length (indices s x)) else length (indices s y))" for y by (simp add: S(1))
  show v1: "seen v1 y < length (mem y)" for y
    using v [of y] by (simp add: S(3) len)
  have old: "seen (msg_view (indices s y ! k)) y \<le> k \<and> (\<forall>z. seen (msg_view (indices s y ! k)) z < length (mem z))"
    if "k < length (indices s y)" for y k
    using views that longer unfolding views_ok_def by (meson less_le_trans)
  show "seen (msg_view (mem y ! k)) y \<le> k \<and> (\<forall>z. seen (msg_view (mem y ! k)) z < length (mem z))" if k: "k < length (mem y)"
  proof (cases "k < length (indices s y)")
    case True
    then have "mem y ! k = indices s y ! k" by (cases "y = x") (simp_all add: S(1) nth_append)
    with old [OF True] show ?thesis by simp
  next
    case False
    with k len have "y = x" "k = length (indices s x)" by (auto split: if_splits)
    then have "msg_view (mem y ! k) = v1" by (simp add: S(1))
    moreover have "seen v1 y \<le> k" using \<open>y = x\<close> \<open>k = _\<close> by (simp add: S(3))
    ultimately show ?thesis using v1 by simp
  qed
qed

lemma inv_p_store_w:
  assumes inv: "weak_inv sz g s" and sz: "2 < sz" and at: "p_at s = P_StoreW w xs"
    and st: "atomic_store Release Idx_W w (p_view s) (indices s) = (v1, mem)"
    and nw: "\<not> p_wrapped s" and sg: "staged sz g s base xs" and w: "w = (base + length xs) mod sz"
    and i: "map msg_val (indices s Idx_I) = limits sz g @ [limit_at sz (laps_after sz g base) (base + length xs)]"
  shows "weak_inv sz (after_store_w sz g base xs)
    (s\<lparr>p_at := P_Idle, p_view := v1, indices := mem, committed := committed s @ xs\<rparr>)" (is "weak_inv sz _ ?t")
proof -
  note D = weak_invD [OF inv] and S = store_facts [OF st]
  note O = positions_order [OF D(1,2)] and len = positions_lengths [OF D(2)]
  have sz0: "0 < sz" using sz by simp
  let ?g = "after_store_w sz g base xs"
  note b = staged_base [OF sg sz0]
  have mem: "mem Idx_I = indices s Idx_I" "mem Idx_R = indices s Idx_R"
    "mem Idx_W = indices s Idx_W @ [\<lparr>msg_val = w, msg_view = v1\<rparr>]" by (simp_all add: S(1))
  have own: "Suc (seen (p_view s) Idx_I) = length (indices s Idx_I)" and pv: "seen (p_view s) y < length (indices s y)"
    and cv: "seen (c_view s) y < length (indices s y)" for y using D(1) unfolding views_ok_def by blast+
  have ilen: "length (indices s Idx_I) = Suc (length (w_pos g))"
    using arg_cong [where f = length, OF i] by (simp add: limits_def)
  note V = store_release_views [OF D(1) st pv]
  have k0: "seen (c_view s) Idx_W < length (w_pos g)" using cv [of Idx_W] len by simp
  then have k0_nth: "(w_pos g @ [base + length xs]) ! seen (c_view s) Idx_W = seen_w g s"
    "mem Idx_W ! seen (c_view s) Idx_W = indices s Idx_W ! seen (c_view s) Idx_W"
    using len by (simp_all add: mem nth_append)
  have wpos: "w_pos g \<noteq> []" "sorted (w_pos g)" "sorted (r_pos g)" using D(2) by (simp_all add: positions_ok_def)
  have "views_ok ?t"
  proof -
    have "k \<le> seen (msg_view (mem Idx_W ! k)) Idx_I" if "k < length (mem Idx_W)" for k
    proof (cases "k < length (indices s Idx_W)")
      case True
      with D(1) show ?thesis unfolding views_ok_def by (simp add: mem nth_append)
    next
      case False
      with that have "k = length (w_pos g)" by (simp add: mem len)
      then show ?thesis using own ilen by (simp add: mem nth_append len S(3))
    qed
    moreover have "seen (c_view s) y < length (mem y)" for y using cv V(3) by (rule less_le_trans)
    ultimately show ?thesis
      using D(1) V(1,2) unfolding views_ok_def by (simp add: mem S(3))
  qed
  moreover have "positions_ok sz ?g ?t"
  proof -
    have "\<forall>v\<in>set (w_pos g). v \<le> base + length xs"
      using sorted_last [OF wpos(2)] b(1) by (metis in_set_conv_nth order_trans trans_le_add1)
    with wpos have "sorted (w_pos ?g)" by (simp add: sorted_append)
    with D(2) sg show ?thesis by (simp add: positions_ok_def mem w S(3) k0_nth staged_def)
  qed
  moreover have "laps_ok sz ?g"
    by (rule laps_after_ok [OF D(3) sg sz0 wpos(2,3)]) (use O in linarith)
  moreover have "data_ok sz ?g ?t"
  proof -
    have "cells s (a mod sz) = item_at ?g a"
      if "seen_r g s \<le> a" "a < base + length xs" "a mod sz < laps_after sz g base (a div sz)" for a
    proof -
      consider "a < pos_w g" | "pos_w g \<le> a" "a < base" | "base \<le> a" by linarith
      then show ?thesis
      proof cases
        case 1
        with that D(4) laps_after_below [OF D(3) 1 sz0] b(1) show ?thesis by (simp add: data_ok_def)
      next
        case 2
        with that laps_after_skip [OF sg 2 sz0] show ?thesis by simp
      next
        case 3
        then have t: "a = base + (a - base)" "a - base < length xs" using that(2) by simp_all
        have "base mod sz + length xs \<le> sz" using sg by (simp add: staged_def)
        from region_lap(1) [OF this t(2)] t(1) have "a mod sz = base mod sz + (a - base)" by simp
        moreover have "cells s (base mod sz + (a - base)) = xs ! (a - base)" using sg t(2) unfolding staged_def by blast
        ultimately show ?thesis using 3 that(2) by simp
      qed
    qed
    moreover have "pos_r g \<le> pos_w g" using O by linarith
    ultimately show ?thesis
      using D(4) after_store_w_items [OF D(3) sg sz0] by (simp add: data_ok_def S(3))
  qed
  moreover have "clocks_ok sz ?g ?t"
  proof -
    have wclk: "wrote s c \<le> clock v1 Producer" for c using D(5) by (simp add: clocks_ok_def S(2))
    have "wrote_before sz ?g ?t (seen_r g s + sz) c" if "c < sz" for c
    proof -
      have "wrote_before sz g s (seen_r g s + sz) c" using D(5) that by (simp add: clocks_ok_def)
      then show ?thesis
        using wclk unfolding wrote_before_def by (auto simp: mem nth_append len less_Suc_eq)
    qed
    moreover have "read_before sz ?g ?t (pos_w ?g) c" if "c < sz" for c
    proof -
      have "read_before sz g s (pos_w g) c" using D(5) that by (simp add: clocks_ok_def)
      then have "read_before sz g s (base + length xs) c" by (rule before_mono(2)) (use b(1) in simp)
      then show ?thesis by (simp add: read_before_def mem)
    qed
    ultimately show ?thesis using D(5) k0_nth(2) by (simp add: clocks_ok_def k0_nth(1) mem(2) S(2,3))
  qed
  moreover have "wrap_ok sz ?g ?t"
  proof -
    have "laps_after sz g base (pos_r g div sz) = lap_end g (pos_r g div sz)" if "seen_w g s div sz = Suc (pos_r g div sz)"
      using that div_le_mono [OF O(2), of sz] by (simp add: laps_after_def)
    with D(6) show ?thesis by (simp add: wrap_ok_def k0_nth)
  qed
  moreover have "producer_ok sz ?g ?t (p_at ?t)"
    using nw i limit_before [OF D(3) _ wpos(2), of _ base] by (simp add: limits_def mem)
  moreover have "consumer_ok sz ?g ?t (c_at ?t)"
  proof (cases "c_at s")
    case (C_Read off m ys)
    let ?b = "read_base sz g s"
    from D(8) C_Read have C: "off = ?b mod sz" "?b + m \<le> seen_w g s" "off + m \<le> lap_end g (?b div sz)" "length ys \<le> m"
      "ys = map (item_at g) [?b..<?b + length ys]" by simp_all
    have e: "?b + m \<le> pos_w g" using C(2) O(2) by simp
    have "off + m \<le> laps_after sz g base (?b div sz)"
    proof (cases "base \<noteq> pos_w g \<and> ?b div sz = pos_w g div sz")
      case True
      have "off + m \<le> pos_w g mod sz"
        using e True C(1) div_mult_mod_eq [of ?b sz] div_mult_mod_eq [of "pos_w g" sz]
        by (metis add.assoc add_le_cancel_left)
      with True show ?thesis by (simp add: laps_after_def)
    next
      case False
      with C(3) show ?thesis by (auto simp: laps_after_def)
    qed
    moreover have "map (item_at ?g) [?b..<?b + length ys] = map (item_at g) [?b..<?b + length ys]"
      using e C(4) b(1) by auto
    moreover have "read_base sz ?g ?t = ?b" by (simp add: read_base_def)
    ultimately show ?thesis using C C_Read by (simp add: k0_nth del: map_eq_conv)
  qed (use D(8) in \<open>simp_all add: k0_nth\<close>)
  ultimately show "weak_inv sz ?g ?t" by (simp add: weak_inv_def)
qed

end
