(* ===== verification/Spsc_Reader.thy ===== *)
theory Spsc_Reader
  imports Spsc_Writer
begin

text \<open>
  The steps of the consumer keep the invariant of \<open>Spsc_Views\<close>, so every run does.  The buffer is a queue and
  free of data races under the memory orders of the code, not only in sequentially consistent
  interleavings.
\<close>

section \<open>The consumer\<close>

lemma c_view_facts:
  assumes "views_ok s"
  shows "seen (c_view s) y < length (indices s y)" "Suc (seen (c_view s) Idx_R) = length (indices s Idx_R)"
    "seen (c_view s) Idx_W \<le> seen (c_view s) Idx_I"
  using assms unfolding views_ok_def by blast+

lemma seen_w_in:
  assumes "views_ok s" and "positions_ok sz g s"
  shows "seen_w g s \<in> set (w_pos g)"
  using c_view_facts(1) [OF assms(1), of Idx_W] positions_lengths(1) [OF assms(2)] by simp

lemma inv_c_load:
  assumes inv: "weak_inv sz g s" and idle: "c_at s = C_Idle"
    and own: "atomic_load Relaxed Idx_R j (c_view s) (indices s) = Some (r, v1)"
    and load: "atomic_load Acquire Idx_W k v1 (indices s) = Some (w, v)"
  shows "weak_inv sz g (s\<lparr>c_at := C_Loaded r w, c_view := v\<rparr>)" (is "weak_inv sz g ?t")
proof -
  note D = weak_invD [OF inv]
  note O = positions_order [OF D(1,2)] and CV = c_view_facts [OF D(1)]
  from load_own [OF own CV(2)] have r: "r = pos_r g mod sz" and v1: "v1 = c_view s"
    using pos_w_value [OF D(2)] by simp_all
  note L = load_acquire [OF load [unfolded v1]] and len = positions_lengths [OF D(2)]
  from D(1) have V: "seen (msg_view (indices s Idx_W ! k)) Idx_W \<le> k" "k \<le> seen (msg_view (indices s Idx_W ! k)) Idx_I"
    "seen (msg_view (indices s Idx_W ! k)) y < length (indices s y)" for y
    using L(2) unfolding views_ok_def by blast+
  have seen: "seen v Idx_W = k" "seen v Idx_R = seen (c_view s) Idx_R" "k \<le> seen v Idx_I"
    using V(1,2) V(3) [of Idx_R] CV(2) unfolding L(4) by simp_all
  have "seen v y < length (indices s y)" for y
    using L(2) V(3) [of y] CV(1) [of y] unfolding L(4) by (cases y) simp_all
  then have views: "views_ok ?t" using D(1) seen unfolding views_ok_def by simp
  have kw: "k < length (w_pos g)" and mono: "seen_w g s \<le> w_pos g ! k" and top: "w_pos g ! k \<le> pos_w g"
    using L(1,2) D(2) len by (simp_all add: positions_ok_def sorted_iff_nth_mono sorted_last)
  have "positions_ok sz g ?t" using D(2) mono seen by (simp add: positions_ok_def)
  moreover have "data_ok sz g ?t" using D(4) by (simp add: data_ok_def)
  moreover have "clocks_ok sz g ?t"
  proof -
    have c: "clock (c_view s) Consumer \<le> clock v Consumer" "clock (msg_view (indices s Idx_W ! k)) Producer \<le> clock v Producer"
      unfolding L(4) by simp_all
    have before: "wrote_before sz g ?t hi c = wrote_before sz g s hi c" "read_before sz g ?t hi c = read_before sz g s hi c"
      for hi c by (rule before_cong; simp)+
    have "read_at s x \<le> clock v Consumer" for x
      using D(5) c(1) unfolding clocks_ok_def by (meson order_trans)
    then show ?thesis using D(5) c(2) seen unfolding clocks_ok_def before by simp
  qed
  moreover have "wrap_ok sz g ?t"
  proof -
    have "w_pos g ! k div sz = Suc (pos_r g div sz)" if "seen_w g s div sz = Suc (pos_r g div sz)"
      using that laps [of "pos_r g" "w_pos g ! k" sz] mono top O div_le_mono [OF mono, of sz] by fastforce
    with D(6) seen show ?thesis by (simp add: wrap_ok_def)
  qed
  moreover have "producer_ok sz g ?t (p_at ?t)" using producer_ok_cong [OF D(7), of ?t] by simp
  moreover have "consumer_ok sz g ?t (c_at ?t)"
    using r L(3) positions_values(1) [OF D(2) kw] seen by simp
  ultimately show ?thesis using views D(3) by (simp add: weak_inv_def)
qed

text \<open>A relaxed load of \<open>_i\<close> by the consumer.\<close>

lemma inv_c_seen:
  assumes inv: "weak_inv sz g s" and load: "atomic_load Relaxed Idx_I m (c_view s) (indices s) = Some (i, v)"
  shows "weak_inv sz g (s\<lparr>c_view := v\<rparr>)" (is "weak_inv sz g ?t")
proof -
  note D = weak_invD [OF inv] and L = load_relaxed [OF load]
  have "views_ok ?t" using D(1) L unfolding views_ok_def by (auto intro: order_trans)
  moreover have "positions_ok sz g ?t" using D(2) L(5) by (simp add: positions_ok_def)
  moreover have "data_ok sz g ?t" using D(4) by (simp add: data_ok_def)
  moreover have "clocks_ok sz g ?t"
  proof -
    have before: "wrote_before sz g ?t hi c = wrote_before sz g s hi c" "read_before sz g ?t hi c = read_before sz g s hi c"
      for hi c by (rule before_cong; simp)+
    show ?thesis using D(5) L(4,5) unfolding clocks_ok_def before by simp
  qed
  moreover have "wrap_ok sz g ?t" using D(6) L(5) by (simp add: wrap_ok_def)
  moreover have "producer_ok sz g ?t (p_at ?t)" using producer_ok_cong [OF D(7), of ?t] by simp
  moreover have "consumer_ok sz g ?t (c_at ?t)" using consumer_ok_cong [OF D(8), of ?t] L(5) by simp
  ultimately show ?thesis using D(3) by (simp add: weak_inv_def)
qed

text \<open>
  With the store of \<open>_w\<close> in the next lap comes a store of \<open>_i\<close> that tells where the data of the lap of the
  reader ends, and no later store of \<open>_i\<close> says otherwise before the reader leaves its lap.
\<close>

lemma stored_limits:
  assumes "producer_ok sz g s p"
  obtains "map msg_val (indices s Idx_I) = limits sz g"
  | xs base where "staged sz g s base xs"
      "map msg_val (indices s Idx_I) = limits sz g @ [limit_at sz (laps_after sz g base) (base + length xs)]"
  using assms by (cases p) (simp_all, blast)

lemma limit_known:
  assumes inv: "weak_inv sz g s" and k: "k < length (w_pos g)" "pos_r g \<le> w_pos g ! k" "w_pos g ! k div sz = Suc (pos_r g div sz)"
    and m: "k \<le> m" "m < length (indices s Idx_I)"
  shows "msg_val (indices s Idx_I ! m) = lap_end g (pos_r g div sz)"
proof -
  note D = weak_invD [OF inv]
  note O = positions_order [OF D(1,2)]
  have lap_le: "pos_r g mod sz \<le> lap_end g (pos_r g div sz)" using D(2,3) by (simp add: positions_ok_def laps_ok_def)
  have lim: "limit_at sz e v = lap_end g (pos_r g div sz)"
    if "w_pos g ! k \<le> v" "v < pos_r g + sz" "e (pos_r g div sz) = lap_end g (pos_r g div sz)" for e v
    using that k laps [of "pos_r g" v sz] div_le_mono [OF that(1), of sz] lap_le by (auto simp: limit_at_def)
  have top: "w_pos g ! k \<le> pos_w g" using D(2) k(1) by (simp add: positions_ok_def sorted_last)
  have w: "w_pos g ! k \<le> w_pos g ! m" "w_pos g ! m \<le> pos_w g" if "m < length (w_pos g)"
    using D(2) m(1) that by (simp_all add: positions_ok_def sorted_iff_nth_mono sorted_last)
  have val: "msg_val (indices s Idx_I ! m) = map msg_val (indices s Idx_I) ! m" using m(2) by simp
  from D(7) show ?thesis
  proof (rule stored_limits)
    assume i: "map msg_val (indices s Idx_I) = limits sz g"
    have "m < length (w_pos g)" using m(2) arg_cong [where f = length, OF i] by (simp add: limits_def)
    then have "msg_val (indices s Idx_I ! m) = limit_at sz (lap_end g) (w_pos g ! m)" "w_pos g ! m < pos_r g + sz"
      using w O unfolding val i by (simp_all add: limits_def)
    with w(1) lim \<open>m < length (w_pos g)\<close> show ?thesis by simp
  next
    fix xs base
    assume sg: "staged sz g s base xs"
      and i: "map msg_val (indices s Idx_I) = limits sz g @ [limit_at sz (laps_after sz g base) (base + length xs)]"
    show ?thesis
    proof (cases "m < length (w_pos g)")
      case True
      then have "msg_val (indices s Idx_I ! m) = limit_at sz (lap_end g) (w_pos g ! m)" "w_pos g ! m < pos_r g + sz"
        using w O unfolding val i by (simp_all add: limits_def nth_append)
      with w(1) [OF True] lim show ?thesis by simp
    next
      case False
      then have "m = length (limits sz g)" using m(2) arg_cong [where f = length, OF i] by (simp add: limits_def)
      then have "msg_val (indices s Idx_I ! m) = limit_at sz (laps_after sz g base) (base + length xs)"
        unfolding val i by simp
      also have "\<dots> = lap_end g (pos_r g div sz)"
      proof (rule lim)
        have "0 < sz" using O by linarith
        then show "w_pos g ! k \<le> base + length xs" using staged_base(1) [OF sg] top by simp
        show "base + length xs < pos_r g + sz" using sg O(4) by (simp add: staged_def)
        show "laps_after sz g base (pos_r g div sz) = lap_end g (pos_r g div sz)"
          using div_le_mono [OF top, of sz] k(3) by (simp add: laps_after_def)
      qed
      finally show ?thesis .
    qed
  qed
qed

lemma inv_c_empty:
  assumes inv: "weak_inv sz g s" and at: "c_at s = C_Loaded r w"
    and load: "if r \<le> w then (i, v1) = (0, c_view s) else atomic_load Relaxed Idx_I m (c_view s) (indices s) = Some (i, v1)"
    and acq: "read_acquire (local_bip s r w i) = ((None, len), b)"
  shows "weak_inv sz g (s\<lparr>c_at := C_Idle, c_view := v1, c_wrapped := read_wrapped b\<rparr>)" (is "weak_inv sz g ?t")
proof (rule weak_inv_frame [OF inv])
  note D = weak_invD [OF inv]
  from acq have "r = w" and b: "b = local_bip s r w i"
    by (auto simp: read_acquire_def Let_def local_bip_def split: if_splits)
  with load show "c_view ?t = c_view s" by simp
  show "wrap_ok sz g ?t" using D(6) b \<open>c_view ?t = c_view s\<close> by (simp add: wrap_ok_def local_bip_def)
  show "producer_ok sz g ?t (p_at ?t)" using producer_ok_cong [OF D(7), of ?t] by simp
  show "consumer_ok sz g ?t (c_at ?t)" by simp
qed simp_all

lemma inv_c_acquire:
  assumes inv: "weak_inv sz g s" and sz: "2 < sz" "2 * sz \<le> SIZE_T" and at: "c_at s = C_Loaded r w"
    and load: "if r \<le> w then (i, v1) = (0, c_view s) else atomic_load Relaxed Idx_I m (c_view s) (indices s) = Some (i, v1)"
    and acq: "read_acquire (local_bip s r w i) = ((Some off, len), b)"
  shows "weak_inv sz g (s\<lparr>c_at := (if 0 < len then C_Read off len [] else C_Idle), c_view := v1,
       c_wrapped := read_wrapped b\<rparr>)" (is "weak_inv sz g ?t")
proof -
  have inv1: "weak_inv sz g (s\<lparr>c_view := v1\<rparr>)" (is "weak_inv sz g ?u")
  proof (cases "r \<le> w")
    case True
    with inv load show ?thesis by simp
  next
    case False
    with load inv_c_seen [OF inv] show ?thesis by simp
  qed
  note D = weak_invD [OF inv1]
  note O = positions_order [OF D(1,2)] and CV = c_view_facts [OF D(1)]
  from D(8) at have r: "r = pos_r g mod sz" and w: "w = seen_w g ?u mod sz" by simp_all
  have bd: "r < sz" "w < sz" using r w sz by simp_all
  have e: "pos_r g mod sz \<le> lap_end g (pos_r g div sz)" "w \<le> lap_end g (seen_w g ?u div sz)" "lap_end g l \<le> sz" for l
    using D(2,3) seen_w_in [OF D(1,2)] unfolding w by (auto simp: positions_ok_def laps_ok_def)
  note lap = laps [OF O(1,6), folded r w]
  have i: "i = lap_end g (pos_r g div sz)" if "w < r"
  proof -
    from that load have "atomic_load Relaxed Idx_I m (c_view s) (indices s) = Some (i, v1)" by simp
    note L = load_relaxed [OF this]
    have "seen v1 Idx_I = m" using L(5) by simp
    with CV(3) have "seen v1 Idx_W \<le> m" by simp
    moreover have "seen v1 Idx_W < length (w_pos g)" using CV(1) [of Idx_W] positions_lengths(1) [OF D(2)] by simp
    ultimately show ?thesis using limit_known [OF inv1, of "seen v1 Idx_W" m] that L(2,3) lap O(1) by simp
  qed
  have "i < SIZE_T" using i e(3) [of "pos_r g div sz"] load bd sz by (cases "r \<le> w") auto
  with weak_read_acquire [of r w i s] acq bd sz i e(1) r
  have eq: "r \<noteq> w" "if r < w then off = r \<and> len = w - r \<and> read_wrapped b = c_wrapped s
     else if r = i then off = 0 \<and> len = w \<and> read_wrapped b
     else off = r \<and> len = i - r \<and> read_wrapped b = c_wrapped s"
    by (auto simp: local_bip_def split: if_splits)
  have "wrap_ok sz g ?t \<and> consumer_ok sz g ?t (c_at ?t)"
  proof (cases "r < w")
    case True
    with lap have q: "seen_w g ?u div sz = pos_r g div sz" "seen_w g ?u - pos_r g = w - r" by auto
    with D(6) eq True have "\<not> read_wrapped b" by (auto simp: wrap_ok_def)
    moreover have "pos_r g + len \<le> seen_w g ?u" using q True eq O(1) by simp
    moreover have "off + len \<le> lap_end g (pos_r g div sz)" using True eq e(2) q by simp
    ultimately show ?thesis using True eq r by (simp add: wrap_ok_def read_base_def)
  next
    case False
    with eq(1) have wr: "w < r" by simp
    with lap have q: "seen_w g ?u div sz = Suc (pos_r g div sz)" "seen_w g ?u - pos_r g = sz - r + w" by auto
    note i = i [OF wr]
    have nl: "next_lap sz (pos_r g) = pos_r g + (sz - r)" using sz r by (simp add: next_lap_diff)
    show ?thesis
    proof (cases "r = i")
      case True
      have "next_lap sz (pos_r g) + len = seen_w g ?u" using True False eq q(2) nl O(1) by simp
      with True False eq q e(2) i r sz show ?thesis by (simp add: wrap_ok_def read_base_def)
    next
      case neq: False
      with D(6) i r have nw: "\<not> c_wrapped s" by (simp add: wrap_ok_def)
      have "pos_r g + len \<le> seen_w g ?u" "off + len = i"
        using neq False eq(2) q(2) O(1) i e(1) e(3) [of "pos_r g div sz"] r bd by auto
      with neq nw False eq i r show ?thesis by (simp add: wrap_ok_def read_base_def)
    qed
  qed
  moreover have "producer_ok sz g ?t (p_at ?t)" using producer_ok_cong [OF D(7), of ?t] by simp
  ultimately show ?thesis by (intro weak_inv_frame [OF inv1]) simp_all
qed

text \<open>The region that is being read.\<close>

lemma read_region:
  assumes inv: "weak_inv sz g s" and at: "c_at s = C_Read off len ys"
  shows "pos_r g \<le> read_base sz g s" "read_base sz g s + len \<le> seen_w g s" "off + len \<le> sz" "length ys \<le> len"
    and "t < len \<Longrightarrow> (read_base sz g s + t) mod sz = off + t"
    and "t < len \<Longrightarrow> (read_base sz g s + t) div sz = read_base sz g s div sz"
    and "t < len \<Longrightarrow> off + t < lap_end g (read_base sz g s div sz)"
proof -
  note D = weak_invD [OF inv]
  have "0 < sz" using positions_order [OF D(1,2)] by linarith
  then show "pos_r g \<le> read_base sz g s" using next_lap_gt [of sz "pos_r g"] by (simp add: read_base_def)
  from D(8) at have C: "off = read_base sz g s mod sz" "read_base sz g s + len \<le> seen_w g s"
    "off + len \<le> lap_end g (read_base sz g s div sz)" "length ys \<le> len" by simp_all
  then show "read_base sz g s + len \<le> seen_w g s" "length ys \<le> len" by simp_all
  have "lap_end g (read_base sz g s div sz) \<le> sz" using D(3) by (simp add: laps_ok_def)
  with C(3) show le: "off + len \<le> sz" by simp
  note R = region_lap [OF le [unfolded C(1)], folded C(1)]
  show "t < len \<Longrightarrow> (read_base sz g s + t) mod sz = off + t" by (rule R)
  show "t < len \<Longrightarrow> (read_base sz g s + t) div sz = read_base sz g s div sz" by (rule R)
  show "t < len \<Longrightarrow> off + t < lap_end g (read_base sz g s div sz)" using C(3) by simp
qed

lemma inv_c_read:
  assumes inv: "weak_inv sz g s" and at: "c_at s = C_Read off len ys" and less: "length ys < len"
  shows "weak_inv sz g (s\<lparr>c_at := C_Read off len (ys @ [cells s (off + length ys)]),
       c_view := tick Consumer (c_view s),
       read_at := (read_at s)(off + length ys := clock (c_view s) Consumer + 1)\<rparr>)" (is "weak_inv sz g ?t")
proof -
  note D = weak_invD [OF inv]
  note O = positions_order [OF D(1,2)]
  note R = read_region [OF inv at]
  let ?a = "read_base sz g s + length ys"
  have a: "?a mod sz = off + length ys" "?a < seen_w g s" using R(2) R(5) [OF less] less by simp_all
  have "views_ok ?t" using D(1) by (simp add: views_ok_def)
  moreover have "positions_ok sz g ?t" using D(2) by (simp add: positions_ok_def)
  moreover have "data_ok sz g ?t" using D(4) by (simp add: data_ok_def)
  moreover have "clocks_ok sz g ?t"
  proof -
    have "read_before sz g ?t (pos_w g) c" if "c < sz" for c
    proof (cases "c = off + length ys")
      case True
      have "\<not> ?a < r_pos g ! k" if "k < length (r_pos g)" for k
        using R(1) sorted_last [OF _ that] D(2) by (fastforce simp: positions_ok_def)
      then show ?thesis unfolding read_before_def
        by (intro disjI2 exI [of _ ?a]) (use a O(2) True in simp)
    next
      case False
      with D(5) that before_cong(2) [of ?t c s] show ?thesis by (simp add: clocks_ok_def)
    qed
    moreover have "wrote_before sz g ?t (seen_r g s + sz) c" if "c < sz" for c
      using D(5) that before_cong(1) [of ?t c s] by (simp add: clocks_ok_def)
    ultimately show ?thesis using D(5) by (auto simp: clocks_ok_def le_Suc_eq)
  qed
  moreover have "wrap_ok sz g ?t" using D(6) by (simp add: wrap_ok_def)
  moreover have "producer_ok sz g ?t (p_at ?t)" using producer_ok_cong [OF D(7), of ?t] by simp
  moreover have "consumer_ok sz g ?t (c_at ?t)"
  proof -
    have "seen_r g s \<le> ?a" "?a < pos_w g" using O(2,4) R(1) a(2) by linarith+
    moreover have "?a mod sz < lap_end g (?a div sz)" unfolding R(6) [OF less] a(1) by (rule R(7) [OF less])
    ultimately have "cells s (?a mod sz) = item_at g ?a" using D(4) unfolding data_ok_def by blast
    moreover have "read_base sz g ?t = read_base sz g s" by (simp add: read_base_def)
    ultimately show ?thesis using D(8) at less a(1) by (simp add: upt_Suc_append del: upt_Suc)
  qed
  ultimately show ?thesis using D(3) by (simp add: weak_inv_def)
qed

text \<open>The value that \<open>read_release\<close> stores.\<close>

lemma read_release_ok:
  assumes inv: "weak_inv sz g s" and sz: "2 < sz" "2 * sz \<le> SIZE_T" and at: "c_at s = C_Read off len ys" and n: "n \<le> length ys"
    and load: "if c_wrapped s then (r, v1) = (0, c_view s) else atomic_load Relaxed Idx_R j (c_view s) (indices s) = Some (r, v1)"
  shows "v1 = c_view s"
    and "\<exists>b. read_release sz n (local_bip s r 0 0) = Some b \<and> \<not> read_wrapped b \<and> bip_r b = (read_base sz g s + n) mod sz"
proof -
  note D = weak_invD [OF inv] and R = read_region [OF inv at]
  note own = load_own(1) [where v = "c_view s" and mem = "indices s", OF _ c_view_facts(2) [OF D(1)]]
  show v1: "v1 = c_view s" using load load_own(2) [where v = "c_view s" and mem = "indices s", OF _ c_view_facts(2) [OF D(1)]] by (auto split: if_splits)
  have off: "off = read_base sz g s mod sz" using D(8) at by simp
  have r: "c_wrapped s \<Longrightarrow> r = 0" "\<not> c_wrapped s \<Longrightarrow> r = pos_r g mod sz" using load own pos_w_value(2) [OF D(2)] by auto
  have off_r: "(if c_wrapped s then 0 else r) = off" using r(2) off sz by (simp add: read_base_def)
  have le: "off + n \<le> sz" using R(3,4) n by simp
  have "r < sz" using r sz by (cases "c_wrapped s") simp_all
  from weak_read_release [OF sz(2) _ this, of n s 0 0] off_r le lap_step(1) [of sz "read_base sz g s" n, folded off] sz
  show "\<exists>b. read_release sz n (local_bip s r 0 0) = Some b \<and> \<not> read_wrapped b \<and> bip_r b = (read_base sz g s + n) mod sz"
    by (simp add: Let_def)
qed

text \<open>The items of a region, and of the rest of a lap that the producer has left.\<close>

lemma region_items:
  assumes "\<And>l. e l \<le> sz" and "v mod sz + n \<le> e (v div sz)"
  shows "items sz e f v (v + n) = map f [v..<v + n]"
proof -
  have "v mod sz + n \<le> sz" using assms(1) [of "v div sz"] assms(2) by simp
  from region_lap [OF this] assms(2) items_all [of "map f [v..<v + n]" v sz e f] show ?thesis by simp
qed

lemma skipped_items:
  assumes "0 < sz" and "v mod sz = e (v div sz)"
  shows "items sz e f v (next_lap sz v) = []"
proof (rule items_none)
  fix a
  assume a: "v \<le> a" "a < next_lap sz v"
  then have "a div sz = v div sz"
    using div_le_mono [OF a(1), of sz] less_mult_imp_div_less [of a "Suc (v div sz)" sz] by (simp add: next_lap_def)
  moreover have "v mod sz \<le> a mod sz"
    using a(1) div_mult_mod_eq [of a sz] div_mult_mod_eq [of v sz] calculation by (metis add_le_cancel_left)
  ultimately show "\<not> a mod sz < e (a div sz)" using assms(2) by simp
qed

text \<open>The items up to the position that is released.\<close>

lemma released_items:
  assumes inv: "weak_inv sz g s" and at: "c_at s = C_Read off len ys" and n: "n \<le> length ys"
  shows "items sz (lap_end g) (item_at g) 0 (read_base sz g s + n) =
    items sz (lap_end g) (item_at g) 0 (pos_r g) @ take n ys"
proof -
  note D = weak_invD [OF inv] and R = read_region [OF inv at]
  let ?b = "read_base sz g s" and ?i = "items sz (lap_end g) (item_at g)"
  have sz: "0 < sz" using positions_order [OF D(1,2)] by linarith
  have "?i (pos_r g) ?b = []"
    using skipped_items [OF sz, of "pos_r g" "lap_end g" "item_at g"] D(6)
    by (simp add: read_base_def wrap_ok_def items_def)
  moreover have "?i ?b (?b + n) = take n ys"
  proof -
    have C: "off = ?b mod sz" "off + len \<le> lap_end g (?b div sz)" "ys = map (item_at g) [?b..<?b + length ys]"
      using D(8) at by simp_all
    have "take n ys = map (item_at g) (take n [?b..<?b + length ys])" using arg_cong [where f = "take n", OF C(3)] by (simp add: take_map)
    moreover have "?i ?b (?b + n) = map (item_at g) [?b..<?b + n]"
      using C(1,2) n R(4) D(3) by (intro region_items) (simp_all add: laps_ok_def)
    ultimately show ?thesis using n by (simp add: take_upt)
  qed
  ultimately show ?thesis
    using n R(1) items_append [of 0 "pos_r g" "?b + n" sz "lap_end g" "item_at g"]
      items_append [of "pos_r g" ?b "?b + n" sz "lap_end g" "item_at g"] by simp
qed

lemma producer_ok_ghost:
  assumes "producer_ok sz g s p" and "w_pos h = w_pos g" and "lap_end h = lap_end g" and "seen_r h t = seen_r g s"
    and "p_wrapped t = p_wrapped s" and "indices t Idx_I = indices s Idx_I" and "cells t = cells s"
  shows "producer_ok sz h t p"
proof -
  have "staged sz h t b xs = staged sz g s b xs" "laps_after sz h b = laps_after sz g b" "fill_base sz h t = fill_base sz g s"
    "limits sz h = limits sz g" for b xs
    by (simp_all add: assms(2-7) staged_def laps_after_def fill_base_def limits_def)
  with assms show ?thesis by (cases p) simp_all
qed

lemma inv_c_release:
  assumes inv: "weak_inv sz g s" and sz: "2 < sz" "2 * sz \<le> SIZE_T" and at: "c_at s = C_Read off len ys" and n: "n \<le> length ys"
    and load: "if c_wrapped s then (r, v1) = (0, c_view s) else atomic_load Relaxed Idx_R j (c_view s) (indices s) = Some (r, v1)"
    and rel: "read_release sz n (local_bip s r 0 0) = Some b"
    and st: "atomic_store Release Idx_R (bip_r b) v1 (indices s) = (v2, mem)"
  shows "weak_inv sz (g\<lparr>r_pos := r_pos g @ [read_base sz g s + n]\<rparr>)
    (s\<lparr>c_at := C_Idle, c_view := v2, indices := mem, c_wrapped := read_wrapped b,
       released := released s @ take n ys\<rparr>)" (is "weak_inv sz _ ?t")
proof -
  note D = weak_invD [OF inv] and R = read_region [OF inv at] and CV = c_view_facts [OF weak_invD(1) [OF inv]]
  note O = positions_order [OF D(1,2)] and len = positions_lengths [OF D(2)]
  note ok = read_release_ok [OF inv sz at n load]
  from ok(2) rel have b: "\<not> read_wrapped b" "bip_r b = (read_base sz g s + n) mod sz" by auto
  note st = st [unfolded ok(1)] and S = store_facts [OF st [unfolded ok(1)]] and V = store_release_views [OF D(1) st [unfolded ok(1)] CV(1)]
  let ?v = "read_base sz g s + n"
  let ?g = "g\<lparr>r_pos := r_pos g @ [?v]\<rparr>"
  have mem: "mem Idx_I = indices s Idx_I" "mem Idx_W = indices s Idx_W"
    "mem Idx_R = indices s Idx_R @ [\<lparr>msg_val = bip_r b, msg_view = v2\<rparr>]" by (simp_all add: S(1))
  have "seen (p_view s) Idx_R < length (r_pos g)" using D(1) len unfolding views_ok_def by metis
  then have k: "seen_r ?g s = seen_r g s" "mem Idx_R ! seen (p_view s) Idx_R = indices s Idx_R ! seen (p_view s) Idx_R"
    using len by (simp_all add: mem nth_append)
  have le: "?v \<le> seen_w g s" using R(2,4) n by simp
  have "views_ok ?t"
  proof -
    have "seen (p_view s) y < length (mem y)" for y using D(1) V(3) [of y] unfolding views_ok_def by (meson less_le_trans)
    then show ?thesis using D(1) V(1,2) unfolding views_ok_def by (simp add: mem S(3))
  qed
  moreover have "positions_ok sz ?g ?t"
  proof -
    have "\<forall>v\<in>set (r_pos g). v \<le> ?v"
      using D(2) R(1) unfolding positions_ok_def by (metis in_set_conv_nth order_trans sorted_last trans_le_add1)
    with D(2) have "sorted (r_pos ?g)" by (simp add: positions_ok_def sorted_append)
    with D(2) le show ?thesis by (simp add: positions_ok_def mem b S(3) k(1)[simplified])
  qed
  moreover have "laps_ok sz ?g"
  proof -
    have "?v mod sz \<le> lap_end g (?v div sz)"
    proof (cases "n < len")
      case True
      with R(5-7) show ?thesis by (simp add: less_imp_le)
    next
      case False
      with n R(4) have n: "n = len" by simp
      have off: "off = read_base sz g s mod sz" "off + len \<le> lap_end g (read_base sz g s div sz)" using D(8) at by simp_all
      from lap_step [of sz "read_base sz g s" len, folded off(1), OF _ R(3)] off(2) sz show ?thesis by (simp add: n)
    qed
    with D(3) show ?thesis by (simp add: laps_ok_def)
  qed
  moreover have "data_ok sz ?g ?t"
    using D(4) released_items [OF inv at n] k(1) by (simp add: data_ok_def)
  moreover have "clocks_ok sz ?g ?t"
  proof -
    have "read_at s c \<le> clock v2 Consumer" for c using D(5) by (simp add: clocks_ok_def S(2))
    moreover have "read_before sz g s (pos_w g) c" if "c < sz" for c using D(5) that by (simp add: clocks_ok_def)
    ultimately have "read_before sz ?g ?t (pos_w g) c" if "c < sz" for c
      using that unfolding read_before_def by (fastforce simp: mem nth_append len less_Suc_eq)
    moreover have "wrote_before sz ?g ?t (seen_r g s + sz) c" if "c < sz" for c
      using D(5) that by (simp add: clocks_ok_def wrote_before_def mem)
    ultimately show ?thesis using D(5) k by (simp add: clocks_ok_def mem(2) S(2,3))
  qed
  moreover have "wrap_ok sz ?g ?t" using b(1) by (simp add: wrap_ok_def)
  moreover have "producer_ok sz ?g ?t (p_at ?t)" using producer_ok_ghost [OF D(7), of ?g ?t] k(1) by (simp add: mem)
  ultimately show "weak_inv sz ?g ?t" by (simp add: weak_inv_def)
qed

section \<open>Every run\<close>

lemma weak_step_inv:
  assumes "weak_step sz s t" and inv: "weak_inv sz g s" and sz: "2 < sz" "2 * sz \<le> SIZE_T"
  shows "\<exists>g'. weak_inv sz g' t"
  using assms(1)
proof cases
  case p_load
  then show ?thesis using inv_p_load [OF inv] by blast
next
  case p_acquire
  then show ?thesis using inv_p_acquire [OF inv sz] by blast
next
  case p_no_space
  then show ?thesis using inv_p_no_space [OF inv] by blast
next
  case p_write
  then show ?thesis using inv_p_write [OF inv sz(1)] by blast
next
  case p_release
  then show ?thesis using inv_p_release [OF inv sz] by blast
next
  case (p_assert off n xs k w v1 i v2 m)
  note L = release_loads [OF inv p_assert(2-4)]
  from release_ok [OF inv sz p_assert(2) L(1,3)] p_assert(5) show ?thesis by auto
next
  case p_store_i
  then show ?thesis using inv_p_store_i [OF inv] by blast
next
  case (p_store_w w xs v1 mem)
  with weak_invD(7) [OF inv] obtain base where "\<not> p_wrapped s" "staged sz g s base xs" "w = (base + length xs) mod sz"
    "map msg_val (indices s Idx_I) = limits sz g @ [limit_at sz (laps_after sz g base) (base + length xs)]" by auto
  from inv_p_store_w [OF inv sz(1) p_store_w(2,3) this] p_store_w(1) show ?thesis by blast
next
  case c_load
  then show ?thesis using inv_c_load [OF inv] by blast
next
  case c_empty
  then show ?thesis using inv_c_empty [OF inv] by blast
next
  case c_acquire
  then show ?thesis using inv_c_acquire [OF inv sz] by blast
next
  case c_read
  then show ?thesis using inv_c_read [OF inv] by blast
next
  case c_release
  then show ?thesis using inv_c_release [OF inv sz] by blast
next
  case (c_assert off len ys n r v1 j)
  from read_release_ok(2) [OF inv sz c_assert(2-4)] c_assert(5) show ?thesis by auto
qed

lemma weak_reachable_inv:
  assumes "weak_reachable sz s" and "2 < sz" and "2 * sz \<le> SIZE_T"
  shows "\<exists>g. weak_inv sz g s"
  using assms
proof induction
  case (init mem)
  then show ?case using weak_inv_init by blast
next
  case (step s t)
  then show ?case using weak_step_inv by blast
qed

text \<open>A buffer whose cells hold the items from a position up to the last one that was stored.\<close>

lemma cells_items:
  assumes lok: "laps_ok sz g"
    and data: "\<And>a. q \<le> a \<Longrightarrow> a < pos_w g \<Longrightarrow> a mod sz < lap_end g (a div sz) \<Longrightarrow> d (a mod sz) = item_at g a"
    and v: "q \<le> v" "v + m \<le> pos_w g" "v mod sz + m \<le> lap_end g (v div sz)"
  shows "items sz (lap_end g) (item_at g) v (v + m) = mem_range d (v mod sz) (v mod sz + m)"
proof -
  have le: "lap_end g l \<le> sz" for l using lok by (simp add: laps_ok_def)
  have bound: "v mod sz + m \<le> sz" using v(3) le [of "v div sz"] by simp
  have "items sz (lap_end g) (item_at g) v (v + m) = map (item_at g) [v..<v + m]"
    by (rule region_items) (rule le, rule v(3))
  also have "\<dots> = mem_range d (v mod sz) (v mod sz + m)"
  proof (rule nth_equalityI)
    fix t
    assume "t < length (map (item_at g) [v..<v + m])"
    then have t: "t < m" by simp
    note R = region_lap [OF bound t]
    have "d ((v + t) mod sz) = item_at g (v + t)" using v t R by (intro data) simp_all
    with R(1) t show "map (item_at g) [v..<v + m] ! t = mem_range d (v mod sz) (v mod sz + m) ! t" by (simp add: mem_range_def)
  qed simp
  finally show ?thesis .
qed

lemma contents_items:
  assumes lok: "laps_ok sz g" and q: "q \<le> pos_w g" "pos_w g < q + sz" "q mod sz \<le> lap_end g (q div sz)"
    and b: "bip_r b = q mod sz" "bip_w b = pos_w g mod sz" "bip_w b < bip_r b \<Longrightarrow> bip_i b = lap_end g (q div sz)"
    and data: "\<And>a. q \<le> a \<Longrightarrow> a < pos_w g \<Longrightarrow> a mod sz < lap_end g (a div sz) \<Longrightarrow> bip_data b (a mod sz) = item_at g a"
  shows "bip_contents b = items sz (lap_end g) (item_at g) q (pos_w g)"
proof -
  let ?r = "q mod sz" and ?w = "pos_w g mod sz" and ?items = "items sz (lap_end g) (item_at g)"
  have sz: "0 < sz" using q(1,2) by linarith
  note lap = laps [OF q(1,2)] and cells = cells_items [where d = "bip_data b" and q = q, OF lok data]
  have full: "lap_end g (pos_w g div sz) = sz" using lok by (simp add: laps_ok_def)
  show ?thesis
  proof (cases "?r \<le> ?w")
    case True
    with lap have same: "pos_w g div sz = q div sz" "pos_w g = q + (?w - ?r)" using q(1) by auto
    have "?r + (?w - ?r) \<le> sz" using True mod_less_divisor [OF sz, of "pos_w g"] by simp
    with cells [where v = q and m = "?w - ?r"] same full have "?items q (pos_w g) = mem_range (bip_data b) ?r (?r + (?w - ?r))" by simp
    with b True show ?thesis by (simp add: bip_contents_def)
  next
    case False
    with lap have d: "pos_w g div sz = Suc (q div sz)" "pos_w g - q = sz - ?r + ?w" by auto
    let ?e = "lap_end g (q div sz)" and ?nl = "next_lap sz q"
    let ?m = "q + (?e - ?r)"
    have e: "?r \<le> ?e" "?e \<le> sz" using q(3) lok by (simp_all add: laps_ok_def)
    have nl: "?nl = q + (sz - ?r)" "?nl + ?w = pos_w g"
      using d(2) q(1) False next_lap_diff [OF sz, of q] mod_less_divisor [OF sz, of q] by linarith+
    have "?items q ?m = mem_range (bip_data b) ?r ?e" using cells [where v = q and m = "?e - ?r"] e nl by simp
    moreover have "?items ?m ?nl = []"
    proof (rule items_none)
      fix a
      assume a: "?m \<le> a" "a < ?nl"
      then have "q div sz \<le> a div sz" by (intro div_le_mono) simp
      with a(2) less_mult_imp_div_less [of a "Suc (q div sz)" sz] have s: "a div sz = q div sz"
        by (simp add: next_lap_def del: mult_Suc)
      have "a = q div sz * sz + a mod sz" using div_mult_mod_eq [of a sz] unfolding s by simp
      moreover have "q = q div sz * sz + ?r" by simp
      ultimately have "?e \<le> a mod sz" using a(1) e(1) by linarith
      with s show "\<not> a mod sz < lap_end g (a div sz)" by simp
    qed
    moreover have "?items ?nl (pos_w g) = mem_range (bip_data b) 0 ?w"
      using cells [where v = ?nl and m = ?w] next_lap_gt [OF sz, of q] nl(2) sz full d(1) mod_less_divisor [OF sz, of "pos_w g"] by simp
    moreover have "?items q (pos_w g) = ?items q ?m @ ?items ?m ?nl @ ?items ?nl (pos_w g)"
      using items_append [of q ?nl "pos_w g" sz "lap_end g" "item_at g"] items_append [of q ?m ?nl sz "lap_end g" "item_at g"] nl e
      by simp
    ultimately show ?thesis using b False by (simp add: bip_contents_def)
  qed
qed

lemma latest_contents:
  assumes inv: "weak_inv sz g s"
  shows "bip_contents (latest s) = items sz (lap_end g) (item_at g) (pos_r g) (pos_w g)"
proof -
  note D = weak_invD [OF inv]
  note O = positions_order [OF D(1,2)] and len = positions_lengths [OF D(2)]
  have le: "pos_r g \<le> pos_w g" using O by linarith
  have fields: "bip_r (latest s) = pos_r g mod sz" "bip_w (latest s) = pos_w g mod sz" "bip_data (latest s) = cells s"
    "bip_i (latest s) = msg_val (last (indices s Idx_I))"
    using pos_w_value [OF D(2)] by (simp_all add: latest_def local_bip_def)
  show ?thesis
  proof (rule contents_items [OF D(3) le O(5) _ fields(1,2)])
    show "pos_r g mod sz \<le> lap_end g (pos_r g div sz)" using D(2,3) by (simp add: positions_ok_def laps_ok_def)
    show "bip_i (latest s) = lap_end g (pos_r g div sz)" if w: "bip_w (latest s) < bip_r (latest s)"
    proof -
      have d: "pos_w g div sz = Suc (pos_r g div sz)" using laps [OF le O(5)] w fields by auto
      have ne: "w_pos g \<noteq> []" using D(2) by (simp add: positions_ok_def)
      then have "length (w_pos g) - 1 < length (indices s Idx_W)" using len(1) by simp
      with D(1) have "length (w_pos g) - 1 < length (indices s Idx_I)" unfolding views_ok_def by (meson le_less_trans)
      moreover from this have "indices s Idx_I \<noteq> []" by auto
      ultimately show ?thesis
        using limit_known [OF inv, of "length (w_pos g) - 1" "length (indices s Idx_I) - 1"] ne le d fields(4)
        by (simp add: last_conv_nth)
    qed
    show "bip_data (latest s) (a mod sz) = item_at g a"
      if "pos_r g \<le> a" "a < pos_w g" "a mod sz < lap_end g (a div sz)" for a
      using D(4) O(4) that by (simp add: data_ok_def fields)
  qed
qed

lemma weak_inv_queue:
  assumes inv: "weak_inv sz g s"
  shows "committed s = released s @ bip_contents (latest s)"
proof -
  note D = weak_invD [OF inv]
  have "pos_r g \<le> pos_w g" using positions_order [OF D(1,2)] by linarith
  then show ?thesis
    using D(4) latest_contents [OF inv] items_append [of 0 "pos_r g" "pos_w g" sz "lap_end g" "item_at g"]
    by (simp add: data_ok_def)
qed

lemma weak_inv_race_free:
  assumes inv: "weak_inv sz g s" and sz: "2 < sz"
  shows "\<not> races s"
proof -
  note D = weak_invD [OF inv]
  note O = positions_order [OF D(1,2)] and len = positions_lengths [OF D(2)]
  have k: "seen (c_view s) Idx_W < length (w_pos g)" "seen (p_view s) Idx_R < length (r_pos g)"
    using D(1) len unfolding views_ok_def by metis+
  have "\<not> clock (p_view s) Consumer < read_at s (off + length xs)"
    if at: "p_at s = P_Fill off n xs" and less: "length xs < n" for off n xs
  proof -
    let ?b = "fill_base sz g s"
    from D(7) at have P: "off = ?b mod sz" "staged sz g s ?b xs" "?b + n < seen_r g s + sz" "off + n \<le> sz" by simp_all
    note C = fill_cell [OF P(2,3) P(4) [unfolded P(1)] less sz, folded P(1)]
    have "read_before sz g s (pos_w g) (off + length xs)" using D(5) P(4) less by (simp add: clocks_ok_def)
    then show ?thesis unfolding read_before_def
    proof (elim disjE exE conjE)
      fix a
      assume a: "a < pos_w g" "a mod sz = off + length xs"
        "\<forall>k<length (r_pos g). a < r_pos g ! k \<longrightarrow> read_at s (off + length xs) \<le> clock (msg_view (indices s Idx_R ! k)) Consumer"
      have "a < seen_r g s" using same_cell_before [of a sz "?b + length xs" "seen_r g s"] C a by simp
      with a(3) k(2) have "read_at s (off + length xs) \<le> clock (msg_view (indices s Idx_R ! seen (p_view s) Idx_R)) Consumer" by blast
      with D(5) show ?thesis unfolding clocks_ok_def by (meson leD order_trans)
    qed simp
  qed
  moreover have "\<not> clock (c_view s) Producer < wrote s (off + length ys)"
    if at: "c_at s = C_Read off m ys" and less: "length ys < m" for off m ys
  proof -
    note R = read_region [OF inv at]
    let ?a = "read_base sz g s + length ys"
    have "wrote_before sz g s (seen_r g s + sz) (off + length ys)" using D(5) R(3) less by (simp add: clocks_ok_def)
    then show ?thesis unfolding wrote_before_def
    proof (elim disjE exE conjE)
      fix a
      assume a: "a < seen_r g s + sz" "a mod sz = off + length ys"
        "\<forall>k<length (w_pos g). a < w_pos g ! k \<longrightarrow> wrote s (off + length ys) \<le> clock (msg_view (indices s Idx_W ! k)) Producer"
      have "a < ?a + sz" using a(1) O(4) R(1) by linarith
      then have "a \<le> ?a" using same_cell [of a sz ?a] a(2) R(5) [OF less] by simp
      then have "a < seen_w g s" using R(2) less by simp
      with a(3) k(1) have "wrote s (off + length ys) \<le> clock (msg_view (indices s Idx_W ! seen (c_view s) Idx_W)) Producer" by blast
      with D(5) show ?thesis unfolding clocks_ok_def by (meson leD order_trans)
    qed simp
  qed
  ultimately show ?thesis unfolding races_def by (auto split: producer.splits consumer.splits)
qed

section \<open>Properties\<close>

text \<open>
  A run in which both threads hold a region: one byte is sent, the consumer loads the new \<open>_w\<close> and
  acquires it, the producer acquires a second region.
\<close>

definition view_of :: "nat \<Rightarrow> nat \<Rightarrow> nat \<Rightarrow> nat \<Rightarrow> nat \<Rightarrow> view" where
  "view_of r w i p c = \<lparr>seen = (\<lambda>x. case x of Idx_R \<Rightarrow> r | Idx_W \<Rightarrow> w | Idx_I \<Rightarrow> i),
     clock = (\<lambda>t. case t of Producer \<Rightarrow> p | Consumer \<Rightarrow> c)\<rparr>"

definition weak_state ::
  "(nat \<Rightarrow> byte) \<Rightarrow> message list \<Rightarrow> message list \<Rightarrow> nat \<Rightarrow> view \<Rightarrow> view \<Rightarrow> byte producer \<Rightarrow> byte consumer \<Rightarrow>
   byte list \<Rightarrow> byte weak" where
  "weak_state d w i clk pv cv p c snt =
     \<lparr>cells = d, indices = (\<lambda>x. \<lparr>msg_val = 0, msg_view = view_of 0 0 0 0 0\<rparr> #
        (case x of Idx_R \<Rightarrow> [] | Idx_W \<Rightarrow> w | Idx_I \<Rightarrow> i)),
      wrote = (\<lambda>_. 0)(0 := clk), read_at = \<lambda>_. 0, p_view = pv, c_view = cv, p_wrapped = False, c_wrapped = False,
      p_at = p, c_at = c, committed = snt, released = []\<rparr>"

lemma view_of_simps:
  "view_bottom = view_of 0 0 0 0 0"
  "(view_of r w i p c)\<lparr>seen := (seen (view_of r w i p c))(Idx_R := n)\<rparr> = view_of n w i p c"
  "(view_of r w i p c)\<lparr>seen := (seen (view_of r w i p c))(Idx_W := n)\<rparr> = view_of r n i p c"
  "(view_of r w i p c)\<lparr>seen := (seen (view_of r w i p c))(Idx_I := n)\<rparr> = view_of r w n p c"
  "view_join (view_of r w i p c) (view_of r' w' i' p' c') = view_of (max r r') (max w w') (max i i') (max p p') (max c c')"
  "tick Producer (view_of r w i p c) = view_of r w i (p + 1) c" "tick Consumer (view_of r w i p c) = view_of r w i p (c + 1)"
  "seen (view_of r w i p c) Idx_R = r" "seen (view_of r w i p c) Idx_W = w" "seen (view_of r w i p c) Idx_I = i"
  "clock (view_of r w i p c) Producer = p" "clock (view_of r w i p c) Consumer = c"
  by (simp_all add: view_of_def view_bottom_def view_join_def tick_def fun_eq_iff split: index.split thread.split)

lemma weak_step_to: "weak_step sz s t \<Longrightarrow> t = u \<Longrightarrow> weak_step sz s u"
  by simp

lemma weak_to: "weak_reachable sz s \<Longrightarrow> weak_step sz s t \<Longrightarrow> t = u \<Longrightarrow> weak_reachable sz u"
  by (blast intro: weak_reachable.step)

definition weak_example :: "byte weak" where
  "weak_example =
     weak_state ((\<lambda>_. 0)(0 := 7)) [\<lparr>msg_val = 1, msg_view = view_of 0 1 1 1 0\<rparr>]
       [\<lparr>msg_val = 1, msg_view = view_of 0 0 0 0 0\<rparr>] 1 (view_of 0 1 1 1 0) (view_of 0 1 1 1 0) (P_Fill 1 2 []) (C_Read 0 1 []) [7]"

lemma weak_example_reachable: "weak_reachable 8 weak_example"
proof -
  let ?d = "(\<lambda>_. 0)(0 := 7) :: nat \<Rightarrow> byte" and ?v = view_of
  let ?i = "\<lparr>msg_val = 1, msg_view = ?v 0 0 0 0 0\<rparr>" and ?w = "\<lparr>msg_val = 1, msg_view = ?v 0 1 1 1 0\<rparr>"
  note eval = weak_state_def view_of_simps atomic_load_def atomic_store_def local_bip_def bip_ops szt_sub_def szt_add_def
    SIZE_T_def
  have "weak_init (\<lambda>_. 0) = weak_state (\<lambda>_. 0) [] [] 0 (?v 0 0 0 0 0) (?v 0 0 0 0 0) P_Idle C_Idle []"
    by (simp add: weak_init_def eval fun_eq_iff split: index.split)
  with weak_reachable.init [of 8 "\<lambda>_. 0 :: byte"]
  have "weak_reachable 8 (weak_state (\<lambda>_. 0) [] [] 0 (?v 0 0 0 0 0) (?v 0 0 0 0 0) P_Idle C_Idle [])" by simp
  then have "weak_reachable 8 (weak_state (\<lambda>_. 0) [] [] 0 (?v 0 0 0 0 0) (?v 0 0 0 0 0) (P_Loaded 1 0 0) C_Idle [])"
    by (rule weak_to [OF _ weak_step.p_load [where n = 1 and k = 0 and j = 0]]) (simp add: eval)+
  then have "weak_reachable 8 (weak_state (\<lambda>_. 0) [] [] 0 (?v 0 0 0 0 0) (?v 0 0 0 0 0) (P_Fill 0 1 []) C_Idle [])"
    by (rule weak_to [OF _ weak_step.p_acquire [where n = 1 and w = 0 and r = 0 and off = 0]]) (simp add: eval)+
  then have "weak_reachable 8 (weak_state ?d [] [] 1 (?v 0 0 0 1 0) (?v 0 0 0 0 0) (P_Fill 0 1 [7]) C_Idle [])"
    by (rule weak_to [OF _ weak_step.p_write [where off = 0 and n = 1 and xs = "[]" and x = 7]]) (simp add: eval)+
  then have "weak_reachable 8 (weak_state ?d [] [] 1 (?v 0 0 0 1 0) (?v 0 0 0 0 0) (P_StoreI 1 1 [7]) C_Idle [])"
    by (rule weak_to [OF _ weak_step.p_release [where off = 0 and n = 1 and k = 0 and m = 0]]) (simp add: eval)+
  then have "weak_reachable 8 (weak_state ?d [] [?i] 1 (?v 0 0 1 1 0) (?v 0 0 0 0 0) (P_StoreW 1 [7]) C_Idle [])"
    by (rule weak_to [OF _ weak_step.p_store_i])
       (simp add: weak_state_def, rule atomic_store_def [unfolded Let_def], simp add: eval fun_eq_iff split: index.split)
  then have "weak_reachable 8 (weak_state ?d [?w] [?i] 1 (?v 0 1 1 1 0) (?v 0 0 0 0 0) P_Idle C_Idle [7])"
    by (rule weak_to [OF _ weak_step.p_store_w])
       (simp add: weak_state_def, rule atomic_store_def [unfolded Let_def], simp add: eval fun_eq_iff split: index.split)
  then have "weak_reachable 8 (weak_state ?d [?w] [?i] 1 (?v 0 1 1 1 0) (?v 0 1 1 1 0) P_Idle (C_Loaded 0 1) [7])"
    by (rule weak_to [OF _ weak_step.c_load [where j = 0 and k = 1]]) (simp add: eval)+
  then have "weak_reachable 8 (weak_state ?d [?w] [?i] 1 (?v 0 1 1 1 0) (?v 0 1 1 1 0) P_Idle (C_Read 0 1 []) [7])"
    by (rule weak_to [OF _ weak_step.c_acquire [where r = 0 and w = 1 and off = 0 and len = 1]]) (simp add: eval)+
  then have "weak_reachable 8 (weak_state ?d [?w] [?i] 1 (?v 0 1 1 1 0) (?v 0 1 1 1 0) (P_Loaded 2 1 0) (C_Read 0 1 []) [7])"
    by (rule weak_to [OF _ weak_step.p_load [where n = 2 and k = 1 and j = 0]]) (simp add: eval)+
  then show ?thesis unfolding weak_example_def
    by (rule weak_to [OF _ weak_step.p_acquire [where n = 2 and w = 1 and r = 0 and off = 1]]) (simp add: eval)+
qed

text \<open>
  C7. With the memory orders of the code the buffer is a queue between the two threads: what the producer has committed
  is what the consumer has released followed by the contents, and no assertion fails.
\<close>

theorem weak_fifo_safe:
  assumes "weak_reachable sz s" and "2 < sz" and "2 * sz \<le> SIZE_T"
  shows "committed s = released s @ bip_contents (latest s) \<and> p_at s \<noteq> P_Aborted \<and> c_at s \<noteq> C_Aborted"
proof -
  from weak_reachable_inv [OF assms] obtain g where inv: "weak_inv sz g s" by blast
  from weak_inv_queue [OF inv] weak_invD(7,8) [OF inv] show ?thesis by auto
qed

theorem weak_fifo_safe_witness:
  "committed weak_example = [7] \<and> [7] = released weak_example @ bip_contents (latest weak_example) \<and>
     p_at weak_example \<noteq> P_Aborted \<and> c_at weak_example \<noteq> C_Aborted"
  using weak_fifo_safe [OF weak_example_reachable]
  by (simp add: SIZE_T_def) (simp add: weak_example_def weak_state_def)

text \<open>
  C8. No data race on the cells: both threads stay inside the array, and the write or the read of a cell that
  comes next is ordered after the last read or write of that cell by the other thread.
\<close>

theorem weak_race_free:
  assumes "weak_reachable sz s" and "2 < sz" and "2 * sz \<le> SIZE_T"
  shows "regions_inside sz s \<and> \<not> races s"
proof -
  from weak_reachable_inv [OF assms] obtain g where inv: "weak_inv sz g s" by blast
  from weak_invD(7) [OF inv] read_region(3) [OF inv] have "regions_inside sz s"
    unfolding regions_inside_def by (cases "p_at s"; cases "c_at s") simp_all
  with weak_inv_race_free [OF inv assms(2)] show ?thesis by blast
qed

theorem weak_race_free_witness:
  "p_at weak_example = P_Fill 1 2 [] \<and> c_at weak_example = C_Read 0 1 [] \<and> wrote weak_example 0 = 1 \<and>
     regions_inside 8 weak_example \<and> \<not> races weak_example"
  using weak_race_free [OF weak_example_reachable]
  by (simp add: SIZE_T_def) (simp add: weak_example_def weak_state_def)

end
