(* ===== verification/Spsc_Interleavings.thy ===== *)
theory Spsc_Interleavings
  imports Spsc_Reader
begin

text \<open>
  The sequentially consistent interleavings of \<open>Spsc\<close> are the runs of \<open>weak_step\<close> in which every load takes the
  latest store.
\<close>

definition mirrors :: "'a spsc \<Rightarrow> 'a weak \<Rightarrow> bool" where
  "mirrors s t \<longleftrightarrow> shared s = latest t \<and> prod s = p_at t \<and> cons s = c_at t \<and> sent s = committed t \<and> received s = released t"

lemma load_latest:
  assumes "seen v x < length (mem x)"
  shows "\<exists>v1. atomic_load ord x (length (mem x) - 1) v mem = Some (msg_val (last (mem x)), v1)"
    and "\<exists>v1. atomic_load Relaxed x (length (mem x) - 1) v mem = Some (msg_val (last (mem x)), v1) \<and>
       (\<forall>y. y \<noteq> x \<longrightarrow> seen v1 y = seen v y)"
proof -
  from assms have "mem x \<noteq> []" "seen v x \<le> length (mem x) - 1" by auto
  then show "\<exists>v1. atomic_load ord x (length (mem x) - 1) v mem = Some (msg_val (last (mem x)), v1)"
    and "\<exists>v1. atomic_load Relaxed x (length (mem x) - 1) v mem = Some (msg_val (last (mem x)), v1) \<and>
       (\<forall>y. y \<noteq> x \<longrightarrow> seen v1 y = seen v y)"
    by (auto simp: atomic_load_def Let_def last_conv_nth)
qed

text \<open>Two loads after each other.\<close>

lemma load_both:
  assumes "\<And>y. seen v y < length (mem y)" and "x \<noteq> y"
  obtains v1 v2 where "atomic_load Relaxed x (length (mem x) - 1) v mem = Some (msg_val (last (mem x)), v1)"
    "atomic_load ord y (length (mem y) - 1) v1 mem = Some (msg_val (last (mem y)), v2)"
proof -
  from load_latest(2) [of v x mem, OF assms(1)] obtain v1
    where 1: "atomic_load Relaxed x (length (mem x) - 1) v mem = Some (msg_val (last (mem x)), v1)"
      and "seen v1 y = seen v y" using assms(2) by auto
  with assms(1) have "seen v1 y < length (mem y)" by simp
  from load_latest(1) [of v1 y mem ord, OF this] 1 that show thesis by blast
qed

text \<open>No operation looks at an index that it does not load.\<close>

lemma write_acquire_i:
  "write_acquire sz n (b\<lparr>bip_i := i\<rparr>) = (case write_acquire sz n b of (p, c) \<Rightarrow> (p, c\<lparr>bip_i := i\<rparr>))"
  by (simp add: write_acquire_def Let_def)

lemma mirrors_loaded:
  assumes "mirrors s t"
  shows "local_bip t r w 0 = (shared s)\<lparr>bip_w := w, bip_r := r, bip_i := 0\<rparr>"
    "msg_val (last (indices t Idx_W)) = bip_w (shared s)" "msg_val (last (indices t Idx_R)) = bip_r (shared s)"
    "msg_val (last (indices t Idx_I)) = bip_i (shared s)" "p_wrapped t = write_wrapped (shared s)"
    "c_wrapped t = read_wrapped (shared s)" "cells t = bip_data (shared s)"
  using assms by (auto simp: mirrors_def latest_def local_bip_def)

lemmas mirror_simps = mirrors_def latest_def local_bip_def

lemma release_mirrored:
  assumes "mirrors s t"
  shows "write_release sz n (local_bip t 0 (bip_w (shared s)) (if p_wrapped t then 0 else bip_i (shared s))) =
    map_option (\<lambda>c. c\<lparr>bip_r := 0\<rparr>) (write_release sz n (shared s))"
  using assms by (simp add: mirror_simps write_release_def Let_def)

lemma read_release_mirrored:
  assumes "mirrors s t"
  shows "read_release sz n (local_bip t (if c_wrapped t then 0 else bip_r (shared s)) 0 0) =
    map_option (\<lambda>c. c\<lparr>bip_w := 0, bip_i := 0\<rparr>) (read_release sz n (shared s))"
  using assms by (simp add: mirror_simps read_release_def Let_def)

lemma mirrors_step:
  assumes "spsc_step sz s s'" and m: "mirrors s t" and views: "views_ok t"
  shows "\<exists>t'. weak_step sz t t' \<and> mirrors s' t'"
proof -
  note M = mirrors_loaded [OF m]
  have at: "p_at t = prod s" "c_at t = cons s" using m by (simp_all add: mirrors_def)
  have pv: "seen (p_view t) y < length (indices t y)" and cv: "seen (c_view t) y < length (indices t y)" for y
    using views unfolding views_ok_def by blast+
  show ?thesis
    using assms(1)
  proof cases
    case (p_load n)
    from load_both [of "p_view t" "indices t" Idx_W Idx_R Acquire, OF pv] obtain v1 v2 where
      "atomic_load Relaxed Idx_W (length (indices t Idx_W) - 1) (p_view t) (indices t) = Some (bip_w (shared s), v1)"
      "atomic_load Acquire Idx_R (length (indices t Idx_R) - 1) v1 (indices t) = Some (bip_r (shared s), v2)"
      unfolding M by blast
    from weak_step.p_load [OF _ this] p_load(2) at have
      "weak_step sz t (t\<lparr>p_at := P_Loaded n (bip_w (shared s)) (bip_r (shared s)), p_view := v2\<rparr>)" by simp
    moreover have "mirrors s' (t\<lparr>p_at := P_Loaded n (bip_w (shared s)) (bip_r (shared s)), p_view := v2\<rparr>)"
      using m p_load(1) by (simp add: mirror_simps)
    ultimately show ?thesis by blast
  next
    case (p_acquire n w r off b)
    have "write_acquire sz n (local_bip t r w 0) = (Some off, b\<lparr>bip_i := 0\<rparr>)"
      unfolding M(1) using write_acquire_i [of sz n 0 "(shared s)\<lparr>bip_w := w, bip_r := r\<rparr>"] p_acquire(3) by simp
    from weak_step.p_acquire [OF _ this] at p_acquire(2) have
      "weak_step sz t (t\<lparr>p_at := P_Fill off n [], p_wrapped := write_wrapped b\<rparr>)" by simp
    moreover have "mirrors s' (t\<lparr>p_at := P_Fill off n [], p_wrapped := write_wrapped b\<rparr>)"
      using m p_acquire(1) by (auto simp: mirror_simps)
    ultimately show ?thesis by blast
  next
    case (p_no_space n w r b)
    have "write_acquire sz n (local_bip t r w 0) = (None, b\<lparr>bip_i := 0\<rparr>)"
      unfolding M(1) using write_acquire_i [of sz n 0 "(shared s)\<lparr>bip_w := w, bip_r := r\<rparr>"] p_no_space(3) by simp
    from weak_step.p_no_space [OF _ this] at p_no_space(2) have "weak_step sz t (t\<lparr>p_at := P_Idle\<rparr>)" by simp
    moreover have "mirrors s' (t\<lparr>p_at := P_Idle\<rparr>)" using m p_no_space(1) by (simp add: mirror_simps)
    ultimately show ?thesis by blast
  next
    case (p_write off n xs x)
    from weak_step.p_write [of t off n xs sz x] at p_write(2,3) show ?thesis
      using m p_write(1) by (intro exI conjI, simp) (auto simp: mirror_simps)
  next
    case (p_release off n xs b)
    let ?i = "if p_wrapped t then 0 else bip_i (shared s)"
    from load_both [of "p_view t" "indices t" Idx_W Idx_I Relaxed, OF pv] obtain v1 v2 where
      L: "atomic_load Relaxed Idx_W (length (indices t Idx_W) - 1) (p_view t) (indices t) = Some (bip_w (shared s), v1)"
      "atomic_load Relaxed Idx_I (length (indices t Idx_I) - 1) v1 (indices t) = Some (bip_i (shared s), v2)"
      unfolding M by blast
    obtain v where v: "if p_wrapped t then (?i, v) = (0, v1)
      else atomic_load Relaxed Idx_I (length (indices t Idx_I) - 1) v1 (indices t) = Some (?i, v)"
      using L(2) by (cases "p_wrapped t") auto
    have b: "write_release sz (length xs) (local_bip t 0 (bip_w (shared s)) ?i) = Some (b\<lparr>bip_r := 0\<rparr>)"
      using release_mirrored [OF m, of sz "length xs"] p_release(3) by simp
    have nw: "\<not> write_wrapped b" using p_release(3) by (auto simp: write_release_def Let_def split: if_splits)
    from weak_step.p_release [OF _ L(1) v b] at p_release(2) nw have
      "weak_step sz t (t\<lparr>p_at := P_StoreI (bip_i b) (bip_w b) xs, p_view := v, p_wrapped := False\<rparr>)" by simp
    moreover have "mirrors s' (t\<lparr>p_at := P_StoreI (bip_i b) (bip_w b) xs, p_view := v, p_wrapped := False\<rparr>)"
      using m p_release(1) by (simp add: mirror_simps)
    ultimately show ?thesis by blast
  next
    case (p_assert off n xs)
    let ?i = "if p_wrapped t then 0 else bip_i (shared s)"
    from load_both [of "p_view t" "indices t" Idx_W Idx_I Relaxed, OF pv] obtain v1 v2 where
      L: "atomic_load Relaxed Idx_W (length (indices t Idx_W) - 1) (p_view t) (indices t) = Some (bip_w (shared s), v1)"
      "atomic_load Relaxed Idx_I (length (indices t Idx_I) - 1) v1 (indices t) = Some (bip_i (shared s), v2)"
      unfolding M by blast
    obtain v where v: "if p_wrapped t then (?i, v) = (0, v1)
      else atomic_load Relaxed Idx_I (length (indices t Idx_I) - 1) v1 (indices t) = Some (?i, v)"
      using L(2) by (cases "p_wrapped t") auto
    have "write_release sz (length xs) (local_bip t 0 (bip_w (shared s)) ?i) = None"
      using release_mirrored [OF m, of sz "length xs"] p_assert(3) by simp
    from weak_step.p_assert [OF _ L(1) v this] at p_assert(2) have "weak_step sz t (t\<lparr>p_at := P_Aborted\<rparr>)" by simp
    moreover have "mirrors s' (t\<lparr>p_at := P_Aborted\<rparr>)" using m p_assert(1) by (simp add: mirror_simps)
    ultimately show ?thesis by blast
  next
    case (p_store_i i w xs)
    obtain v mem where st: "atomic_store Relaxed Idx_I i (p_view t) (indices t) = (v, mem)" by (metis prod.exhaust)
    from weak_step.p_store_i [OF _ st] at p_store_i(2) have
      "weak_step sz t (t\<lparr>p_at := P_StoreW w xs, p_view := v, indices := mem\<rparr>)" by simp
    moreover have "mirrors s' (t\<lparr>p_at := P_StoreW w xs, p_view := v, indices := mem\<rparr>)"
      using m p_store_i(1) store_facts(1) [OF st] by (simp add: mirror_simps)
    ultimately show ?thesis by blast
  next
    case (p_store_w w xs)
    obtain v mem where st: "atomic_store Release Idx_W w (p_view t) (indices t) = (v, mem)" by (metis prod.exhaust)
    from weak_step.p_store_w [OF _ st] at p_store_w(2) have
      "weak_step sz t (t\<lparr>p_at := P_Idle, p_view := v, indices := mem, committed := committed t @ xs\<rparr>)" by simp
    moreover have "mirrors s' (t\<lparr>p_at := P_Idle, p_view := v, indices := mem, committed := committed t @ xs\<rparr>)"
      using m p_store_w(1) store_facts(1) [OF st] by (simp add: mirror_simps)
    ultimately show ?thesis by blast
  next
    case c_load
    from load_both [of "c_view t" "indices t" Idx_R Idx_W Acquire, OF cv] obtain v1 v2 where
      "atomic_load Relaxed Idx_R (length (indices t Idx_R) - 1) (c_view t) (indices t) = Some (bip_r (shared s), v1)"
      "atomic_load Acquire Idx_W (length (indices t Idx_W) - 1) v1 (indices t) = Some (bip_w (shared s), v2)"
      unfolding M by blast
    from weak_step.c_load [OF _ this] at c_load(2) have
      "weak_step sz t (t\<lparr>c_at := C_Loaded (bip_r (shared s)) (bip_w (shared s)), c_view := v2\<rparr>)" by simp
    moreover have "mirrors s' (t\<lparr>c_at := C_Loaded (bip_r (shared s)) (bip_w (shared s)), c_view := v2\<rparr>)"
      using m c_load(1) by (simp add: mirror_simps)
    ultimately show ?thesis by blast
  next
    case (c_empty r w len b)
    have "r = w" using c_empty(3) by (auto simp: read_acquire_def Let_def split: if_splits)
    then have "read_acquire (local_bip t r w 0) = ((None, len), b\<lparr>bip_i := 0\<rparr>)"
      unfolding M(1) using c_empty(3) by (auto simp: read_acquire_def)
    from weak_step.c_empty [OF _ _ this, of "c_view t" 0] at c_empty(2) \<open>r = w\<close> have
      "weak_step sz t (t\<lparr>c_at := C_Idle, c_view := c_view t, c_wrapped := read_wrapped b\<rparr>)" by simp
    moreover have "mirrors s' (t\<lparr>c_at := C_Idle, c_view := c_view t, c_wrapped := read_wrapped b\<rparr>)"
      using m c_empty(1,3) \<open>r = w\<close> by (auto simp: mirror_simps read_acquire_def)
    ultimately show ?thesis by blast
  next
    case (c_acquire r w off len b)
    let ?i = "if r \<le> w then 0 else bip_i (shared s)"
    obtain v where v: "if r \<le> w then (?i, v) = (0, c_view t)
      else atomic_load Relaxed Idx_I (length (indices t Idx_I) - 1) (c_view t) (indices t) = Some (?i, v)"
      using load_latest(1) [of "c_view t" Idx_I "indices t" Relaxed, OF cv] M(4) by (cases "r \<le> w") auto
    have "local_bip t r w ?i = (shared s)\<lparr>bip_w := w, bip_r := r, bip_i := ?i\<rparr>"
      using m by (simp add: mirror_simps)
    then have "read_acquire (local_bip t r w ?i) = ((Some off, len), b\<lparr>bip_i := ?i\<rparr>)"
      using c_acquire(3) by (auto simp: read_acquire_def Let_def split: if_splits)
    from weak_step.c_acquire [OF _ v this] at c_acquire(2) have
      "weak_step sz t (t\<lparr>c_at := (if 0 < len then C_Read off len [] else C_Idle), c_view := v, c_wrapped := read_wrapped b\<rparr>)" by simp
    moreover have
      "mirrors s' (t\<lparr>c_at := (if 0 < len then C_Read off len [] else C_Idle), c_view := v, c_wrapped := read_wrapped b\<rparr>)"
      using m c_acquire(1) by (simp add: mirror_simps)
    ultimately show ?thesis by blast
  next
    case (c_read off len ys)
    from weak_step.c_read [of t off len ys sz] at c_read(2,3) show ?thesis
      using m c_read(1) by (intro exI conjI, simp) (auto simp: mirror_simps)
  next
    case (c_release off len ys n b)
    obtain r v where v: "if c_wrapped t then (r, v) = (0, c_view t)
      else atomic_load Relaxed Idx_R (length (indices t Idx_R) - 1) (c_view t) (indices t) = Some (r, v)"
      and r: "r = (if c_wrapped t then 0 else bip_r (shared s))"
      using load_latest(1) [of "c_view t" Idx_R "indices t" Relaxed, OF cv] M(3) by (cases "c_wrapped t") auto
    obtain c where c: "read_release sz n (local_bip t r 0 0) = Some c" "bip_r c = bip_r b" "read_wrapped c = read_wrapped b"
      using read_release_mirrored [OF m, of sz n] c_release(4) r by auto
    obtain v2 mem where st: "atomic_store Release Idx_R (bip_r c) v (indices t) = (v2, mem)" by (metis prod.exhaust)
    have b: "b = (shared s)\<lparr>bip_r := bip_r b, read_wrapped := read_wrapped b\<rparr>"
      using c_release(4) by (auto simp: read_release_def Let_def split: if_splits)
    from weak_step.c_release [OF _ c_release(3) v c(1) st] at c_release(2) have
      "weak_step sz t (t\<lparr>c_at := C_Idle, c_view := v2, indices := mem, c_wrapped := read_wrapped c,
         released := released t @ take n ys\<rparr>)" by simp
    moreover have "mirrors s' (t\<lparr>c_at := C_Idle, c_view := v2, indices := mem, c_wrapped := read_wrapped c,
         released := released t @ take n ys\<rparr>)"
      using m c_release(1) store_facts(1) [OF st] c(2,3) b by (simp add: mirror_simps)
    ultimately show ?thesis by blast
  next
    case (c_assert off len ys n)
    obtain r v where v: "if c_wrapped t then (r, v) = (0, c_view t)
      else atomic_load Relaxed Idx_R (length (indices t Idx_R) - 1) (c_view t) (indices t) = Some (r, v)"
      and r: "r = (if c_wrapped t then 0 else bip_r (shared s))"
      using load_latest(1) [of "c_view t" Idx_R "indices t" Relaxed, OF cv] M(3) by (cases "c_wrapped t") auto
    have "read_release sz n (local_bip t r 0 0) = None"
      using read_release_mirrored [OF m, of sz n] c_assert(4) r by simp
    from weak_step.c_assert [OF _ c_assert(3) v this] at c_assert(2) have "weak_step sz t (t\<lparr>c_at := C_Aborted\<rparr>)" by simp
    moreover have "mirrors s' (t\<lparr>c_at := C_Aborted\<rparr>)" using m c_assert(1) by (simp add: mirror_simps)
    ultimately show ?thesis by blast
  qed
qed



end
