(* ===== verification/Spsc_Linear.thy ===== *)
theory Spsc_Linear
  imports Spsc_Reader
begin

text \<open>
  Every execution of the two threads under the memory orders of the code is one in which whole operations of the
  buffer come one after the other: the producer works as if every release of the consumer happened
  when the producer first sees it.
\<close>

section \<open>Sequential operations\<close>

text \<open>The client patterns of \<open>Buffer_Interface\<close>, the second one with what it has taken.\<close>

datatype 'a op = Put nat "'a list" | Take nat

definition region :: "'a bip \<Rightarrow> 'a list" where
  "region b = (case read_acquire b of ((None, len), b1) \<Rightarrow> [] | ((Some off, len), b1) \<Rightarrow> bip_view b1 off len)"

fun seq_op :: "nat \<Rightarrow> 'a op \<Rightarrow> 'a bip \<times> 'a list \<Rightarrow> ('a bip \<times> 'a list) option" where
  "seq_op sz (Put n xs) (b, f) =
     map_option (\<lambda>b1. (b1, f)) (put_chunk (write_acquire sz) bip_fill (write_release sz) n xs b)"
| "seq_op sz (Take k) (b, f) =
     map_option (\<lambda>(n, b1). (b1, f @ take n (region b)))
       (take_chunk read_acquire bip_view (read_release sz) (\<lambda>bs. min k (length bs)) b)"

fun seq_ops :: "nat \<Rightarrow> 'a op list \<Rightarrow> 'a bip \<times> 'a list \<Rightarrow> ('a bip \<times> 'a list) option" where
  "seq_ops sz [] st = Some st"
| "seq_ops sz (p # ps) st = (case seq_op sz p st of None \<Rightarrow> None | Some st1 \<Rightarrow> seq_ops sz ps st1)"

lemma seq_ops_append:
  "seq_ops sz (ps @ qs) st = (case seq_ops sz ps st of None \<Rightarrow> None | Some st1 \<Rightarrow> seq_ops sz qs st1)"
  by (induction ps arbitrary: st) (simp_all split: option.splits)

section \<open>The state that the producer has seen\<close>

text \<open>The buffer with the read index at position \<open>q\<close>.\<close>

definition state_at :: "nat \<Rightarrow> 'a ghost \<Rightarrow> nat \<Rightarrow> 'a bip \<Rightarrow> bool" where
  "state_at sz g q b \<longleftrightarrow>
     bip_r b = q mod sz \<and> bip_w b = pos_w g mod sz \<and> bip_i b = limit_at sz (lap_end g) (pos_w g) \<and>
     \<not> write_wrapped b \<and> \<not> read_wrapped b \<and>
     (\<forall>a. q \<le> a \<longrightarrow> a < pos_w g \<longrightarrow> a mod sz < lap_end g (a div sz) \<longrightarrow> bip_data b (a mod sz) = item_at g a)"

text \<open>What the consumer has acquired and released between two of its positions.\<close>

definition take_ok :: "nat \<Rightarrow> 'a ghost \<Rightarrow> nat \<Rightarrow> nat \<Rightarrow> bool" where
  "take_ok sz g v v' \<longleftrightarrow>
     (\<exists>base n. (base = v \<and> v mod sz < lap_end g (v div sz) \<or> base = next_lap sz v \<and> v mod sz = lap_end g (v div sz)) \<and>
        v' = base + n \<and> base < pos_w g \<and> base + n \<le> pos_w g \<and> base mod sz + n \<le> lap_end g (base div sz))"

lemma state_at_inv:
  assumes st: "state_at sz g v b" and lok: "laps_ok sz g" and v: "v \<in> set (r_pos g)" "v \<le> pos_w g" "pos_w g < v + sz"
    and sz: "2 < sz" "2 * sz \<le> SIZE_T"
  shows "bip_inv sz b" and "bip_w b < bip_r b \<Longrightarrow> bip_i b = lap_end g (v div sz) \<and> pos_w g div sz = Suc (v div sz)"
proof -
  have lap_le: "v mod sz \<le> lap_end g (v div sz)" "lap_end g l \<le> sz" for l using lok v(1) by (auto simp: laps_ok_def)
  show i: "bip_i b = lap_end g (v div sz) \<and> pos_w g div sz = Suc (v div sz)" if "bip_w b < bip_r b"
    using that st laps [OF v(2,3)] lap_le(1) by (auto simp: state_at_def limit_at_def)
  show "bip_inv sz b"
    using st sz i lap_le limit_le [of "lap_end g" sz "pos_w g"] by (auto simp: bip_inv_def state_at_def)
qed

text \<open>One release of the consumer, later than it happened: the region that it has acquired is in the older state too.\<close>

abbreviation skip_lap :: "bool \<Rightarrow> 'a bip \<Rightarrow> 'a bip" where
  "skip_lap skip b \<equiv> if skip then b\<lparr>read_wrapped := True\<rparr> else b"

lemma replay_acquire:
  assumes st: "state_at sz g v b" and lok: "laps_ok sz g" and v: "v \<in> set (r_pos g)" "v \<le> pos_w g" "pos_w g < v + sz"
    and sz: "2 < sz" "2 * sz \<le> SIZE_T"
    and B: "base = v \<and> v mod sz < lap_end g (v div sz) \<or> base = next_lap sz v \<and> v mod sz = lap_end g (v div sz)"
    and n: "base < pos_w g" "base + n \<le> pos_w g" "base mod sz + n \<le> lap_end g (base div sz)"
  shows "\<exists>len. read_acquire b = ((Some (base mod sz), len), skip_lap (base \<noteq> v) b) \<and> n \<le> len \<and> 0 < len"
    and "bip_inv sz (skip_lap (base \<noteq> v) b)"
proof -
  have sz0: "0 < sz" using sz by simp
  note inv = state_at_inv [OF st lok v sz] and lap = laps [OF v(2,3)]
  have S: "bip_r b = v mod sz" "bip_w b = pos_w g mod sz" using st by (simp_all add: state_at_def)
  have "(\<exists>len. read_acquire b = ((Some (base mod sz), len), skip_lap (base \<noteq> v) b) \<and> n \<le> len \<and> 0 < len) \<and>
    bip_inv sz (skip_lap (base \<noteq> v) b)"
  proof (cases "base = v")
    case True
    with B next_lap_gt [OF sz0, of v] have d: "v mod sz < lap_end g (v div sz)" by auto
    show ?thesis
    proof (cases "bip_w b < bip_r b")
      case w: True
      from inv(2) [OF w] d n(3) True S(1) have "bip_r b \<noteq> bip_i b" "n \<le> bip_i b - bip_r b" "0 < bip_i b - bip_r b" by auto
      with w True S(1) inv(1) show ?thesis by (simp add: read_acquire_eq [OF inv(1)])
    next
      case w: False
      with lap S have "pos_w g - v = bip_w b - bip_r b" by auto
      with n(1,2) True have "n \<le> bip_w b - bip_r b" "0 < bip_w b - bip_r b" by linarith+
      with w True S(1) inv(1) show ?thesis by (simp add: read_acquire_eq [OF inv(1)])
    qed
  next
    case False
    with B have base: "base = next_lap sz v" "v mod sz = lap_end g (v div sz)" by auto
    have "Suc (v div sz) \<le> pos_w g div sz" using div_le_mono [of base "pos_w g" sz] n(1) sz0 by (simp add: base(1))
    with lap have w: "bip_w b < bip_r b" and d: "pos_w g - v = sz - bip_r b + bip_w b" using S by auto
    have "base = v + (sz - bip_r b)" using base(1) next_lap_diff [OF sz0] S(1) by simp
    with n(1,2) d have "n \<le> bip_w b" "0 < bip_w b" by linarith+
    moreover from inv base(2) S(1) False w have "bip_inv sz (skip_lap (base \<noteq> v) b)" by (auto simp: bip_inv_def)
    ultimately show ?thesis using w inv(2) [OF w] False base S(1) sz0 by (simp add: read_acquire_eq [OF inv(1)])
  qed
  then show "\<exists>len. read_acquire b = ((Some (base mod sz), len), skip_lap (base \<noteq> v) b) \<and> n \<le> len \<and> 0 < len"
    "bip_inv sz (skip_lap (base \<noteq> v) b)" by simp_all
qed

text \<open>The positions of a region of one lap, after those that the consumer has skipped.\<close>

lemma region_items_after:
  assumes lok: "laps_ok sz g" and sz0: "0 < sz"
    and B: "base = v \<or> base = next_lap sz v \<and> v mod sz = lap_end g (v div sz)"
    and n: "base mod sz + n \<le> lap_end g (base div sz)"
  shows "items sz (lap_end g) (item_at g) 0 (base + n) =
    items sz (lap_end g) (item_at g) 0 v @ map (item_at g) [base..<base + n]"
proof -
  let ?items = "items sz (lap_end g) (item_at g)"
  have le: "lap_end g l \<le> sz" for l using lok by (simp add: laps_ok_def)
  have vb: "v \<le> base" using B next_lap_gt [OF sz0, of v] by auto
  have "?items v base = []"
    using B skipped_items [OF sz0, of v "lap_end g" "item_at g"] by (auto simp: items_def)
  moreover have "?items base (base + n) = map (item_at g) [base..<base + n]" by (rule region_items) (rule le, rule n)
  ultimately show ?thesis
    using items_append [of 0 v "base + n" sz "lap_end g" "item_at g"] vb
      items_append [of v base "base + n" sz "lap_end g" "item_at g"] by simp
qed

lemma region_data:
  assumes st: "state_at sz g v b" and vb: "v \<le> base" and n: "n \<le> len" "base + n \<le> pos_w g" "base mod sz + n \<le> lap_end g (base div sz)"
    and lok: "laps_ok sz g"
  shows "take n (mem_range (bip_data b) (base mod sz) (base mod sz + len)) = map (item_at g) [base..<base + n]" (is "?l = ?r")
proof (rule nth_equalityI)
  have bound: "base mod sz + n \<le> sz" using n(3) lok by (meson laps_ok_def le_trans)
  fix t
  assume "t < length ?l"
  then have t: "t < n" by (simp add: mem_range_def)
  note R = region_lap [OF bound t]
  have "(base + t) mod sz < lap_end g ((base + t) div sz)" unfolding R using n(3) t by simp
  moreover have "v \<le> base + t" "base + t < pos_w g" using vb n(2) t by linarith+
  ultimately have "bip_data b ((base + t) mod sz) = item_at g (base + t)" using st unfolding state_at_def by blast
  then show "?l ! t = ?r ! t" using t n(1) unfolding R(1) by (simp add: mem_range_def)
qed (use n in \<open>simp add: mem_range_def\<close>)

lemma replay_take:
  assumes st: "state_at sz g v b" and take: "take_ok sz g v v'" and lok: "laps_ok sz g"
    and v: "v \<in> set (r_pos g)" "v \<le> pos_w g" "pos_w g < v + sz" and sz: "2 < sz" "2 * sz \<le> SIZE_T"
  shows "\<exists>k b'. seq_op sz (Take k) (b, items sz (lap_end g) (item_at g) 0 v) =
      Some (b', items sz (lap_end g) (item_at g) 0 v') \<and> state_at sz g v' b'"
proof -
  let ?items = "items sz (lap_end g) (item_at g)"
  from take obtain base n where B: "base = v \<and> v mod sz < lap_end g (v div sz) \<or> base = next_lap sz v \<and> v mod sz = lap_end g (v div sz)"
    and v': "v' = base + n" and n: "base < pos_w g" "base + n \<le> pos_w g" "base mod sz + n \<le> lap_end g (base div sz)"
    by (auto simp: take_ok_def)
  have sz0: "0 < sz" using sz by simp
  have vb: "v \<le> base" using B next_lap_gt [OF sz0, of v] by auto
  note A = replay_acquire [OF st lok v sz B n]
  from A(1) obtain len where acq: "read_acquire b = ((Some (base mod sz), len), skip_lap (base \<noteq> v) b)" and len: "n \<le> len" "0 < len" by blast
  have S: "bip_r b = v mod sz" "\<not> read_wrapped b" using st by (simp_all add: state_at_def)
  have off: "base mod sz = (if read_wrapped (skip_lap (base \<noteq> v) b) then 0 else bip_r (skip_lap (base \<noteq> v) b))" using B S sz0 by auto
  have bound: "base mod sz + n \<le> sz" using n(3) lok by (meson laps_ok_def le_trans)
  then have nsz: "n \<le> sz" by simp
  let ?b2 = "(skip_lap (base \<noteq> v) b)\<lparr>read_wrapped := False, bip_r := (base + n) mod sz\<rparr>"
  have rel: "read_release sz n (skip_lap (base \<noteq> v) b) = Some ?b2"
    using bound off lap_step(1) [OF sz0 bound] unfolding read_release_eq [OF A(2) nsz] by (simp add: Let_def)
  have "seq_op sz (Take n) (b, ?items 0 v) = Some (?b2, ?items 0 v @ map (item_at g) [base..<base + n])"
    using acq len rel region_data [OF st vb len(1) n(2,3) lok]
    by (cases "base = v") (simp_all add: take_chunk_def region_def bip_view_def mem_range_def Let_def min_absorb1)
  moreover have "?items 0 v' = ?items 0 v @ map (item_at g) [base..<base + n]"
    using region_items_after [OF lok sz0 _ n(3)] B unfolding v' by blast
  moreover have "state_at sz g v' ?b2"
    using st vb by (auto simp: state_at_def v')
  ultimately show ?thesis by auto
qed

definition takes_ok :: "nat \<Rightarrow> 'a ghost \<Rightarrow> bool" where
  "takes_ok sz g \<longleftrightarrow> (\<forall>j. Suc j < length (r_pos g) \<longrightarrow> take_ok sz g (r_pos g ! j) (r_pos g ! Suc j))"

lemma takes_ok_append:
  assumes "takes_ok sz g" and ne: "r_pos g \<noteq> []" and "take_ok sz g (pos_r g) v"
  shows "takes_ok sz (g\<lparr>r_pos := r_pos g @ [v]\<rparr>)"
proof -
  have same: "take_ok sz (g\<lparr>r_pos := r_pos g @ [v]\<rparr>) u u' = take_ok sz g u u'" for u u' by (simp add: take_ok_def)
  have "take_ok sz g ((r_pos g @ [v]) ! j) ((r_pos g @ [v]) ! Suc j)" if j: "Suc j < Suc (length (r_pos g))" for j
  proof (cases "Suc j < length (r_pos g)")
    case True
    with assms(1) show ?thesis by (simp add: takes_ok_def nth_append)
  next
    case False
    with j ne have "j = length (r_pos g) - 1" by simp
    with assms(3) ne show ?thesis by (simp add: nth_append last_conv_nth)
  qed
  then show ?thesis by (simp add: takes_ok_def same)
qed

lemma replay_takes:
  assumes inv: "weak_inv sz g s" and takes: "takes_ok sz g" and st: "state_at sz g (r_pos g ! j) b"
    and j: "seen (p_view s) Idx_R \<le> j" "j \<le> k" "k < length (r_pos g)" and sz: "2 < sz" "2 * sz \<le> SIZE_T"
  shows "\<exists>ks b'. seq_ops sz (map Take ks) (b, items sz (lap_end g) (item_at g) 0 (r_pos g ! j)) =
      Some (b', items sz (lap_end g) (item_at g) 0 (r_pos g ! k)) \<and> state_at sz g (r_pos g ! k) b'"
  using j(2,3)
proof (induction k rule: dec_induct)
  case base
  have "seq_ops sz (map Take []) (b, items sz (lap_end g) (item_at g) 0 (r_pos g ! j)) =
    Some (b, items sz (lap_end g) (item_at g) 0 (r_pos g ! j))" by simp
  with st show ?case by blast
next
  case (step k)
  note D = weak_invD [OF inv]
  note O = positions_order [OF D(1,2)]
  let ?items = "items sz (lap_end g) (item_at g)"
  from step obtain ks b1 where 1: "seq_ops sz (map Take ks) (b, ?items 0 (r_pos g ! j)) = Some (b1, ?items 0 (r_pos g ! k))"
    and st1: "state_at sz g (r_pos g ! k) b1" by auto
  have "sorted (r_pos g)" using D(2) by (simp add: positions_ok_def)
  then have v: "r_pos g ! k \<in> set (r_pos g)" "r_pos g ! k \<le> pos_r g" "seen_r g s \<le> r_pos g ! k"
    using step(1,4) j(1) by (simp_all add: sorted_last sorted_iff_nth_mono)
  have "take_ok sz g (r_pos g ! k) (r_pos g ! Suc k)" using takes step(4) by (simp add: takes_ok_def)
  from replay_take [OF st1 this D(3) v(1) _ _ sz] v O obtain m b2 where
    2: "seq_op sz (Take m) (b1, ?items 0 (r_pos g ! k)) = Some (b2, ?items 0 (r_pos g ! Suc k))" "state_at sz g (r_pos g ! Suc k) b2"
    by fastforce
  have "seq_ops sz (map Take (ks @ [m])) (b, ?items 0 (r_pos g ! j)) = Some (b2, ?items 0 (r_pos g ! Suc k))"
    unfolding map_append seq_ops_append 1 option.case list.map seq_ops.simps 2(1) ..
  with 2(2) show ?case by blast
qed

section \<open>The simulation\<close>

text \<open>The put that is under way, made in one piece.\<close>

definition put_done :: "nat \<Rightarrow> 'a ghost \<Rightarrow> 'a weak \<Rightarrow> nat \<Rightarrow> 'a bip \<Rightarrow> nat \<Rightarrow> nat \<Rightarrow> 'a list \<Rightarrow> bool" where
  "put_done sz g s n b i w xs \<longleftrightarrow>
     (\<exists>base. staged sz g s base xs \<and> w = (base + length xs) mod sz \<and>
        i = limit_at sz (laps_after sz g base) (base + length xs) \<and>
        put_chunk (write_acquire sz) bip_fill (write_release sz) n xs b =
          Some ((bip_fill (base mod sz) xs b)\<lparr>bip_w := w, bip_i := i\<rparr>))"

fun producer_sim :: "nat \<Rightarrow> 'a ghost \<Rightarrow> 'a weak \<Rightarrow> nat \<Rightarrow> 'a bip \<Rightarrow> 'a producer \<Rightarrow> bool" where
  "producer_sim sz g s N b (P_Loaded n w r) \<longleftrightarrow> n = N \<and> w = bip_w b \<and> r = bip_r b"
| "producer_sim sz g s N b (P_Fill off n xs) \<longleftrightarrow> n = N \<and> write_acquire sz N b = (Some off, b\<lparr>write_wrapped := p_wrapped s\<rparr>)"
| "producer_sim sz g s N b (P_StoreI i w xs) \<longleftrightarrow> put_done sz g s N b i w xs"
| "producer_sim sz g s N b (P_StoreW w xs) \<longleftrightarrow>
     (\<exists>i. put_done sz g s N b i w xs \<and> map msg_val (indices s Idx_I) = limits sz g @ [i])"
| "producer_sim sz g s N b _ \<longleftrightarrow> True"

definition simulates :: "nat \<Rightarrow> 'a ghost \<Rightarrow> 'a weak \<Rightarrow> nat \<Rightarrow> 'a bip \<Rightarrow> bool" where
  "simulates sz g s N b \<longleftrightarrow>
     state_at sz g (seen_r g s) b \<and> takes_ok sz g \<and> (\<forall>off ys. c_at s \<noteq> C_Read off 0 ys) \<and> producer_sim sz g s N b (p_at s)"

abbreviation seen_items :: "nat \<Rightarrow> 'a ghost \<Rightarrow> 'a weak \<Rightarrow> 'a list" where
  "seen_items sz g s \<equiv> items sz (lap_end g) (item_at g) 0 (seen_r g s)"

text \<open>Steps of the consumer leave the sequential state alone.\<close>

lemma simulates_consumer:
  assumes sim: "simulates sz g s N b" and same: "p_at t = p_at s" "p_wrapped t = p_wrapped s" "indices t Idx_I = indices s Idx_I"
    "cells t = cells s" and h: "w_pos h = w_pos g" "lap_end h = lap_end g" "item_at h = item_at g" "seen_r h t = seen_r g s"
    and "takes_ok sz h" and "\<And>off ys. c_at t \<noteq> C_Read off 0 ys"
  shows "simulates sz h t N b"
proof -
  have "put_done sz h t n b i w xs = put_done sz g s n b i w xs" for n i w xs
    by (simp add: put_done_def staged_def laps_after_def same h)
  moreover have "limits sz h = limits sz g" by (simp add: limits_def h)
  ultimately have "producer_sim sz h t N b (p_at s)"
    using sim by (cases "p_at s") (simp_all add: simulates_def same)
  with sim assms(10,11) show ?thesis by (simp add: simulates_def state_at_def same h)
qed

lemma take_ok_release:
  assumes inv: "weak_inv sz g s" and at: "c_at s = C_Read off len ys" and n: "n \<le> length ys" and len: "len \<noteq> 0"
  shows "take_ok sz g (pos_r g) (read_base sz g s + n)"
proof -
  note D = weak_invD [OF inv] and R = read_region [OF inv at]
  have C: "off = read_base sz g s mod sz" "off + len \<le> lap_end g (read_base sz g s div sz)" using D(8) at by simp_all
  with R(2,4) n len positions_order(2) [OF D(1,2)] have
    "read_base sz g s < pos_w g" "read_base sz g s + n \<le> pos_w g" "read_base sz g s mod sz + n \<le> lap_end g (read_base sz g s div sz)"
    "off < lap_end g (read_base sz g s div sz)" by linarith+
  with C(1) D(6) show ?thesis
    unfolding take_ok_def by (intro exI [of _ "read_base sz g s"] exI [of _ n]) (auto simp: read_base_def wrap_ok_def)
qed

lemma sim_c_release:
  assumes inv: "weak_inv sz g s" and sim: "simulates sz g s N b" and sz: "2 < sz" "2 * sz \<le> SIZE_T"
    and at: "c_at s = C_Read off len ys" "n \<le> length ys"
    and load: "if c_wrapped s then (r, v1) = (0, c_view s) else atomic_load Relaxed Idx_R j (c_view s) (indices s) = Some (r, v1)"
    and rel: "read_release sz n (local_bip s r 0 0) = Some c"
    and st: "atomic_store Release Idx_R (bip_r c) v1 (indices s) = (v2, mem)"
    and t: "t = s\<lparr>c_at := C_Idle, c_view := v2, indices := mem, c_wrapped := read_wrapped c,
      released := released s @ take n ys\<rparr>"
    and view: "p_view t = p_view s"
  shows "\<exists>h. weak_inv sz h t \<and> simulates sz h t N b \<and> seen_items sz h t = seen_items sz g s"
proof -
  let ?h = "g\<lparr>r_pos := r_pos g @ [read_base sz g s + n]\<rparr>"
  note D = weak_invD [OF inv]
  have takes: "takes_ok sz g" and "len \<noteq> 0" using sim at(1) by (auto simp: simulates_def)
  have inv': "weak_inv sz ?h t" unfolding t by (rule inv_c_release [OF inv sz at load rel st])
  have "seen (p_view s) Idx_R < length (r_pos g)"
    using D(1) positions_lengths [OF D(2)] unfolding views_ok_def by metis
  then have seen: "seen_r ?h t = seen_r g s" using view by (simp add: nth_append)
  have "r_pos g \<noteq> []" using D(2) by (simp add: positions_ok_def)
  then have "takes_ok sz ?h" by (rule takes_ok_append [OF takes _ take_ok_release [OF inv at \<open>len \<noteq> 0\<close>]])
  moreover have "indices t Idx_I = indices s Idx_I" using store_facts(1) [OF st] t by simp
  ultimately have "simulates sz ?h t N b"
    using seen by (intro simulates_consumer [OF sim]) (simp_all add: t)
  with inv' seen show ?thesis by (intro exI [of _ ?h]) simp
qed

lemma sim_consumer:
  assumes "weak_step sz s t" and inv: "weak_inv sz g s" and sim: "simulates sz g s N b" and sz: "2 < sz" "2 * sz \<le> SIZE_T"
    and "p_at t = p_at s" and "p_view t = p_view s"
  shows "\<exists>h. weak_inv sz h t \<and> simulates sz h t N b \<and> seen_items sz h t = seen_items sz g s"
proof -
  have takes: "takes_ok sz g" using sim by (simp_all add: simulates_def)
  note frame = simulates_consumer [OF sim _ _ _ _ refl refl refl]
  show ?thesis
    using assms(1)
  proof cases
    case (c_load j r v1 k w v2)
    have "weak_inv sz g t" using inv_c_load [OF inv] c_load by blast
    moreover have "simulates sz g t N b" by (rule frame) (use c_load takes in simp_all)
    ultimately show ?thesis using assms(7) by auto
  next
    case (c_empty r w i v1 m len c)
    have "weak_inv sz g t" using inv_c_empty [OF inv] c_empty by blast
    moreover have "simulates sz g t N b" by (rule frame) (use c_empty takes in simp_all)
    ultimately show ?thesis using assms(7) by auto
  next
    case (c_acquire r w i v1 m off len c)
    have "weak_inv sz g t" using inv_c_acquire [OF inv sz] c_acquire by blast
    moreover have "simulates sz g t N b" by (rule frame) (use c_acquire takes in simp_all)
    ultimately show ?thesis using assms(7) by auto
  next
    case (c_read off len ys)
    have "weak_inv sz g t" using inv_c_read [OF inv] c_read by blast
    moreover have "simulates sz g t N b" by (rule frame) (use c_read takes in simp_all)
    ultimately show ?thesis using assms(7) by auto
  next
    case (c_release off len ys n r v1 j c v2 mem)
    show ?thesis by (rule sim_c_release [OF inv sim sz c_release(2-6,1) assms(7)])
  next
    case (c_assert off len ys n r v1 j)
    from read_release_ok(2) [OF inv sz c_assert(2-4)] c_assert(5) show ?thesis by auto
  qed (use assms(6) in \<open>simp_all\<close>)
qed

text \<open>What an operation does depends on the indices that it loads only.\<close>

lemma acquire_same:
  assumes "write_acquire sz n a = (p, c)" and "bip_w b = bip_w a" "bip_r b = bip_r a" "\<not> write_wrapped a" "\<not> write_wrapped b"
  shows "write_acquire sz n b = (p, b\<lparr>write_wrapped := write_wrapped c\<rparr>)"
  using assms by (auto simp: write_acquire_def Let_def split: if_splits)

lemma release_same:
  fixes a b c :: "'a bip"
  assumes "write_release sz n a = Some c" and "write_wrapped b = write_wrapped a" "bip_w b = bip_w a"
    and "\<not> write_wrapped a \<Longrightarrow> bip_i b = bip_i a"
  shows "write_release sz n b = Some (b\<lparr>write_wrapped := False, bip_w := bip_w c, bip_i := bip_i c\<rparr>)"
proof -
  let ?w = "\<lambda>x. szt_add (if write_wrapped x then 0 else bip_w x) n"
    and ?i = "\<lambda>x. if write_wrapped x then bip_w x else bip_i x"
  let ?new = "\<lambda>x :: 'a bip. x\<lparr>write_wrapped := False, bip_w := (if ?w x = sz then 0 else ?w x),
      bip_i := (if ?w x > ?i x then ?w x else ?i x)\<rparr>"
  have eq: "write_release sz n x = (if ?w x \<le> sz then Some (?new x) else None)" for x :: "'a bip"
    by (simp add: write_release_def Let_def)
  have same: "?w b = ?w a" "?i b = ?i a" using assms by simp_all
  have ok: "?w a \<le> sz" using assms(1) unfolding eq by (rule contrapos_pp) simp
  with assms(1) have c: "c = ?new a" unfolding eq by (simp only: if_True option.inject)
  have cw: "bip_w c = (if ?w a = sz then 0 else ?w a)" and ci: "bip_i c = (if ?w a > ?i a then ?w a else ?i a)" unfolding c by simp_all
  have "write_release sz n b = Some (?new b)" unfolding eq [of b] same(1) by (rule if_P [OF ok])
  then show ?thesis unfolding cw ci same .
qed

text \<open>Releases of the consumer stay possible when the producer moves on.\<close>

lemma take_ok_after:
  assumes take: "take_ok sz g v v'" and lok: "laps_ok sz g" and st: "staged sz g s base xs" and sz: "0 < sz"
    and vw: "v \<le> pos_w g"
  shows "take_ok sz (after_store_w sz g base xs) v v'"
proof -
  from take obtain u n where B: "u = v \<and> v mod sz < lap_end g (v div sz) \<or> u = next_lap sz v \<and> v mod sz = lap_end g (v div sz)"
    and v': "v' = u + n" and n: "u < pos_w g" "u + n \<le> pos_w g" "u mod sz + n \<le> lap_end g (u div sz)"
    by (auto simp: take_ok_def)
  let ?e = "laps_after sz g base"
  have full: "lap_end g (pos_w g div sz) = sz" using lok by (simp add: laps_ok_def)
  have same: "?e l = lap_end g l \<or> l = pos_w g div sz \<and> ?e l = pos_w g mod sz" for l by (simp add: laps_after_def)
  have below: "a mod sz + m \<le> pos_w g mod sz" if "a + m \<le> pos_w g" "a div sz = pos_w g div sz" for a m
    using that div_mult_mod_eq [of a sz] div_mult_mod_eq [of "pos_w g" sz] by (metis add.assoc add_le_cancel_left)
  have less: "v < pos_w g" using B n(1) next_lap_gt [OF sz, of v] by auto
  have "u = v \<and> v mod sz < ?e (v div sz) \<or> u = next_lap sz v \<and> v mod sz = ?e (v div sz)"
  proof (cases "v div sz = pos_w g div sz")
    case True
    then have "v mod sz < lap_end g (v div sz)" using full sz by simp
    moreover have "v mod sz < pos_w g mod sz" using below [of v 1] less True by simp
    ultimately show ?thesis using B same [of "v div sz"] by auto
  next
    case False
    with B same [of "v div sz"] show ?thesis by auto
  qed
  moreover have "u mod sz + n \<le> ?e (u div sz)" using same [of "u div sz"] n(3) below [OF n(2)] by auto
  moreover have "u < base + length xs" "u + n \<le> base + length xs" using n(1,2) staged_base(1) [OF st sz] by linarith+
  ultimately show ?thesis using v' unfolding take_ok_def by auto
qed

fun puts :: "'a op list \<Rightarrow> (nat \<times> 'a list) list" where
  "puts [] = []"
| "puts (Put n xs # ps) = (n, xs) # puts ps"
| "puts (Take k # ps) = puts ps"

lemma puts_simps [simp]: "puts (ps @ qs) = puts ps @ puts qs" "puts (map Take ks) = []"
proof -
  show "puts (ps @ qs) = puts ps @ puts qs" by (induction ps rule: puts.induct) simp_all
  show "puts (map Take ks) = []" by (induction ks) simp_all
qed

text \<open>The put that a step of the producer ends, \<open>ys\<close> if there was no room.\<close>

fun finished_put :: "nat \<Rightarrow> 'a list \<Rightarrow> 'a producer \<Rightarrow> 'a producer \<Rightarrow> (nat \<times> 'a list) list" where
  "finished_put N ys (P_Loaded n w r) P_Idle = [(N, ys)]"
| "finished_put N ys (P_StoreW w xs) P_Idle = [(N, xs)]"
| "finished_put N ys _ _ = []"

lemma loaded_seen:
  assumes "views_ok s" and "atomic_load Acquire Idx_R j (p_view s) (indices s) = Some (r, v)"
  shows "seen v Idx_R = j" "seen (p_view s) Idx_R \<le> j" "j < length (indices s Idx_R)"
proof -
  note L = load_acquire [OF assms(2)]
  have "seen (msg_view (indices s Idx_R ! j)) Idx_R \<le> j" using assms(1) L(2) unfolding views_ok_def by blast
  then show "seen v Idx_R = j" "seen (p_view s) Idx_R \<le> j" "j < length (indices s Idx_R)" using L by simp_all
qed

lemma state_at_store:
  assumes st: "state_at sz g q b" and lok: "laps_ok sz g" and base: "staged sz g s base xs" and sz0: "0 < sz"
    and w: "w = (base + length xs) mod sz" and i: "i = limit_at sz (laps_after sz g base) (base + length xs)"
    and q: "q = seen_r g s"
  shows "state_at sz (after_store_w sz g base xs) q ((bip_fill (base mod sz) xs b)\<lparr>bip_w := w, bip_i := i\<rparr>)"
    (is "state_at sz ?h q ?b")
proof -
  note b0 = staged_base(1) [OF base sz0]
  have m: "base mod sz + length xs \<le> sz" "base + length xs < q + sz" using base by (simp_all add: staged_def q)
  have old: "bip_data ?b (a mod sz) = bip_data b (a mod sz)" if a: "q \<le> a" "a < pos_w g" for a
  proof -
    have "\<not> (base mod sz \<le> a mod sz \<and> a mod sz < base mod sz + length xs)"
    proof
      assume c: "base mod sz \<le> a mod sz \<and> a mod sz < base mod sz + length xs"
      let ?t = "a mod sz - base mod sz"
      have t: "?t < length xs" using c by linarith
      have "(base + ?t) mod sz = a mod sz"
        using region_lap(1) [OF m(1) t] le_add_diff_inverse [OF conjunct1 [OF c]] by (simp only:)
      moreover have "base + ?t < q + sz" "a < base + ?t" using m(2) t a(2) b0 by linarith+
      ultimately have "a < q" using same_cell_before [of a sz "base + ?t" q] by simp
      with a(1) show False by simp
    qed
    then show ?thesis by (auto simp: bip_fill_def)
  qed
  have "bip_data ?b (a mod sz) = item_at ?h a"
    if a: "q \<le> a" "a < base + length xs" "a mod sz < laps_after sz g base (a div sz)" for a
  proof -
    consider "a < pos_w g" | "pos_w g \<le> a" "a < base" | "base \<le> a" by linarith
    then show ?thesis
    proof cases
      case 1
      then have "a mod sz < lap_end g (a div sz)" using a(3) laps_after_below [OF lok 1 sz0] by simp
      then show ?thesis using st old [OF a(1) 1] a(1) 1 b0 by (simp add: state_at_def)
    next
      case 2
      with a(3) laps_after_skip [OF base 2 sz0] show ?thesis by simp
    next
      case 3
      then obtain k where t: "a = base + k" by (metis le_add_diff_inverse)
      with a(2) have "k < length xs" by simp
      from region_lap(1) [OF m(1) this] this show ?thesis by (simp add: bip_fill_def t)
    qed
  qed
  then show ?thesis using st w i by (simp add: state_at_def bip_fill_def)
qed

lemma sim_store_w:
  assumes inv: "weak_inv sz g s" and sim: "simulates sz g s N b" and sz: "2 < sz" and at: "p_at s = P_StoreW w xs"
    and st: "atomic_store Release Idx_W w (p_view s) (indices s) = (v1, mem)"
    and t: "t = s\<lparr>p_at := P_Idle, p_view := v1, indices := mem, committed := committed s @ xs\<rparr>"
  shows "\<exists>h b'. seq_op sz (Put N xs) (b, seen_items sz g s) = Some (b', seen_items sz h t) \<and> weak_inv sz h t \<and> simulates sz h t N b'"
proof -
  note D = weak_invD [OF inv]
  note O = positions_order [OF D(1,2)]
  have sz0: "0 < sz" using sz by simp
  from sim have S: "state_at sz g (seen_r g s) b" "takes_ok sz g" "producer_sim sz g s N b (p_at s)" "\<And>off ys. c_at s \<noteq> C_Read off 0 ys"
    by (simp_all add: simulates_def)
  from S(3) at obtain base i where base: "staged sz g s base xs" "w = (base + length xs) mod sz"
    "i = limit_at sz (laps_after sz g base) (base + length xs)" "map msg_val (indices s Idx_I) = limits sz g @ [i]"
    and put: "put_chunk (write_acquire sz) bip_fill (write_release sz) N xs b = Some ((bip_fill (base mod sz) xs b)\<lparr>bip_w := w, bip_i := i\<rparr>)"
    by (auto simp: put_done_def)
  let ?h = "after_store_w sz g base xs" and ?b = "(bip_fill (base mod sz) xs b)\<lparr>bip_w := w, bip_i := i\<rparr>"
  have "\<not> p_wrapped s" using D(7) at by simp
  from inv_p_store_w [OF inv sz at st this base(1,2)] base(3,4) have inv': "weak_inv sz ?h t" by (simp add: t)
  have seen: "seen_r ?h t = seen_r g s" using store_facts(3) [OF st] by (simp add: t)
  have items: "seen_items sz ?h t = seen_items sz g s"
    using after_store_w_items(2) [OF D(3) base(1) sz0 O(7)] unfolding seen by simp
  have "state_at sz ?h (seen_r g s) ?b" by (rule state_at_store [OF S(1) D(3) base(1) sz0 base(2,3) refl])
  moreover have "takes_ok sz ?h"
  proof -
    have "r_pos g ! j \<le> pos_w g" if "j < length (r_pos g)" for j
      using sorted_last [OF _ that] D(2) O by (fastforce simp: positions_ok_def)
    with S(2) show ?thesis by (auto simp: takes_ok_def intro!: take_ok_after [OF _ D(3) base(1) sz0])
  qed
  ultimately have "simulates sz ?h t N ?b" using S(4) seen by (simp add: simulates_def t)
  moreover have "seq_op sz (Put N xs) (b, seen_items sz g s) = Some (?b, seen_items sz ?h t)" using put items by simp
  ultimately show ?thesis using inv' by blast
qed

lemma sim_p_load:
  assumes inv: "weak_inv sz g s" and sim: "simulates sz g s N b" and sz: "2 < sz" "2 * sz \<le> SIZE_T" and at: "p_at s = P_Idle"
    and loads: "atomic_load Relaxed Idx_W k (p_view s) (indices s) = Some (w, v1)"
      "atomic_load Acquire Idx_R j v1 (indices s) = Some (r, v2)"
    and t: "t = s\<lparr>p_at := P_Loaded n w r, p_view := v2\<rparr>"
  shows "\<exists>ks b'. seq_ops sz (map Take ks) (b, seen_items sz g s) = Some (b', seen_items sz g t) \<and> weak_inv sz g t \<and>
    simulates sz g t n b'"
proof -
  note D = weak_invD [OF inv]
  have S: "state_at sz g (seen_r g s) b" "takes_ok sz g" "\<And>off ys. c_at s \<noteq> C_Read off 0 ys"
    using sim by (simp_all add: simulates_def)
  have own: "Suc (seen (p_view s) Idx_W) = length (indices s Idx_W)" using D(1) unfolding views_ok_def by blast
  have v1: "v1 = p_view s" by (rule load_own(2) [OF loads(1) own])
  note L = loaded_seen [OF D(1) loads(2) [unfolded v1]]
  have inv': "weak_inv sz g t" using inv_p_load [OF inv at loads] t by simp
  have seen: "seen (p_view t) Idx_R = j" using L(1) t by simp
  have "j < length (r_pos g)" using L(3) positions_lengths [OF D(2)] by simp
  from replay_takes [OF inv S(2,1) order_refl L(2) this sz] obtain ks b' where
    b': "seq_ops sz (map Take ks) (b, seen_items sz g s) = Some (b', seen_items sz g t)" "state_at sz g (seen_r g t) b'"
    unfolding seen by blast
  have "w = bip_w b'" "r = bip_r b'" using b'(2) weak_invD(7) [OF inv'] t by (simp_all add: state_at_def)
  then have "simulates sz g t n b'" using b'(2) S(2,3) t by (simp add: simulates_def)
  with b'(1) inv' show ?thesis by blast
qed

lemma sim_acquire:
  assumes inv: "weak_inv sz g s" and sim: "simulates sz g s N b" and at: "p_at s = P_Loaded n w r"
    and acq: "write_acquire sz n (local_bip s r w 0) = (p, c)"
  shows "write_acquire sz N b = (p, b\<lparr>write_wrapped := write_wrapped c\<rparr>)" and "n = N" and "\<not> write_wrapped (local_bip s r w 0)"
proof -
  from sim at have n: "n = N" "w = bip_w b" "r = bip_r b" and nw: "\<not> write_wrapped b" by (simp_all add: simulates_def state_at_def)
  show local: "\<not> write_wrapped (local_bip s r w 0)" using weak_invD(7) [OF inv] at by (simp add: local_bip_def)
  have "bip_w b = bip_w (local_bip s r w 0)" "bip_r b = bip_r (local_bip s r w 0)"
    unfolding local_bip_def bip.simps n by (rule refl)+
  then show "write_acquire sz N b = (p, b\<lparr>write_wrapped := write_wrapped c\<rparr>)"
    unfolding n(1) [symmetric] by (rule acquire_same [OF acq _ _ local nw])
  show "n = N" by (rule n(1))
qed

lemma sim_no_space:
  assumes inv: "weak_inv sz g s" and sim: "simulates sz g s N b" and at: "p_at s = P_Loaded n w r"
    and acq: "write_acquire sz n (local_bip s r w 0) = (None, c)"
  shows "seq_op sz (Put N ys) (b, f) = Some (b, f)"
proof -
  note A = sim_acquire [OF inv sim at acq]
  have "c = local_bip s r w 0" using acq by (auto simp: write_acquire_def Let_def split: if_splits)
  with A sim have "write_acquire sz N b = (None, b)" by (simp add: simulates_def state_at_def)
  then show ?thesis by (simp add: put_chunk_def)
qed

lemma sim_release:
  assumes inv: "weak_inv sz g s" and sim: "simulates sz g s N b" and sz: "2 < sz" "2 * sz \<le> SIZE_T" and at: "p_at s = P_Fill off n xs"
    and loads: "atomic_load Relaxed Idx_W k (p_view s) (indices s) = Some (w, v1)"
      "if p_wrapped s then (i, v2) = (0, v1) else atomic_load Relaxed Idx_I m v1 (indices s) = Some (i, v2)"
    and rel: "write_release sz (length xs) (local_bip s 0 w i) = Some c"
    and same: "cells t = cells s" "p_view t = v2"
  shows "put_done sz g t N b (bip_i c) (bip_w c) xs"
proof -
  let ?base = "fill_base sz g s" and ?b = "b\<lparr>write_wrapped := p_wrapped s\<rparr>"
  note L = release_loads [OF inv at loads]
  from sim at have bw: "bip_w b = pos_w g mod sz" "bip_i b = limit_at sz (lap_end g) (pos_w g)" "\<not> write_wrapped b"
    and acq: "write_acquire sz N b = (Some off, ?b)" by (simp_all add: simulates_def state_at_def)
  from release_ok [OF inv sz at L(1,3)] rel have c: "bip_w c = (?base + length xs) mod sz"
    "bip_i c = limit_at sz (laps_after sz g ?base) (?base + length xs)" by auto
  from weak_invD(7) [OF inv] at have P: "off = ?base mod sz" "staged sz g s ?base xs" by simp_all
  have "write_release sz (length xs) (bip_fill off xs ?b) =
      Some ((bip_fill off xs ?b)\<lparr>write_wrapped := False, bip_w := bip_w c, bip_i := bip_i c\<rparr>)"
    using bw L(1,3) by (intro release_same [OF rel]) (simp_all add: local_bip_def bip_fill_def)
  moreover have "(bip_fill off xs ?b)\<lparr>write_wrapped := False, bip_w := bip_w c, bip_i := bip_i c\<rparr> =
      (bip_fill off xs b)\<lparr>bip_w := bip_w c, bip_i := bip_i c\<rparr>" using bw(3) by (cases b) (simp add: bip_fill_def cong: if_cong)
  ultimately have "put_chunk (write_acquire sz) bip_fill (write_release sz) N xs b =
      Some ((bip_fill (?base mod sz) xs b)\<lparr>bip_w := bip_w c, bip_i := bip_i c\<rparr>)"
    unfolding put_chunk_def acq P(1) [symmetric] by simp
  moreover have "staged sz g t ?base xs" using P(2) same L(2) by (simp add: staged_def)
  ultimately show ?thesis using c unfolding put_done_def by blast
qed

text \<open>Every step of the producer.\<close>

lemma sim_producer:
  assumes step: "weak_step sz s t" and inv: "weak_inv sz g s" and sim: "simulates sz g s N b" and sz: "2 < sz" "2 * sz \<le> SIZE_T"
    and moved: "p_at t \<noteq> p_at s"
  shows "\<exists>ops h N' b'. seq_ops sz ops (b, seen_items sz g s) = Some (b', seen_items sz h t) \<and> weak_inv sz h t \<and>
    simulates sz h t N' b' \<and> puts ops = finished_put N ys (p_at s) (p_at t) \<and> (p_at s \<noteq> P_Idle \<longrightarrow> N' = N)"
proof -
  note D = weak_invD [OF inv]
  from sim have S: "state_at sz g (seen_r g s) b" "takes_ok sz g" "producer_sim sz g s N b (p_at s)" "\<And>off ys. c_at s \<noteq> C_Read off 0 ys"
    by (simp_all add: simulates_def)
  have stay: ?thesis
    if "weak_inv sz g t" "p_at s \<noteq> P_Idle" "finished_put N ys (p_at s) (p_at t) = []" "seen_r g t = seen_r g s"
      "c_at t = c_at s" "producer_sim sz g t N b (p_at t)"
  proof -
    have "simulates sz g t N b" using that S by (simp add: simulates_def)
    moreover have "seq_ops sz [] (b, seen_items sz g s) = Some (b, seen_items sz g t)" using that(4) by simp
    ultimately show ?thesis using that(1,3) by (metis puts.simps(1))
  qed
  show ?thesis
    using step
  proof cases
    case (p_load k w v1 j r v2 n)
    from sim_p_load [OF inv sim sz p_load(2-4,1)] obtain ks b' where
      "seq_ops sz (map Take ks) (b, seen_items sz g s) = Some (b', seen_items sz g t)" "weak_inv sz g t" "simulates sz g t n b'" by blast
    with p_load(1,2) show ?thesis by (intro exI [of _ "map Take ks"] exI [of _ g] exI [of _ n] exI [of _ b']) simp
  next
    case (p_acquire n w r off c)
    note acq = sim_acquire [OF inv sim p_acquire(2,3)]
    have "weak_inv sz g t" unfolding p_acquire(1) by (rule inv_p_acquire [OF inv sz p_acquire(2,3)])
    then show ?thesis by (rule stay) (simp_all add: p_acquire(1,2) acq(1,2))
  next
    case (p_no_space n w r c)
    have "seq_ops sz [Put N ys] (b, seen_items sz g s) = Some (b, seen_items sz g t)"
      using sim_no_space [OF inv sim p_no_space(2,3)] p_no_space(1) by simp
    moreover have "simulates sz g t N b" using S p_no_space(1) by (simp add: simulates_def)
    moreover have "weak_inv sz g t" using inv_p_no_space [OF inv p_no_space(2)] p_no_space(1) by simp
    ultimately show ?thesis using p_no_space(1,2) sim_acquire(2) [OF inv sim p_no_space(2,3)]
      by (intro exI [of _ "[Put N ys]"] exI [of _ g] exI [of _ N] exI [of _ b]) simp
  next
    case (p_write off n xs x)
    have "weak_inv sz g t" unfolding p_write(1) by (rule inv_p_write [OF inv sz(1) p_write(2,3)])
    then show ?thesis by (rule stay) (use S(3) p_write(1,2) in simp_all)
  next
    case (p_release off n xs k w v1 i v2 m c)
    have "weak_inv sz g t" unfolding p_release(1) by (rule inv_p_release [OF inv sz p_release(2-5)])
    moreover have "put_done sz g t N b (bip_i c) (bip_w c) xs"
      by (rule sim_release [OF inv sim sz p_release(2-5)]) (simp_all add: p_release(1))
    ultimately show ?thesis using release_loads(2) [OF inv p_release(2-4)] by (intro stay) (simp_all add: p_release(1,2))
  next
    case (p_assert off n xs k w v1 i v2 m)
    note L = release_loads [OF inv p_assert(2-4)]
    from release_ok [OF inv sz p_assert(2) L(1,3)] p_assert(5) show ?thesis by auto
  next
    case (p_store_i i w xs v1 mem)
    note st = store_facts [OF p_store_i(3)]
    from D(7) p_store_i(2) have lim: "map msg_val (indices s Idx_I) = limits sz g" by simp
    have "put_done sz g s N b i w xs" using S(3) p_store_i(2) by simp
    then have "put_done sz g t N b i w xs" using st(3) p_store_i(1) by (simp add: put_done_def staged_def)
    moreover have "map msg_val (indices t Idx_I) = limits sz g @ [i]" using st(1) lim p_store_i(1) by simp
    moreover have "weak_inv sz g t" unfolding p_store_i(1) by (rule inv_p_store_i [OF inv p_store_i(2,3)])
    ultimately show ?thesis using st(3) by (intro stay) (auto simp: p_store_i(1,2))
  next
    case (p_store_w w xs v1 mem)
    from sim_store_w [OF inv sim sz(1) p_store_w(2,3,1)] obtain h b' where
      "seq_op sz (Put N xs) (b, seen_items sz g s) = Some (b', seen_items sz h t)" "weak_inv sz h t" "simulates sz h t N b'" by blast
    with p_store_w(1,2) show ?thesis
      by (intro exI [of _ "[Put N xs]"] exI [of _ h] exI [of _ N] exI [of _ b']) simp
  qed (use moved in \<open>simp_all\<close>)
qed

text \<open>When the producer is brought up to date, the sequential buffer is the shared one.\<close>

lemma sim_caught_up:
  assumes inv: "weak_inv sz g s" and sim: "simulates sz g s N b" and sz: "2 < sz" "2 * sz \<le> SIZE_T"
  shows "\<exists>ks b'. seq_ops sz (map Take ks) (b, seen_items sz g s) = Some (b', released s) \<and>
    bip_contents b' = bip_contents (latest s)"
proof -
  note D = weak_invD [OF inv]
  note O = positions_order [OF D(1,2)]
  from sim have S: "state_at sz g (seen_r g s) b" "takes_ok sz g" by (simp_all add: simulates_def)
  have ne: "r_pos g \<noteq> []" using D(2) by (simp add: positions_ok_def)
  have "seen (p_view s) Idx_R < length (r_pos g)" using D(1) positions_lengths [OF D(2)] unfolding views_ok_def by metis
  then have k: "seen (p_view s) Idx_R \<le> length (r_pos g) - 1" "length (r_pos g) - 1 < length (r_pos g)" by simp_all
  have last: "r_pos g ! (length (r_pos g) - 1) = pos_r g" using ne by (simp add: last_conv_nth)
  from replay_takes [OF inv S(2,1) order_refl k sz] obtain ks b' where
    1: "seq_ops sz (map Take ks) (b, seen_items sz g s) = Some (b', items sz (lap_end g) (item_at g) 0 (pos_r g))"
    and st: "state_at sz g (pos_r g) b'" unfolding last by blast
  have "released s = items sz (lap_end g) (item_at g) 0 (pos_r g)" using D(4) by (simp add: data_ok_def)
  moreover have "bip_contents b' = items sz (lap_end g) (item_at g) (pos_r g) (pos_w g)"
  proof -
    have "pos_r g \<in> set (r_pos g)" "pos_r g \<le> pos_w g" using ne O by simp_all
    note i = state_at_inv(2) [OF st D(3) this O(5) sz]
    have "pos_r g mod sz \<le> lap_end g (pos_r g div sz)" using D(3) ne by (simp add: laps_ok_def)
    with st i show ?thesis
      by (intro contents_items [OF D(3) \<open>pos_r g \<le> pos_w g\<close> O(5)]) (simp_all add: state_at_def)
  qed
  ultimately show ?thesis using 1 latest_contents [OF inv] by auto
qed

end
