(* ===== verification/QueryProcessor.thy ===== *)
theory QueryProcessor
  imports Bipartite "HOL-Library.Sublist"
begin

text \<open>
  \<^verbatim>\<open>src/psql_proxy/query_processor.cpp\<close> and \<^verbatim>\<open>file_writer.cpp\<close> with their interfaces
  \<^verbatim>\<open>message_logger\<close> and \<^verbatim>\<open>data_processor\<close>: the query log.  The I/O thread adds messages to
  a bipartite buffer, the writer thread moves them to a file.  The operations are the client
  patterns of \<open>Buffer_Interface\<close> on the model of the buffer, so their effect on its contents comes
  from the interpretation \<open>bip\<close>; what two threads may do step by step is in \<open>Spsc\<close>.
\<close>

section \<open>query\_processor\<close>

definition CHUNK_SZ :: nat where "CHUNK_SZ = 1024"
definition BUFF_SZ :: nat where "BUFF_SZ = 2 * CHUNK_SZ"

record query_processor =
  query_buffer :: "byte bip"
  separator :: byte

definition query_processor_new :: "(nat \<Rightarrow> byte) \<Rightarrow> byte \<Rightarrow> query_processor" where
  "query_processor_new mem sep = \<lparr>query_buffer = bip_new mem, separator = sep\<rparr>"

text \<open>
  The length of the next piece of the rest of a message: \<^verbatim>\<open>last = std::next(pos + CHUNK_SZ)\<close>
  is one past \<^verbatim>\<open>pos + CHUNK_SZ\<close>.
\<close>

definition piece_length :: "byte list \<Rightarrow> nat" where
  "piece_length rest = (if CHUNK_SZ < length rest then CHUNK_SZ + 1 else length rest)"

text \<open>The do-while loop of \<open>_add_message\<close>; \<open>None\<close> is a failed assertion of the buffer.\<close>

function add_pieces :: "byte list \<Rightarrow> byte bip \<Rightarrow> byte bip option" where
  "add_pieces rest b =
     (let n = piece_length rest
      in case put_chunk (write_acquire BUFF_SZ) bip_fill (write_release BUFF_SZ) n (take n rest) b of
           None \<Rightarrow> None
         | Some b' \<Rightarrow> if drop n rest \<noteq> [] then add_pieces (drop n rest) b' else Some b')"
  by pat_completeness auto
termination
  by (relation "measure (\<lambda>(rest, b). length rest)") (auto simp: piece_length_def)

declare add_pieces.simps [simp del]

definition add_message :: "byte list \<Rightarrow> query_processor \<Rightarrow> query_processor option" where
  "add_message message q =
     (case add_pieces message (query_buffer q) of
        None \<Rightarrow> None
      | Some b \<Rightarrow>
          map_option (\<lambda>b'. q\<lparr>query_buffer := b'\<rparr>)
            (put_chunk (write_acquire BUFF_SZ) bip_fill (write_release BUFF_SZ) 1 [separator q] b))"

text \<open>
  \<open>_process\<close>; the callback is given the acquired bytes and says how many it took.
\<close>

definition process :: "(byte list \<Rightarrow> nat) \<Rightarrow> query_processor \<Rightarrow> (nat \<times> query_processor) option" where
  "process callback q =
     map_option (\<lambda>(written_chars, b). (written_chars, q\<lparr>query_buffer := b\<rparr>))
       (take_chunk read_acquire bip_view (read_release BUFF_SZ) callback (query_buffer q))"

section \<open>file\_writer\<close>

text \<open>
  The state of the writer thread: the log, the bytes accepted by the file's stream buffer, how
  many of them have been flushed, and the time of the last flush in nanoseconds.
\<close>

record file_writer =
  fw_processor :: query_processor
  fw_file :: "byte list"
  fw_flushed :: nat
  fw_tm :: int

text \<open>
  What the outside decides in one round: whether the context has been stopped, how many bytes
  \<^verbatim>\<open>sputn\<close> accepts (it never accepts more than it is given), and the clock.
\<close>

record writer_round =
  stop_requested :: bool
  sputn :: "byte list \<Rightarrow> nat"
  now_ns :: int

definition sputn_count :: "(byte list \<Rightarrow> nat) \<Rightarrow> byte list \<Rightarrow> nat" where
  "sputn_count f bs = min (f bs) (length bs)"

definition flush :: "file_writer \<Rightarrow> file_writer" where
  "flush w = w\<lparr>fw_flushed := length (fw_file w)\<rparr>"

definition readable :: "query_processor \<Rightarrow> byte list" where
  "readable q = (case read_acquire (query_buffer q) of
     ((None, len), b) \<Rightarrow> [] | ((Some off, len), b) \<Rightarrow> bip_view b off len)"

text \<open>The body of the while loop; sleeping has no effect on the state.\<close>

definition writer_body :: "writer_round \<Rightarrow> file_writer \<Rightarrow> file_writer option" where
  "writer_body rd w =
     (case process (sputn_count (sputn rd)) (fw_processor w) of
        None \<Rightarrow> None
      | Some (written_chars, q) \<Rightarrow>
          (let w1 = w\<lparr>fw_processor := q,
                      fw_file := fw_file w @ take written_chars (readable (fw_processor w))\<rparr>;
               elapsed = now_ns rd - fw_tm w
           in Some (if 100 \<le> elapsed div 1000000 then (flush w1)\<lparr>fw_tm := now_ns rd\<rparr> else w1)))"

text \<open>
  One turn of the writer thread: before it, the I/O thread has added some messages.  The result
  says whether the thread goes on.
\<close>

fun add_messages :: "byte list list \<Rightarrow> query_processor \<Rightarrow> query_processor option" where
  "add_messages [] q = Some q"
| "add_messages (m # ms) q = (case add_message m q of None \<Rightarrow> None | Some q' \<Rightarrow> add_messages ms q')"

fun writer_run :: "(byte list list \<times> writer_round) list \<Rightarrow> file_writer \<Rightarrow> (bool \<times> file_writer) option" where
  "writer_run [] w = Some (True, w)"
| "writer_run ((ms, rd) # rounds) w =
     (case add_messages ms (fw_processor w) of
        None \<Rightarrow> None
      | Some q \<Rightarrow>
          (let w1 = w\<lparr>fw_processor := q\<rparr>
           in if stop_requested rd then Some (False, flush w1)
              else (case writer_body rd w1 of None \<Rightarrow> None | Some w2 \<Rightarrow> writer_run rounds w2)))"

section \<open>Invariant and abstraction\<close>

lemma log_sizes: "BUFF_SZ = 2048" "CHUNK_SZ = 1024"
  by (simp_all add: BUFF_SZ_def CHUNK_SZ_def)

text \<open>
  The buffer between two operations: no reservation is open, and its write index is at the start
  behind the read index only because the data before it fills the array to its end.
\<close>

definition log_inv :: "byte bip \<Rightarrow> bool" where
  "log_inv b \<longleftrightarrow> bip_inv BUFF_SZ b \<and> \<not> write_wrapped b \<and>
     (bip_w b < bip_r b \<longrightarrow> 0 < bip_w b \<or> bip_i b = BUFF_SZ)"

definition qp_inv :: "query_processor \<Rightarrow> bool" where
  "qp_inv q \<longleftrightarrow> log_inv (query_buffer q)"

definition qp_log :: "query_processor \<Rightarrow> byte list" where
  "qp_log q = bip_contents (query_buffer q)"

lemma qp_new [simp]:
  "qp_inv (query_processor_new mem sep)" "qp_log (query_processor_new mem sep) = []"
  "separator (query_processor_new mem sep) = sep"
  by (simp_all add: qp_inv_def log_inv_def qp_log_def query_processor_new_def log_sizes SIZE_T_def)
    (simp_all add: bip_new_def)

text \<open>The pieces a message is cut into.\<close>

function pieces :: "byte list \<Rightarrow> byte list list" where
  "pieces rest = (let n = piece_length rest
                  in take n rest # (if drop n rest \<noteq> [] then pieces (drop n rest) else []))"
  by pat_completeness auto
termination
  by (relation "measure length") (auto simp: piece_length_def)

declare pieces.simps [simp del]

lemma concat_pieces: "concat (pieces m) = m"
proof (induction m rule: pieces.induct)
  case (1 rest)
  then show ?case by (simp add: pieces.simps [of rest] Let_def)
qed

text \<open>One acquire, copy and release on the log.\<close>

abbreviation put :: "byte list \<Rightarrow> byte bip \<Rightarrow> byte bip option" where
  "put xs \<equiv> put_chunk (write_acquire BUFF_SZ) bip_fill (write_release BUFF_SZ) (length xs) xs"

lemma put_indices:
  assumes "log_inv b" and "put xs b = Some b'" and inv': "bip_inv BUFF_SZ b'"
  shows "\<not> write_wrapped b'" and "bip_r b' = bip_r b"
    and "bip_w b' < bip_r b' \<Longrightarrow> 0 < bip_w b' \<or> bip_i b' = BUFF_SZ"
    and "bip_r b = bip_w b \<Longrightarrow> 2 * length xs < BUFF_SZ \<Longrightarrow> fst (write_acquire BUFF_SZ 1 b') \<noteq> None"
proof -
  let ?sz = BUFF_SZ and ?n = "length xs"
  from assms(1) have inv: "bip_inv ?sz b" and ww: "\<not> write_wrapped b"
    and i: "bip_w b < bip_r b \<longrightarrow> 0 < bip_w b \<or> bip_i b = ?sz" by (auto simp: log_inv_def)
  note bounds = bip_inv_bounds [OF inv]
  have cell: "fst (write_acquire ?sz 1 b') \<noteq> None"
    if "if bip_w b' < bip_r b' then bip_w b' + 2 \<le> bip_r b'
        else bip_w b' + 2 \<le> ?sz + bip_r b' \<and> bip_w b' < ?sz"
    using that unfolding write_acquire_eq [OF inv'] by (cases "bip_w b' < bip_r b'") auto
  consider (none) "write_acquire ?sz ?n b = (None, b)" "bip_r b = bip_w b \<longrightarrow> ?sz < 2 * ?n"
    | (linear) "write_acquire ?sz ?n b = (Some (bip_w b), b)" "bip_w b + ?n \<le> ?sz"
        "bip_w b < bip_r b \<longrightarrow> bip_w b + ?n < bip_r b" "bip_w b + ?n = ?sz \<longrightarrow> 0 < bip_r b"
    | (wrap) "write_acquire ?sz ?n b = (Some 0, b\<lparr>write_wrapped := True\<rparr>)" "0 < ?n" "?n < bip_r b"
        "bip_r b \<le> bip_w b" "bip_r b = bip_w b \<longrightarrow> ?sz < bip_w b + ?n"
  proof (cases "bip_w b < bip_r b")
    case True
    show ?thesis
    proof (cases "?n \<le> bip_r b - bip_w b - 1")
      case fits: True
      with True have "write_acquire ?sz ?n b = (Some (bip_w b), b)" by (simp add: write_acquire_eq [OF inv])
      moreover from True fits have "bip_w b + ?n < bip_r b" by linarith
      ultimately show ?thesis using that(2) bounds by simp
    next
      case full: False
      with True have "write_acquire ?sz ?n b = (None, b)" by (simp add: write_acquire_eq [OF inv])
      with True that(1) show ?thesis by simp
    qed
  next
    case False
    show ?thesis
    proof (cases "?n \<le> min (?sz - (bip_w b - bip_r b) - 1) (?sz - bip_w b)")
      case True
      then have "?n \<le> ?sz - (bip_w b - bip_r b) - 1" "?n \<le> ?sz - bip_w b" by simp_all
      then have "bip_w b + ?n \<le> ?sz" "bip_w b + ?n = ?sz \<longrightarrow> 0 < bip_r b"
        using bounds False by linarith+
      moreover have "write_acquire ?sz ?n b = (Some (bip_w b), b)"
        using True False by (simp add: write_acquire_eq [OF inv])
      ultimately show ?thesis using that(2) False by simp
    next
      case long: False
      show ?thesis
      proof (cases "?n \<le> bip_r b - 1")
        case True
        from long have n: "\<not> ?n \<le> ?sz - (bip_w b - bip_r b) - 1 \<or> \<not> ?n \<le> ?sz - bip_w b" by auto
        then have "0 < ?n" by linarith
        moreover from this True have "?n < bip_r b" by linarith
        moreover from n bounds True False have "bip_r b = bip_w b \<longrightarrow> ?sz < bip_w b + ?n" by linarith
        moreover have "write_acquire ?sz ?n b = (Some 0, b\<lparr>write_wrapped := True\<rparr>)"
          by (simp only: write_acquire_eq [OF inv] True False long if_True if_False)
        ultimately show ?thesis using that(3) False by simp
      next
        case none: False
        from long have n: "\<not> ?n \<le> ?sz - (bip_w b - bip_r b) - 1 \<or> \<not> ?n \<le> ?sz - bip_w b" by auto
        with none bounds have "bip_r b = bip_w b \<longrightarrow> ?sz < 2 * ?n" by linarith
        moreover have "write_acquire ?sz ?n b = (None, b)"
          by (simp only: write_acquire_eq [OF inv] none False long if_False)
        ultimately show ?thesis using that(1) by simp
      qed
    qed
  qed
  then have "\<not> write_wrapped b' \<and> bip_r b' = bip_r b \<and>
      (bip_w b' < bip_r b' \<longrightarrow> 0 < bip_w b' \<or> bip_i b' = ?sz) \<and>
      (bip_r b = bip_w b \<longrightarrow> 2 * ?n < ?sz \<longrightarrow>
        (if bip_w b' < bip_r b' then bip_w b' + 2 \<le> bip_r b'
         else bip_w b' + 2 \<le> ?sz + bip_r b' \<and> bip_w b' < ?sz))"
  proof cases
    case none
    with assms(2) ww i bounds show ?thesis by (auto simp: put_chunk_def)
  next
    case linear
    let ?b1 = "bip_fill (bip_w b) xs b"
    have "bip_inv ?sz ?b1" using inv unfolding bip_inv_def by auto
    then have "b' = ?b1\<lparr>write_wrapped := False, bip_i := max (bip_i b) (bip_w b + ?n),
        bip_w := (if bip_w b + ?n = ?sz then 0 else bip_w b + ?n)\<rparr>"
      using assms(2) linear(1,2) ww write_release_eq [of ?sz ?b1 ?n]
      by (simp add: put_chunk_def Let_def)
    with linear i bounds show ?thesis by (auto simp: log_sizes max_def)
  next
    case wrap
    let ?b1 = "bip_fill 0 xs (b\<lparr>write_wrapped := True\<rparr>)"
    have "bip_inv ?sz ?b1" using inv wrap(2-4) unfolding bip_inv_def by auto
    then have "b' = ?b1\<lparr>write_wrapped := False, bip_i := max (bip_w b) ?n, bip_w := ?n\<rparr>"
      using assms(2) wrap bounds ww write_release_eq [of ?sz ?b1 ?n]
      by (simp add: put_chunk_def Let_def)
    with wrap bounds show ?thesis by (auto simp: log_sizes)
  qed
  then show "\<not> write_wrapped b'" and "bip_r b' = bip_r b"
    and "bip_w b' < bip_r b' \<Longrightarrow> 0 < bip_w b' \<or> bip_i b' = BUFF_SZ"
    and "bip_r b = bip_w b \<Longrightarrow> 2 * length xs < BUFF_SZ \<Longrightarrow> fst (write_acquire BUFF_SZ 1 b') \<noteq> None"
    using cell by auto
qed

text \<open>The contract of the interface, on the log.\<close>

lemma put_log:
  assumes "log_inv b"
  shows "\<exists>b'. put xs b = Some b' \<and> log_inv b' \<and> bip_r b' = bip_r b \<and>
    bip_contents b' = bip_contents b @ (if fst (write_acquire BUFF_SZ (length xs) b) = None then [] else xs) \<and>
    (bip_r b = bip_w b \<longrightarrow> 2 * length xs < BUFF_SZ \<longrightarrow>
       fst (write_acquire BUFF_SZ (length xs) b) \<noteq> None \<and> fst (write_acquire BUFF_SZ 1 b') \<noteq> None)"
proof -
  from assms have inv: "bip_inv BUFF_SZ b" and ready: "bip_ready BUFF_SZ (length xs) b"
    by (auto simp: log_inv_def bip_ready_def)
  from bip.put_chunk_ok [OF inv ready order.refl]
  obtain b' where b': "put xs b = Some b'" "bip_inv BUFF_SZ b'"
    "bip_contents b' = bip_contents b @ (if fst (write_acquire BUFF_SZ (length xs) b) = None then [] else xs)"
    by auto
  note ind = put_indices [OF assms b'(1,2)]
  have "fst (write_acquire BUFF_SZ (length xs) b) \<noteq> None"
    if "bip_r b = bip_w b" and "2 * length xs < BUFF_SZ"
    using that bip_inv_bounds [OF inv] unfolding write_acquire_eq [OF inv] by (auto simp: min_def)
  with b' ind show ?thesis by (auto simp: log_inv_def)
qed

lemma put_log_subseq:
  assumes "log_inv b"
  shows "\<exists>b' ps. put xs b = Some b' \<and> log_inv b' \<and> subseq ps [xs] \<and>
    bip_contents b' = bip_contents b @ concat ps"
proof -
  let ?ps = "if fst (write_acquire BUFF_SZ (length xs) b) = None then [] else [xs]"
  obtain b' where "put xs b = Some b'" "log_inv b'"
    "bip_contents b' = bip_contents b @ (if fst (write_acquire BUFF_SZ (length xs) b) = None then [] else xs)"
    using put_log [OF assms, of xs] by blast
  then have "put xs b = Some b' \<and> log_inv b' \<and> subseq ?ps [xs] \<and> bip_contents b' = bip_contents b @ concat ?ps"
    by simp
  then show ?thesis by blast
qed

lemma piece_length_take: "piece_length rest = length (take (piece_length rest) rest)"
  by (simp add: piece_length_def)

lemma add_pieces_log:
  "log_inv b \<Longrightarrow> \<exists>b' ps. add_pieces rest b = Some b' \<and> log_inv b' \<and> subseq ps (pieces rest) \<and>
     bip_contents b' = bip_contents b @ concat ps"
proof (induction rest b rule: add_pieces.induct)
  case (1 rest b)
  let ?n = "piece_length rest" and ?more = "drop (piece_length rest) rest \<noteq> []"
  let ?xs = "take ?n rest" and ?rest = "drop ?n rest"
  have put_eq: "put_chunk (write_acquire BUFF_SZ) bip_fill (write_release BUFF_SZ) ?n ?xs b = put ?xs b"
    by (subst piece_length_take) simp
  obtain b1 ps1 where b1: "put ?xs b = Some b1" "log_inv b1" "subseq ps1 [?xs]"
    "bip_contents b1 = bip_contents b @ concat ps1"
    using put_log_subseq [OF "1.prems", of ?xs] by blast
  note add = add_pieces.simps [of rest b, unfolded Let_def put_eq b1(1) option.case]
    pieces.simps [of rest, unfolded Let_def]
  show ?case
  proof (cases ?more)
    case False
    with b1 show ?thesis unfolding add by auto
  next
    case True
    with "1.IH" [OF refl, unfolded put_eq, OF b1(1) True b1(2)] obtain b' ps2 where
      "add_pieces ?rest b1 = Some b'" "log_inv b'" "subseq ps2 (pieces ?rest)"
      "bip_contents b' = bip_contents b1 @ concat ps2"
      by blast
    moreover from this(3) b1(3) have "subseq (ps1 @ ps2) (?xs # pieces ?rest)"
      using list_emb_append_mono [of "(=)" ps1 "[?xs]" ps2 "pieces ?rest"] by simp
    ultimately show ?thesis using True b1(4) unfolding add by (auto intro!: exI [of _ "ps1 @ ps2"])
  qed
qed

lemma add_message_log:
  assumes "qp_inv q"
  shows "\<exists>q' ps. add_message m q = Some q' \<and> qp_inv q' \<and> separator q' = separator q \<and>
    subseq ps (pieces m @ [[separator q]]) \<and> qp_log q' = qp_log q @ concat ps"
proof -
  obtain b1 ps1 where b1: "add_pieces m (query_buffer q) = Some b1" "log_inv b1"
    "subseq ps1 (pieces m)" "bip_contents b1 = qp_log q @ concat ps1"
    using add_pieces_log [of "query_buffer q" m] assms by (auto simp: qp_inv_def qp_log_def)
  obtain b2 ps2 where b2: "put [separator q] b1 = Some b2" "log_inv b2" "subseq ps2 [[separator q]]"
    "bip_contents b2 = bip_contents b1 @ concat ps2"
    using put_log_subseq [OF b1(2), of "[separator q]"] by blast
  have "subseq (ps1 @ ps2) (pieces m @ [[separator q]])"
    using b1(3) b2(3) by (rule list_emb_append_mono)
  with b1 b2 show ?thesis
    by (auto simp: add_message_def qp_inv_def qp_log_def intro!: exI [of _ "ps1 @ ps2"])
qed

text \<open>Reading: the indices the reader does not own stay, and a full read moves to the write index.\<close>

lemma read_indices:
  assumes "log_inv b" and acq: "read_acquire b = ((Some off, len), b1)" and "n \<le> len"
    and rel: "read_release BUFF_SZ n b1 = Some b'"
  shows "bip_w b' = bip_w b \<and> bip_i b' = bip_i b \<and> write_wrapped b' = write_wrapped b \<and>
    (bip_w b' < bip_r b' \<longrightarrow> bip_w b < bip_r b) \<and>
    (n = len \<longrightarrow> bip_r b' \<noteq> bip_w b' \<longrightarrow>
       bip_w b < bip_r b \<and> bip_r b \<noteq> bip_i b \<and> (bip_r b' = 0 \<or> bip_r b' = bip_i b'))"
proof -
  from assms(1) have inv: "bip_inv BUFF_SZ b" and i: "bip_w b < bip_r b \<longrightarrow> 0 < bip_w b \<or> bip_i b = BUFF_SZ"
    by (auto simp: log_inv_def)
  note bounds = bip_inv_bounds [OF inv] and flags = bip_invD [OF inv]
  note eq = acq [unfolded read_acquire_eq [OF inv]]
  have neq: "bip_r b \<noteq> bip_w b" using eq by force
  consider (low) "bip_r b < bip_w b" "off = bip_r b" "len = bip_w b - bip_r b" "b1 = b" "\<not> read_wrapped b"
    | (wrap) "bip_w b < bip_r b" "bip_r b = bip_i b" "off = 0" "len = bip_w b" "b1 = b\<lparr>read_wrapped := True\<rparr>"
    | (high) "bip_w b < bip_r b" "bip_r b < bip_i b" "off = bip_r b" "len = bip_i b - bip_r b" "b1 = b"
        "\<not> read_wrapped b"
  proof (cases "bip_r b < bip_w b")
    case True
    with eq have "off = bip_r b" "len = bip_w b - bip_r b" "b1 = b" by auto
    moreover have "\<not> read_wrapped b" using flags(4) True by force
    ultimately show ?thesis using low True by blast
  next
    case False
    with neq have w: "bip_w b < bip_r b" by simp
    show ?thesis
    proof (cases "bip_r b = bip_i b")
      case True
      with eq neq False have "off = 0" "len = bip_w b" "b1 = b\<lparr>read_wrapped := True\<rparr>" by auto
      with wrap w True show ?thesis by blast
    next
      case i: False
      with eq neq False have "off = bip_r b" "len = bip_i b - bip_r b" "b1 = b" by auto
      moreover have "\<not> read_wrapped b" using flags(5) i by force
      moreover have "bip_r b < bip_i b" using flags(1) [OF w] i by simp
      ultimately show ?thesis using high w by blast
    qed
  qed
  then show ?thesis
  proof cases
    case low
    then have n: "n \<le> BUFF_SZ" "bip_r b + n < BUFF_SZ" "bip_r b + n \<le> bip_w b"
      using assms(3) bounds by linarith+
    then have "read_release BUFF_SZ n b = Some (b\<lparr>read_wrapped := False, bip_r := bip_r b + n\<rparr>)"
      using low(5) by (simp add: read_release_eq [OF inv])
    with rel low(4) have "b' = b\<lparr>read_wrapped := False, bip_r := bip_r b + n\<rparr>" by simp
    with low(3) n show ?thesis by simp
  next
    case wrap
    have "bip_inv BUFF_SZ b1" using inv wrap unfolding bip_inv_def by auto
    moreover have n: "n \<le> BUFF_SZ" "n < BUFF_SZ" using wrap(4) assms(3) bounds by linarith+
    ultimately have "read_release BUFF_SZ n b1 = Some (b1\<lparr>read_wrapped := False, bip_r := n\<rparr>)"
      using wrap(5) by (simp add: read_release_eq)
    with rel have "b' = b1\<lparr>read_wrapped := False, bip_r := n\<rparr>" by simp
    with wrap(1,4,5) assms(3) show ?thesis by simp
  next
    case high
    then have n: "n \<le> BUFF_SZ" "bip_r b + n \<le> BUFF_SZ" using assms(3) bounds by linarith+
    let ?r = "if bip_r b + n = BUFF_SZ then 0 else bip_r b + n"
    have "read_release BUFF_SZ n b = Some (b\<lparr>read_wrapped := False, bip_r := ?r\<rparr>)"
      using n high(6) by (simp add: read_release_eq [OF inv])
    with rel high(5) have b': "b' = b\<lparr>read_wrapped := False, bip_r := ?r\<rparr>" by simp
    have "n = len \<Longrightarrow> ?r = 0 \<or> ?r = bip_i b" using high(2,4) by simp
    with high(1,2) show ?thesis by (simp add: b')
  qed
qed

lemma process_log:
  assumes "qp_inv q" and f: "\<And>xs. f xs \<le> length xs"
  shows "\<exists>n q'. process f q = Some (n, q') \<and> qp_inv q' \<and> separator q' = separator q \<and>
    n = (if readable q = [] then 0 else f (readable q)) \<and> prefix (readable q) (qp_log q) \<and>
    (readable q = [] \<longleftrightarrow> qp_log q = []) \<and> qp_log q' = drop n (qp_log q)"
proof -
  let ?b = "query_buffer q"
  from assms(1) have log: "log_inv ?b" and inv: "bip_inv BUFF_SZ ?b"
    by (auto simp: qp_inv_def log_inv_def)
  obtain p len b1 where acq: "read_acquire ?b = ((p, len), b1)" by (metis surj_pair)
  show ?thesis
  proof (cases p)
    case None
    with acq bip.acq_r_None [OF inv] have "b1 = ?b" "bip_contents ?b = []" by auto
    with None acq assms(1) show ?thesis
      by (auto simp: process_def take_chunk_def readable_def qp_log_def)
  next
    case (Some off)
    note facts = bip.acq_r_Some [OF inv acq [unfolded Some]]
    have read: "readable q = take len (bip_contents ?b)"
      using facts acq Some by (simp add: readable_def)
    show ?thesis
    proof (cases "len = 0")
      case True
      then have "qp_inv (q\<lparr>query_buffer := b1\<rparr>)"
        using facts acq Some log inv
        by (auto simp: qp_inv_def log_inv_def read_acquire_eq [OF inv] split: if_splits)
      with True acq Some facts read show ?thesis
        by (auto simp: process_def take_chunk_def qp_log_def)
    next
      case False
      let ?n = "f (readable q)"
      have n: "?n \<le> len" using f [of "readable q"] read facts by simp
      obtain b2 where b2: "read_release BUFF_SZ ?n b1 = Some b2" "bip_inv BUFF_SZ b2"
        "bip_contents b2 = drop ?n (bip_contents ?b)"
        using bip.drop [OF inv acq [unfolded Some] n] by blast
      then have "log_inv b2"
        using read_indices [OF log acq [unfolded Some] n b2(1)] log by (auto simp: log_inv_def)
      with False acq Some facts read b2 show ?thesis
        by (auto simp: process_def take_chunk_def qp_log_def qp_inv_def Let_def take_is_prefix)
    qed
  qed
qed

text \<open>Two full reads empty the log and bring the indices together.\<close>

definition drained :: "query_processor \<Rightarrow> bool" where
  "drained q \<longleftrightarrow> bip_r (query_buffer q) = bip_w (query_buffer q)"

lemma drained_log: "drained q \<Longrightarrow> qp_log q = []"
  by (simp add: drained_def qp_log_def bip_contents_def)

lemma process_full:
  assumes "qp_inv q" and "process length q = Some (n, q')"
  shows "drained q' \<or>
    (let b = query_buffer q; b' = query_buffer q'
     in bip_w b < bip_r b \<and> bip_r b \<noteq> bip_i b \<and> (bip_r b' = 0 \<or> bip_r b' = bip_i b'))"
proof -
  let ?b = "query_buffer q"
  from assms(1) have log: "log_inv ?b" and inv: "bip_inv BUFF_SZ ?b"
    by (auto simp: qp_inv_def log_inv_def)
  obtain p len b1 where acq: "read_acquire ?b = ((p, len), b1)" by (metis surj_pair)
  show ?thesis
  proof (cases "p = None \<or> len = 0")
    case True
    have "bip_r ?b = bip_w ?b"
      using acq True bip_inv_bounds [OF inv] bip_invD(1) [OF inv] log
      by (auto simp: read_acquire_eq [OF inv] log_inv_def split: if_splits)
    moreover from this acq have "b1 = ?b" by (simp add: read_acquire_eq [OF inv])
    ultimately show ?thesis using True assms(2) acq
      by (auto simp: process_def take_chunk_def drained_def split: option.splits)
  next
    case False
    then obtain off where off: "p = Some off" by auto
    have "length (bip_view b1 off len) = len" by simp
    then obtain b2 where b2: "read_release BUFF_SZ len b1 = Some b2" "q' = q\<lparr>query_buffer := b2\<rparr>"
      using assms(2) acq off False by (auto simp: process_def take_chunk_def Let_def)
    show ?thesis
      using read_indices [OF log acq [unfolded off] order.refl b2(1)]
      by (auto simp: drained_def b2(2) Let_def)
  qed
qed

lemma process_twice:
  assumes "qp_inv q" and "process length q = Some (n, q1)" and "process length q1 = Some (m, q2)"
  shows "drained q2"
proof (rule ccontr)
  have inv1: "qp_inv q1" using process_log [OF assms(1), of length] assms(2) by auto
  assume "\<not> drained q2"
  with process_full [OF inv1 assms(3)]
  have 1: "bip_w (query_buffer q1) < bip_r (query_buffer q1)" "bip_r (query_buffer q1) \<noteq> bip_i (query_buffer q1)"
    by (auto simp: Let_def)
  then have "\<not> drained q1" by (auto simp: drained_def)
  with process_full [OF assms(1,2)] 1 show False by (auto simp: Let_def)
qed

section \<open>The writer thread\<close>

lemma sputn_count_le: "sputn_count f bs \<le> length bs"
  by (simp add: sputn_count_def)

lemma process_taken:
  assumes "qp_inv q" and "\<And>xs. f xs \<le> length xs" and "process f q = Some (n, q')"
  shows "qp_inv q'" and "separator q' = separator q"
    and "take n (readable q) @ qp_log q' = qp_log q"
proof -
  from process_log [OF assms(1,2)] assms(3)
  have 1: "qp_inv q'" "separator q' = separator q" "n = (if readable q = [] then 0 else f (readable q))"
    "prefix (readable q) (qp_log q)" "qp_log q' = drop n (qp_log q)" by auto
  then show "qp_inv q'" "separator q' = separator q" by simp_all
  from 1(3) assms(2) have "n \<le> length (readable q)" by simp
  with 1(4) have "take n (readable q) = take n (qp_log q)" by (auto elim!: prefixE)
  with 1(5) show "take n (readable q) @ qp_log q' = qp_log q" by simp
qed

text \<open>What a run has put out and still holds.\<close>

definition fw_output :: "file_writer \<Rightarrow> byte list" where
  "fw_output w = fw_file w @ qp_log (fw_processor w)"

lemma writer_body_output:
  assumes "qp_inv (fw_processor w)"
  shows "\<exists>w'. writer_body rd w = Some w' \<and> qp_inv (fw_processor w') \<and>
    separator (fw_processor w') = separator (fw_processor w) \<and> fw_output w' = fw_output w \<and>
    (\<exists>taken. fw_file w' = fw_file w @ taken)"
proof -
  let ?f = "sputn_count (sputn rd)" and ?q = "fw_processor w"
  note le = sputn_count_le [of "sputn rd"]
  obtain n q' where p: "process ?f ?q = Some (n, q')"
    using process_log [OF assms le] by blast
  note taken = process_taken [OF assms le p]
  show ?thesis
    using taken by (simp add: writer_body_def p Let_def fw_output_def flush_def)
qed

definition log_pieces :: "byte \<Rightarrow> byte list list \<Rightarrow> byte list list" where
  "log_pieces sep ms = concat (map (\<lambda>m. pieces m @ [[sep]]) ms)"

lemma add_messages_log:
  "qp_inv q \<Longrightarrow> \<exists>q' ps. add_messages ms q = Some q' \<and> qp_inv q' \<and> separator q' = separator q \<and>
     subseq ps (log_pieces (separator q) ms) \<and> qp_log q' = qp_log q @ concat ps"
proof (induction ms arbitrary: q)
  case Nil
  then show ?case by (auto simp: log_pieces_def)
next
  case (Cons m ms)
  obtain q1 ps1 where 1: "add_message m q = Some q1" "qp_inv q1" "separator q1 = separator q"
    "subseq ps1 (pieces m @ [[separator q]])" "qp_log q1 = qp_log q @ concat ps1"
    using add_message_log [OF Cons.prems] by blast
  obtain q2 ps2 where 2: "add_messages ms q1 = Some q2" "qp_inv q2" "separator q2 = separator q1"
    "subseq ps2 (log_pieces (separator q1) ms)" "qp_log q2 = qp_log q1 @ concat ps2"
    using Cons.IH [OF 1(2)] by blast
  have "subseq (ps1 @ ps2) ((pieces m @ [[separator q]]) @ log_pieces (separator q) ms)"
    using list_emb_append_mono [OF 1(4) 2(4)] 1(3) by simp
  with 1 2 show ?case by (auto simp: log_pieces_def intro!: exI [of _ "ps1 @ ps2"])
qed

lemma writer_run_output:
  "qp_inv (fw_processor w) \<Longrightarrow>
   \<exists>go w' ps. writer_run rounds w = Some (go, w') \<and> qp_inv (fw_processor w') \<and>
     subseq ps (log_pieces (separator (fw_processor w)) (concat (map fst rounds))) \<and>
     fw_output w' = fw_output w @ concat ps \<and> (\<exists>taken. fw_file w' = fw_file w @ taken)"
proof (induction rounds w rule: writer_run.induct)
  case (1 w)
  then show ?case by (auto simp: log_pieces_def)
next
  case (2 ms rd rounds w)
  let ?sep = "separator (fw_processor w)"
  obtain q ps1 where q: "add_messages ms (fw_processor w) = Some q" "qp_inv q" "separator q = ?sep"
    "subseq ps1 (log_pieces ?sep ms)" "qp_log q = qp_log (fw_processor w) @ concat ps1"
    using add_messages_log [OF "2.prems"] by blast
  let ?w1 = "w\<lparr>fw_processor := q\<rparr>"
  have split: "log_pieces ?sep (concat (map fst ((ms, rd) # rounds))) =
      log_pieces ?sep ms @ log_pieces ?sep (concat (map fst rounds))"
    by (simp add: log_pieces_def)
  have out1: "fw_output ?w1 = fw_output w @ concat ps1" using q(5) by (simp add: fw_output_def)
  show ?case
  proof (cases "stop_requested rd")
    case True
    have "subseq ps1 (log_pieces ?sep (concat (map fst ((ms, rd) # rounds))))"
      using list_emb_append_mono [OF q(4) list_emb_Nil, of "log_pieces ?sep (concat (map fst rounds))"]
      by (simp only: split append_Nil2)
    with True q out1 show ?thesis by (auto simp: flush_def fw_output_def)
  next
    case False
    obtain w2 where w2: "writer_body rd ?w1 = Some w2" "qp_inv (fw_processor w2)"
      "separator (fw_processor w2) = ?sep" "fw_output w2 = fw_output ?w1"
      "\<exists>taken. fw_file w2 = fw_file ?w1 @ taken"
      using writer_body_output [of ?w1 rd] q(2,3) by auto
    obtain go w' ps2 where w': "writer_run rounds w2 = Some (go, w')" "qp_inv (fw_processor w')"
      "subseq ps2 (log_pieces ?sep (concat (map fst rounds)))"
      "fw_output w' = fw_output w2 @ concat ps2" "\<exists>taken. fw_file w' = fw_file w2 @ taken"
      using "2.IH" [OF q(1) refl False w2(1,2)] w2(3) by auto
    have "subseq (ps1 @ ps2) (log_pieces ?sep (concat (map fst ((ms, rd) # rounds))))"
      unfolding split by (rule list_emb_append_mono [OF q(4) w'(3)])
    moreover have "writer_run ((ms, rd) # rounds) w = Some (go, w')"
      using False by (simp add: q(1) w2(1) w'(1))
    moreover have "\<exists>taken. fw_file w' = fw_file w @ taken" using w2(5) w'(5) by auto
    moreover have "fw_output w' = fw_output w @ concat (ps1 @ ps2)" by (simp add: w'(4) w2(4) out1)
    ultimately show ?thesis using w'(2) by blast
  qed
qed

text \<open>A message shorter than a piece, logged while the log is drained.\<close>

lemma add_message_drained:
  assumes "qp_inv q" and "drained q" and "length m < CHUNK_SZ"
  shows "\<exists>q'. add_message m q = Some q' \<and> qp_inv q' \<and> separator q' = separator q \<and>
    qp_log q' = m @ [separator q]"
proof -
  let ?b = "query_buffer q"
  have n: "piece_length m = length m" using assms(3) by (simp add: piece_length_def)
  have len: "2 * length m < BUFF_SZ" using assms(3) by (simp add: log_sizes)
  obtain b1 where b1: "put m ?b = Some b1" "log_inv b1" "bip_contents b1 = m"
    "fst (write_acquire BUFF_SZ 1 b1) \<noteq> None"
    using put_log [of ?b m] assms(1,2) len drained_log [OF assms(2)]
    by (auto simp: qp_inv_def drained_def qp_log_def)
  obtain b2 where "put [separator q] b1 = Some b2" "log_inv b2" "bip_contents b2 = m @ [separator q]"
    using put_log [OF b1(2), of "[separator q]"] b1(3,4) by auto
  with b1 show ?thesis
    by (simp add: add_message_def add_pieces.simps n qp_inv_def qp_log_def)
qed

section \<open>Properties\<close>

text \<open>A round in which the thread goes on and the file takes everything.\<close>

definition full_round :: "int \<Rightarrow> writer_round" where
  "full_round t = \<lparr>stop_requested = False, sputn = length, now_ns = t\<rparr>"

definition stop_round :: writer_round where
  "stop_round = \<lparr>stop_requested = True, sputn = length, now_ns = 0\<rparr>"

definition fw_new :: "query_processor \<Rightarrow> file_writer" where
  "fw_new q = \<lparr>fw_processor = q, fw_file = [], fw_flushed = 0, fw_tm = 0\<rparr>"

definition log_rounds :: "byte list list \<Rightarrow> (byte list list \<times> writer_round) list" where
  "log_rounds ms = concat (map (\<lambda>m. [([m], full_round 0), ([], full_round 0)]) ms)"

lemma full_round_body:
  assumes "qp_inv (fw_processor w)"
  shows "\<exists>n q' w'. process length (fw_processor w) = Some (n, q') \<and>
    writer_body (full_round t) w = Some w' \<and> fw_processor w' = q'"
proof -
  have "sputn_count length = length" by (rule ext) (simp add: sputn_count_def)
  moreover obtain n q' where "process length (fw_processor w) = Some (n, q')"
    using process_log [OF assms, of length] by auto
  ultimately show ?thesis
    by (auto simp: writer_body_def full_round_def Let_def flush_def)
qed

lemma log_rounds_step:
  assumes "qp_inv (fw_processor w)" and "drained (fw_processor w)" and "length m < CHUNK_SZ"
  shows "\<exists>w'. writer_run (log_rounds (m # ms) @ rest) w = writer_run (log_rounds ms @ rest) w' \<and>
    qp_inv (fw_processor w') \<and> drained (fw_processor w') \<and>
    separator (fw_processor w') = separator (fw_processor w) \<and>
    fw_file w' = fw_file w @ m @ [separator (fw_processor w)]"
proof -
  let ?sep = "separator (fw_processor w)"
  obtain q where q: "add_message m (fw_processor w) = Some q" "qp_inv q" "separator q = ?sep"
    "qp_log q = m @ [?sep]"
    using add_message_drained [OF assms] by blast
  let ?w1 = "w\<lparr>fw_processor := q\<rparr>"
  obtain n1 q1 w1 where w1: "process length q = Some (n1, q1)" "writer_body (full_round 0) ?w1 = Some w1"
    "fw_processor w1 = q1" using full_round_body [of ?w1 0] q(2) by auto
  have b1: "qp_inv q1" "separator q1 = ?sep" "fw_output w1 = fw_output ?w1"
    using writer_body_output [of ?w1 "full_round 0"] q(2,3) w1 by auto
  obtain n2 q2 w2 where w2: "process length q1 = Some (n2, q2)" "writer_body (full_round 0) w1 = Some w2"
    "fw_processor w2 = q2" using full_round_body [of w1 0] b1(1) w1(3) by auto
  have b2: "qp_inv q2" "separator q2 = ?sep" "fw_output w2 = fw_output w1"
    using writer_body_output [of w1 "full_round 0"] b1(1,2) w1(3) w2 by auto
  have dr: "drained q2" by (rule process_twice [OF q(2) w1(1) w2(1)])
  have "writer_run (log_rounds (m # ms) @ rest) w = writer_run (log_rounds ms @ rest) w2"
    using q(1) w1(2) w2(2) by (simp add: log_rounds_def full_round_def)
  moreover have "fw_file w2 = fw_file w @ m @ [?sep]"
    using b1(3) b2(3) q(4) w2(3) drained_log [OF dr] by (simp add: fw_output_def)
  ultimately show ?thesis using b2(1,2) dr w2(3) by blast
qed

text \<open>
  The log is never reordered, duplicated or corrupted: in every run of the I/O thread and the
  writer thread, whatever the file accepts in each round, what has been written to the file
  followed by what the log still holds is the concatenation of a subsequence of the pieces of the
  messages, each piece and each separator whole; the file only grows, and no assertion fails.
\<close>

theorem log_pieces_whole:
  assumes "qp_inv (fw_processor w)" and "fw_file w = []" and "qp_log (fw_processor w) = []"
  shows "\<exists>go w' ps. writer_run rounds w = Some (go, w') \<and>
    fw_file w' @ qp_log (fw_processor w') = concat ps \<and>
    subseq ps (log_pieces (separator (fw_processor w)) (concat (map fst rounds)))"
  using writer_run_output [OF assms(1), of rounds] assms(2,3) by (auto simp: fw_output_def)

theorem log_pieces_whole_witness:
  "\<exists>go w' ps. writer_run [([[65, 66]], full_round 0), ([], stop_round)]
      (fw_new (query_processor_new (\<lambda>_. 0) 10)) = Some (go, w') \<and>
    fw_file w' @ qp_log (fw_processor w') = concat ps \<and>
    subseq ps (log_pieces (separator (fw_processor (fw_new (query_processor_new (\<lambda>_. 0) 10))))
      (concat (map fst [([[65, 66]], full_round 0), ([], stop_round)])))"
  by (rule log_pieces_whole) (simp_all add: fw_new_def)

text \<open>
  C18. Messages shorter than \<open>CHUNK_SZ\<close>, each logged when the writer thread has caught up, all reach
  the file: it holds every message followed by the separator, all flushed, and the log is empty.
\<close>

theorem log_complete:
  assumes "qp_inv (fw_processor w)" and "drained (fw_processor w)"
    and "\<forall>m\<in>set ms. length m < CHUNK_SZ"
  shows "\<exists>w'. writer_run (log_rounds ms @ [([], stop_round)]) w = Some (False, w') \<and>
    fw_file w' = fw_file w @ concat (map (\<lambda>m. m @ [separator (fw_processor w)]) ms) \<and>
    fw_flushed w' = length (fw_file w') \<and> qp_log (fw_processor w') = []"
  using assms
proof (induction ms arbitrary: w)
  case Nil
  then show ?case by (simp add: log_rounds_def stop_round_def flush_def drained_log)
next
  case (Cons m ms)
  obtain w1 where "writer_run (log_rounds (m # ms) @ [([], stop_round)]) w =
      writer_run (log_rounds ms @ [([], stop_round)]) w1"
    "qp_inv (fw_processor w1)" "drained (fw_processor w1)"
    "separator (fw_processor w1) = separator (fw_processor w)"
    "fw_file w1 = fw_file w @ m @ [separator (fw_processor w)]"
    using log_rounds_step [OF Cons.prems(1,2), of m ms "[([], stop_round)]"] Cons.prems(3) by auto
  with Cons.IH [of w1] Cons.prems(3) show ?case by simp
qed

theorem log_complete_witness:
  "\<exists>w'. writer_run (log_rounds [[65, 66], [67]] @ [([], stop_round)])
      (fw_new (query_processor_new (\<lambda>_. 0) 10)) = Some (False, w') \<and>
    fw_file w' = [65, 66, 10, 67, 10] \<and> fw_flushed w' = length (fw_file w') \<and>
    qp_log (fw_processor w') = []"
  using log_complete [of "fw_new (query_processor_new (\<lambda>_. 0) 10)" "[[65, 66], [67]]"]
  by (simp add: fw_new_def log_sizes drained_def)
    (simp add: query_processor_new_def bip_new_def)

text \<open>
  A stop request ends the writer thread without a last read: a message logged since the
  previous round stays in the log and is not written, although the file is flushed.
\<close>

theorem stop_loses_log:
  assumes "qp_inv (fw_processor w)" and "drained (fw_processor w)" and "length m < CHUNK_SZ"
  shows "\<exists>w'. writer_run [([m], stop_round)] w = Some (False, w') \<and> fw_file w' = fw_file w \<and>
    qp_log (fw_processor w') = m @ [separator (fw_processor w)]"
  using add_message_drained [OF assms] by (auto simp: stop_round_def flush_def)

theorem stop_loses_log_witness:
  "\<exists>w'. writer_run [([[65, 66]], stop_round)] (fw_new (query_processor_new (\<lambda>_. 0) 10)) = Some (False, w') \<and>
    fw_file w' = [] \<and> qp_log (fw_processor w') = [65, 66, 10]"
  using stop_loses_log [of "fw_new (query_processor_new (\<lambda>_. 0) 10)" "[65, 66]"]
  by (simp add: fw_new_def log_sizes drained_def)
    (simp add: query_processor_new_def bip_new_def)

text \<open>
  C35. A piece is one byte longer than half the buffer: a message of \<open>CHUNK_SZ + 1\<close> bytes is lost
  entirely, its separator kept, although the log is empty, when the indices meet in the middle; a
  piece of \<open>CHUNK_SZ\<close> bytes fits wherever they meet.
\<close>

theorem long_message_lost:
  assumes "qp_inv q" and "drained q"
  shows "(length m = CHUNK_SZ + 1 \<longrightarrow> bip_r (query_buffer q) = CHUNK_SZ \<longrightarrow>
      (\<exists>q'. add_message m q = Some q' \<and> qp_log q' = [separator q])) \<and>
    fst (write_acquire BUFF_SZ CHUNK_SZ (query_buffer q)) \<noteq> None"
proof -
  let ?b = "query_buffer q"
  have log: "log_inv ?b" and inv: "bip_inv BUFF_SZ ?b" using assms(1) by (simp_all add: qp_inv_def log_inv_def)
  have met: "bip_r ?b = bip_w ?b" using assms(2) by (simp add: drained_def)
  have "\<exists>q'. add_message m q = Some q' \<and> qp_log q' = [separator q]"
    if len: "length m = CHUNK_SZ + 1" and r: "bip_r ?b = CHUNK_SZ"
  proof -
    have "piece_length m = length m" using len by (simp add: piece_length_def)
    moreover have "write_acquire BUFF_SZ (length m) ?b = (None, ?b)"
      using met r len unfolding write_acquire_eq [OF inv] by (simp add: log_sizes)
    ultimately have pieces: "add_pieces m ?b = Some ?b" by (simp add: add_pieces.simps put_chunk_def)
    have "fst (write_acquire BUFF_SZ 1 ?b) \<noteq> None"
      using met r unfolding write_acquire_eq [OF inv] by (simp add: log_sizes)
    with put_log [OF log, of "[separator q]"] drained_log [OF assms(2)] pieces show ?thesis
      by (auto simp: add_message_def qp_log_def)
  qed
  moreover have "fst (write_acquire BUFF_SZ CHUNK_SZ ?b) \<noteq> None"
    using met bip_inv_bounds [OF inv] unfolding write_acquire_eq [OF inv] by (auto simp: min_def log_sizes)
  ultimately show ?thesis by blast
qed

definition middle_example :: query_processor where
  "middle_example = \<lparr>query_buffer = \<lparr>bip_data = (\<lambda>_. 0), write_wrapped = False, read_wrapped = False,
     bip_r = CHUNK_SZ, bip_w = CHUNK_SZ, bip_i = CHUNK_SZ\<rparr>, separator = 10\<rparr>"

theorem long_message_lost_witness:
  "\<exists>q'. add_message (replicate (CHUNK_SZ + 1) 65) middle_example = Some q' \<and> qp_log q' = [10]"
proof -
  have "qp_inv middle_example" "drained middle_example"
    by (simp_all add: middle_example_def qp_inv_def log_inv_def bip_inv_def drained_def log_sizes SIZE_T_def)
  from long_message_lost [OF this, of "replicate (CHUNK_SZ + 1) 65"]
  show ?thesis unfolding length_replicate by (simp add: middle_example_def)
qed

end
