(* ===== verification/Log_Threads.thy ===== *)
theory Log_Threads
  imports QueryProcessor Spsc_Reader
begin

text \<open>
  The query log between its two threads, under the memory orders of the code: the reactor thread runs
  \<^verbatim>\<open>query_processor::_add_message\<close> and the writer thread the loop of \<^verbatim>\<open>file_writer\<close>
  with \<^verbatim>\<open>query_processor::_process\<close>.  \<open>QueryProcessor\<close> has the same code with one whole operation
  after the other; here their accesses to the buffer are the steps of \<open>Spsc_Orders\<close>.
\<close>

section \<open>The two threads\<close>

text \<open>Where the reactor thread is in \<open>_add_message\<close>: the rest of the message, or the separator.\<close>

datatype logger = Log_Idle | Log_Piece "byte list" | Log_Separator

text \<open>What it is going to put into the buffer, and where it goes on then, whether that fitted or not.\<close>

fun chunk :: "byte \<Rightarrow> logger \<Rightarrow> byte list" where
  "chunk sep Log_Idle = []"
| "chunk sep (Log_Piece rest) = take (piece_length rest) rest"
| "chunk sep Log_Separator = [sep]"

fun next_chunk :: "logger \<Rightarrow> logger" where
  "next_chunk (Log_Piece rest) =
     (let rest1 = drop (piece_length rest) rest in if rest1 \<noteq> [] then Log_Piece rest1 else Log_Separator)"
| "next_chunk _ = Log_Idle"

text \<open>
  The buffer, the logger with the messages it has been given, the file, and how many bytes of the region that
  the writer thread has acquired the file has taken already.
\<close>

record log_threads =
  buffer :: "byte weak"
  at_chunk :: logger
  messages :: "byte list list"
  out_file :: "byte list"
  taken :: "nat option"

definition log_init :: "(nat \<Rightarrow> byte) \<Rightarrow> log_threads" where
  "log_init mem = \<lparr>buffer = weak_init mem, at_chunk = Log_Idle, messages = [], out_file = [], taken = None\<rparr>"

inductive log_step :: "byte \<Rightarrow> log_threads \<Rightarrow> log_threads \<Rightarrow> bool" for sep where
  add: "at_chunk t = Log_Idle \<Longrightarrow> log_step sep t (t\<lparr>at_chunk := Log_Piece m, messages := messages t @ [m]\<rparr>)"
| load: "at_chunk t \<noteq> Log_Idle \<Longrightarrow> p_at (buffer t) = P_Idle \<Longrightarrow> weak_step BUFF_SZ (buffer t) s \<Longrightarrow>
     p_at s = P_Loaded (length (chunk sep (at_chunk t))) w r \<Longrightarrow> log_step sep t (t\<lparr>buffer := s\<rparr>)"
| acquired: "p_at (buffer t) = P_Loaded n w r \<Longrightarrow> weak_step BUFF_SZ (buffer t) s \<Longrightarrow> p_at s = P_Fill off n [] \<Longrightarrow>
     log_step sep t (t\<lparr>buffer := s\<rparr>)"
| no_space: "p_at (buffer t) = P_Loaded n w r \<Longrightarrow> weak_step BUFF_SZ (buffer t) s \<Longrightarrow> p_at s = P_Idle \<Longrightarrow>
     log_step sep t (t\<lparr>buffer := s, at_chunk := next_chunk (at_chunk t)\<rparr>)"
| copy_byte: "p_at (buffer t) = P_Fill off n xs \<Longrightarrow> weak_step BUFF_SZ (buffer t) s \<Longrightarrow>
     p_at s = P_Fill off n (xs @ [chunk sep (at_chunk t) ! length xs]) \<Longrightarrow> log_step sep t (t\<lparr>buffer := s\<rparr>)"
| release: "p_at (buffer t) = P_Fill off n xs \<Longrightarrow> length xs = n \<Longrightarrow> weak_step BUFF_SZ (buffer t) s \<Longrightarrow>
     p_at s \<noteq> p_at (buffer t) \<Longrightarrow> log_step sep t (t\<lparr>buffer := s\<rparr>)"
| store_i: "p_at (buffer t) = P_StoreI i w xs \<Longrightarrow> weak_step BUFF_SZ (buffer t) s \<Longrightarrow> p_at s = P_StoreW w xs \<Longrightarrow>
     log_step sep t (t\<lparr>buffer := s\<rparr>)"
| store_w: "p_at (buffer t) = P_StoreW w xs \<Longrightarrow> weak_step BUFF_SZ (buffer t) s \<Longrightarrow> p_at s = P_Idle \<Longrightarrow>
     log_step sep t (t\<lparr>buffer := s, at_chunk := next_chunk (at_chunk t)\<rparr>)"
| read_acquire: "c_at (buffer t) = C_Idle \<or> c_at (buffer t) = C_Loaded r w \<Longrightarrow> weak_step BUFF_SZ (buffer t) s \<Longrightarrow>
     c_at s \<noteq> c_at (buffer t) \<Longrightarrow> log_step sep t (t\<lparr>buffer := s\<rparr>)"
| read_byte: "c_at (buffer t) = C_Read off len ys \<Longrightarrow> taken t = None \<Longrightarrow> weak_step BUFF_SZ (buffer t) s \<Longrightarrow>
     c_at s = C_Read off len (ys @ [y]) \<Longrightarrow> log_step sep t (t\<lparr>buffer := s\<rparr>)"
| put_file: "c_at (buffer t) = C_Read off len ys \<Longrightarrow> taken t = None \<Longrightarrow> k \<le> length ys \<Longrightarrow>
     log_step sep t (t\<lparr>out_file := out_file t @ take k ys, taken := Some k\<rparr>)"
| read_release: "c_at (buffer t) = C_Read off len ys \<Longrightarrow> taken t = Some k \<Longrightarrow> weak_step BUFF_SZ (buffer t) s \<Longrightarrow>
     c_at s = C_Idle \<and> released s = released (buffer t) @ take k ys \<or> c_at s = C_Aborted \<Longrightarrow>
     log_step sep t (t\<lparr>buffer := s, taken := None\<rparr>)"

inductive log_reachable :: "byte \<Rightarrow> log_threads \<Rightarrow> bool" for sep where
  init: "log_reachable sep (log_init mem)"
| step: "log_reachable sep t \<Longrightarrow> log_step sep t u \<Longrightarrow> log_reachable sep u"

section \<open>The invariant\<close>

text \<open>The pieces that the logger still has to put.\<close>

fun chunks_left :: "byte \<Rightarrow> logger \<Rightarrow> byte list list" where
  "chunks_left sep Log_Idle = []"
| "chunks_left sep (Log_Piece rest) = pieces rest @ [[sep]]"
| "chunks_left sep Log_Separator = [[sep]]"

lemma chunks_left_next: "l \<noteq> Log_Idle \<Longrightarrow> chunks_left sep l = chunk sep l # chunks_left sep (next_chunk l)"
  by (cases l) (simp_all add: pieces.simps Let_def)

fun logger_ok :: "byte list \<Rightarrow> byte producer \<Rightarrow> bool" where
  "logger_ok c (P_Loaded n w r) \<longleftrightarrow> n = length c"
| "logger_ok c (P_Fill off n xs) \<longleftrightarrow> n = length c \<and> xs = take (length xs) c"
| "logger_ok c (P_StoreI i w xs) \<longleftrightarrow> xs = c"
| "logger_ok c (P_StoreW w xs) \<longleftrightarrow> xs = c"
| "logger_ok c _ \<longleftrightarrow> True"

definition logger_inv :: "byte \<Rightarrow> log_threads \<Rightarrow> bool" where
  "logger_inv sep t \<longleftrightarrow>
     (at_chunk t = Log_Idle \<longrightarrow> p_at (buffer t) = P_Idle) \<and> logger_ok (chunk sep (at_chunk t)) (p_at (buffer t)) \<and>
     (\<exists>ps past. committed (buffer t) = concat ps \<and> subseq ps past \<and>
        log_pieces sep (messages t) = past @ chunks_left sep (at_chunk t))"

definition file_inv :: "log_threads \<Rightarrow> bool" where
  "file_inv t \<longleftrightarrow>
     (case taken t of
        None \<Rightarrow> out_file t = released (buffer t)
      | Some k \<Rightarrow> (\<exists>off len ys. c_at (buffer t) = C_Read off len ys \<and> k \<le> length ys \<and>
          out_file t = released (buffer t) @ take k ys))"

text \<open>What the steps of the buffer do to the fields above.\<close>

lemma producer_frame:
  assumes "weak_step sz s t" and "p_at t \<noteq> p_at s"
  shows "c_at t = c_at s" "released t = released s"
    and "\<forall>w xs. p_at s \<noteq> P_StoreW w xs \<Longrightarrow> committed t = committed s"
  using assms by (cases; simp; fail)+

lemma consumer_frame:
  assumes "weak_step sz s t" and "c_at t \<noteq> c_at s"
  shows "p_at t = p_at s" "committed t = committed s"
    and "\<forall>off len ys. c_at s \<noteq> C_Read off len ys \<Longrightarrow> released t = released s"
  using assms by (cases; simp; fail)+

lemma fill_steps:
  assumes "weak_step sz s t" and "p_at s = P_Fill off n xs"
  shows "p_at t = P_Fill off n (xs @ [x]) \<Longrightarrow> length xs < n"
    and "length xs = n \<Longrightarrow> p_at t \<noteq> p_at s \<Longrightarrow> (\<exists>i w. p_at t = P_StoreI i w xs) \<or> p_at t = P_Aborted"
  using assms by (cases; simp; fail)+

lemma store_step:
  assumes "weak_step sz s t" and "p_at s = P_StoreW w xs" and "p_at t = P_Idle"
  shows "committed t = committed s @ xs"
  using assms by (cases; simp)

lemma read_step:
  assumes "weak_step sz s t" and "c_at s = C_Read off len ys" and "c_at t = C_Read off len (ys @ [y])"
  shows "released t = released s"
  using assms by (cases; simp)

lemma logger_inv_step:
  assumes "log_step sep t u" and inv: "logger_inv sep t"
  shows "logger_inv sep u"
proof -
  from inv have idle: "at_chunk t = Log_Idle \<longrightarrow> p_at (buffer t) = P_Idle"
    and ok: "logger_ok (chunk sep (at_chunk t)) (p_at (buffer t))" by (simp_all add: logger_inv_def)
  from inv obtain ps past where L: "committed (buffer t) = concat ps" "subseq ps past"
    "log_pieces sep (messages t) = past @ chunks_left sep (at_chunk t)" by (auto simp: logger_inv_def)
  have same: "logger_inv sep (t\<lparr>buffer := s\<rparr>)"
    if "committed s = committed (buffer t)" "at_chunk t \<noteq> Log_Idle \<or> p_at s = P_Idle" "logger_ok (chunk sep (at_chunk t)) (p_at s)" for s
    using that L by (auto simp: logger_inv_def)
  have advance: "logger_inv sep (t\<lparr>buffer := s, at_chunk := next_chunk (at_chunk t)\<rparr>)"
    if "committed s = committed (buffer t) @ concat qs" "subseq qs [chunk sep (at_chunk t)]" "at_chunk t \<noteq> Log_Idle" "p_at s = P_Idle" for s qs
  proof -
    have "subseq (ps @ qs) (past @ [chunk sep (at_chunk t)])" using L(2) that(2) by (rule list_emb_append_mono)
    moreover have "log_pieces sep (messages t) = (past @ [chunk sep (at_chunk t)]) @ chunks_left sep (next_chunk (at_chunk t))"
      using L(3) chunks_left_next [OF that(3)] by simp
    moreover have "committed s = concat (ps @ qs)" using L(1) that(1) by simp
    ultimately show ?thesis using that(4)
      by (simp add: logger_inv_def, intro exI [of _ "ps @ qs"], simp)
  qed
  show ?thesis
    using assms(1)
  proof cases
    case (add m)
    then have "log_pieces sep (messages t @ [m]) = past @ chunks_left sep (Log_Piece m)"
      using L(3) by (simp add: log_pieces_def)
    with L idle add show ?thesis by (auto simp: logger_inv_def)
  next
    case (load s w r)
    with producer_frame(3) [OF load(4)] same [of s] show ?thesis by simp
  next
    case (acquired n w r s off)
    with producer_frame(3) [OF acquired(3)] same [of s] ok idle show ?thesis by auto
  next
    case (no_space n w r s)
    with producer_frame(3) [OF no_space(3)] advance [of s "[]"] idle show ?thesis by auto
  next
    case (copy_byte off n xs s)
    with fill_steps(1) [OF copy_byte(3,2)] ok have lt: "length xs < length (chunk sep (at_chunk t))" and "xs = take (length xs) (chunk sep (at_chunk t))"
      by auto
    then have "xs @ [chunk sep (at_chunk t) ! length xs] = take (Suc (length xs)) (chunk sep (at_chunk t))"
      by (simp add: take_Suc_conv_app_nth)
    then have "logger_ok (chunk sep (at_chunk t)) (p_at s)" using copy_byte(2,4) ok lt
      by (simp add: min_absorb2)
    moreover have "committed s = committed (buffer t)"
      using producer_frame(3) [OF copy_byte(3)] copy_byte(2,4) by simp
    moreover have "at_chunk t \<noteq> Log_Idle" using idle copy_byte(2) by auto
    ultimately show ?thesis unfolding copy_byte(1) using same by blast
  next
    case (release off n xs s)
    with fill_steps(2) [OF release(4,2)] ok have "logger_ok (chunk sep (at_chunk t)) (p_at s)" by auto
    with release producer_frame(3) [OF release(4)] same [of s] idle show ?thesis by auto
  next
    case (store_i i w xs s)
    with producer_frame(3) [OF store_i(3)] same [of s] ok idle show ?thesis by auto
  next
    case (store_w w xs s)
    with store_step [OF store_w(3,2)] advance [of s "[xs]"] ok idle show ?thesis by auto
  next
    case (read_acquire r w s)
    with consumer_frame [OF read_acquire(3)] same [of s] ok idle show ?thesis by auto
  next
    case (read_byte off len ys s y)
    with consumer_frame [OF read_byte(4)] same [of s] ok idle show ?thesis by auto
  next
    case (put_file off len ys k)
    with inv show ?thesis by (simp add: logger_inv_def)
  next
    case (read_release off len ys k s)
    then have "c_at s \<noteq> c_at (buffer t)" by auto
    with read_release consumer_frame [OF read_release(4)] same [of s] inv show ?thesis by (auto simp: logger_inv_def)
  qed
qed

lemma file_inv_step:
  assumes "log_step sep t u" and inv: "file_inv t"
  shows "c_at (buffer u) = C_Aborted \<or> file_inv u"
proof -
  have keep: "file_inv (t\<lparr>buffer := s\<rparr>)" "file_inv (t\<lparr>buffer := s, at_chunk := l\<rparr>)"
    if "c_at s = c_at (buffer t)" "released s = released (buffer t)" for s l
    using that inv by (cases "taken t"; simp add: file_inv_def)+
  show ?thesis
    using assms(1)
  proof cases
    case (read_acquire r w s)
    with consumer_frame(3) [OF read_acquire(3)] inv show ?thesis by (auto simp: file_inv_def split: option.splits)
  next
    case (read_byte off len ys s y)
    with read_step [OF read_byte(4,2,5)] inv show ?thesis by (auto simp: file_inv_def split: option.splits)
  next
    case (put_file off len ys k)
    with inv show ?thesis by (auto simp: file_inv_def)
  next
    case (read_release off len ys k s)
    with inv show ?thesis by (auto simp: file_inv_def)
  next
    case (load s w r)
    with producer_frame(1,2) [OF load(4)] keep show ?thesis by simp
  next
    case (acquired n w r s off)
    with producer_frame(1,2) [OF acquired(3)] keep show ?thesis by simp
  next
    case (no_space n w r s)
    with producer_frame(1,2) [OF no_space(3)] keep show ?thesis by simp
  next
    case (copy_byte off n xs s)
    with producer_frame(1,2) [OF copy_byte(3)] keep show ?thesis by simp
  next
    case (release off n xs s)
    with producer_frame(1,2) [OF release(4)] keep show ?thesis by simp
  next
    case (store_i i w xs s)
    with producer_frame(1,2) [OF store_i(3)] keep show ?thesis by simp
  next
    case (store_w w xs s)
    with producer_frame(1,2) [OF store_w(3)] keep show ?thesis by simp
  next
    case (add m)
    with inv show ?thesis by (cases "taken t") (simp_all add: file_inv_def)
  qed
qed

lemma log_reachable_buffer:
  assumes "log_reachable sep t"
  shows "weak_reachable BUFF_SZ (buffer t)"
  using assms
proof induction
  case (init mem)
  show ?case by (simp add: log_init_def weak_reachable.init)
next
  case (step t u)
  from step(2) have "buffer u = buffer t \<or> weak_step BUFF_SZ (buffer t) (buffer u)" by cases simp_all
  with step(3) show ?case by (auto intro: weak_reachable.step)
qed

lemma log_weak_inv:
  assumes "log_reachable sep t"
  obtains g where "weak_inv BUFF_SZ g (buffer t)"
  using weak_reachable_inv [OF log_reachable_buffer [OF assms]] by (auto simp: log_sizes SIZE_T_def)

lemma log_reachable_inv:
  assumes "log_reachable sep t"
  shows "logger_inv sep t \<and> file_inv t"
  using assms
proof induction
  case (init mem)
  have "committed (weak_init mem) = concat [] \<and> subseq [] [] \<and> log_pieces sep [] = [] @ chunks_left sep Log_Idle"
    by (simp add: weak_init_def log_pieces_def)
  then have "\<exists>ps past. committed (weak_init mem) = concat ps \<and> subseq ps past \<and> log_pieces sep [] = past @ chunks_left sep Log_Idle"
    by blast
  then show ?case by (simp add: logger_inv_def log_init_def file_inv_def) (simp add: weak_init_def)
next
  case (step t u)
  from log_reachable.step [OF step(1,2)] obtain g where "weak_inv BUFF_SZ g (buffer u)" by (rule log_weak_inv)
  then have "c_at (buffer u) \<noteq> C_Aborted" using weak_invD(8) by fastforce
  with step logger_inv_step file_inv_step show ?case by blast
qed

text \<open>What the writer thread has read is what has been committed next.\<close>

lemma read_prefix:
  assumes inv: "weak_inv sz g s" and at: "c_at s = C_Read off len ys" and k: "k \<le> length ys"
  shows "prefix (released s @ take k ys) (committed s)"
proof -
  note D = weak_invD [OF inv] and R = read_region [OF inv at]
  have "read_base sz g s + k \<le> pos_w g" using R(2,4) k positions_order(2) [OF D(1,2)] by linarith
  from items_append [OF le0 this, of sz "lap_end g" "item_at g"] D(4) released_items [OF inv at k]
  show ?thesis by (simp add: data_ok_def prefix_def)
qed

section \<open>Properties\<close>

text \<open>A run: the byte of a message is in the file, its separator not yet in the buffer.\<close>

definition log_at :: "byte weak \<Rightarrow> logger \<Rightarrow> byte list \<Rightarrow> nat option \<Rightarrow> log_threads" where
  "log_at s l f k = \<lparr>buffer = s, at_chunk = l, messages = [[7]], out_file = f, taken = k\<rparr>"

definition log_example :: log_threads where
  "log_example =
     log_at ((weak_state ((\<lambda>_. 0)(0 := 7)) [\<lparr>msg_val = 1, msg_view = view_of 0 1 1 1 0\<rparr>] [\<lparr>msg_val = 1, msg_view = view_of 0 0 0 0 0\<rparr>]
         1 (view_of 0 1 1 1 0) (view_of 0 1 1 1 1) P_Idle (C_Read 0 1 [7]) [7])\<lparr>read_at := (\<lambda>_. 0)(0 := 1)\<rparr>)
       Log_Separator [7] (Some 1)"

lemma log_to: "log_reachable sep t \<Longrightarrow> log_step sep t u \<Longrightarrow> u = v \<Longrightarrow> log_reachable sep v"
  by (blast intro: log_reachable.step)

lemma log_example_reachable: "log_reachable 10 log_example"
proof -
  let ?d = "(\<lambda>_. 0)(0 := 7) :: nat \<Rightarrow> byte" and ?v = view_of and ?l = "Log_Piece [7]"
  let ?i = "\<lparr>msg_val = 1, msg_view = ?v 0 0 0 0 0\<rparr>" and ?w = "\<lparr>msg_val = 1, msg_view = ?v 0 1 1 1 0\<rparr>"
  note eval = log_at_def weak_state_def view_of_simps atomic_load_def atomic_store_def local_bip_def bip_ops szt_sub_def szt_add_def
    SIZE_T_def log_sizes piece_length_def
  have init: "weak_init (\<lambda>_. 0) = weak_state (\<lambda>_. 0) [] [] 0 (?v 0 0 0 0 0) (?v 0 0 0 0 0) P_Idle C_Idle []" (is "_ = ?s0")
    by (simp add: weak_init_def eval fun_eq_iff split: index.split)
  let ?s1 = "weak_state (\<lambda>_. 0) [] [] 0 (?v 0 0 0 0 0) (?v 0 0 0 0 0) (P_Loaded 1 0 0) C_Idle []"
    and ?s2 = "weak_state (\<lambda>_. 0) [] [] 0 (?v 0 0 0 0 0) (?v 0 0 0 0 0) (P_Fill 0 1 []) C_Idle []"
    and ?s3 = "weak_state ?d [] [] 1 (?v 0 0 0 1 0) (?v 0 0 0 0 0) (P_Fill 0 1 [7]) C_Idle []"
    and ?s4 = "weak_state ?d [] [] 1 (?v 0 0 0 1 0) (?v 0 0 0 0 0) (P_StoreI 1 1 [7]) C_Idle []"
    and ?s5 = "weak_state ?d [] [?i] 1 (?v 0 0 1 1 0) (?v 0 0 0 0 0) (P_StoreW 1 [7]) C_Idle []"
    and ?s6 = "weak_state ?d [?w] [?i] 1 (?v 0 1 1 1 0) (?v 0 0 0 0 0) P_Idle C_Idle [7]"
    and ?s7 = "weak_state ?d [?w] [?i] 1 (?v 0 1 1 1 0) (?v 0 1 1 1 0) P_Idle (C_Loaded 0 1) [7]"
    and ?s8 = "weak_state ?d [?w] [?i] 1 (?v 0 1 1 1 0) (?v 0 1 1 1 0) P_Idle (C_Read 0 1 []) [7]"
    and ?s9 = "(weak_state ?d [?w] [?i] 1 (?v 0 1 1 1 0) (?v 0 1 1 1 1) P_Idle (C_Read 0 1 [7]) [7])\<lparr>read_at := (\<lambda>_. 0)(0 := 1)\<rparr>"
  have 1: "weak_step BUFF_SZ ?s0 ?s1"
    by (rule weak_step_to [OF weak_step.p_load [where n = 1 and k = 0 and j = 0]]) (simp add: eval)+
  have 2: "weak_step BUFF_SZ ?s1 ?s2"
    by (rule weak_step_to [OF weak_step.p_acquire [where n = 1 and w = 0 and r = 0 and off = 0]]) (simp add: eval)+
  have 3: "weak_step BUFF_SZ ?s2 ?s3"
    by (rule weak_step_to [OF weak_step.p_write [where off = 0 and n = 1 and xs = "[]" and x = 7]]) (simp add: eval)+
  have 4: "weak_step BUFF_SZ ?s3 ?s4"
    by (rule weak_step_to [OF weak_step.p_release [where off = 0 and n = 1 and k = 0 and m = 0]]) (simp add: eval)+
  have 5: "weak_step BUFF_SZ ?s4 ?s5"
    by (rule weak_step_to [OF weak_step.p_store_i])
       (simp add: weak_state_def, rule atomic_store_def [unfolded Let_def], simp add: eval fun_eq_iff split: index.split)
  have 6: "weak_step BUFF_SZ ?s5 ?s6"
    by (rule weak_step_to [OF weak_step.p_store_w])
       (simp add: weak_state_def, rule atomic_store_def [unfolded Let_def], simp add: eval fun_eq_iff split: index.split)
  have 7: "weak_step BUFF_SZ ?s6 ?s7"
    by (rule weak_step_to [OF weak_step.c_load [where j = 0 and k = 1]]) (simp add: eval)+
  have 8: "weak_step BUFF_SZ ?s7 ?s8"
    by (rule weak_step_to [OF weak_step.c_acquire [where r = 0 and w = 1 and off = 0 and len = 1]]) (simp add: eval)+
  have 9: "weak_step BUFF_SZ ?s8 ?s9"
    by (rule weak_step_to [OF weak_step.c_read [where off = 0 and len = 1 and ys = "[]"]]) (simp add: eval)+
  have at: "p_at (weak_state d wi ii clk pv cv p c snt) = p" "c_at (weak_state d wi ii clk pv cv p c snt) = c"
    for d wi ii clk pv cv p c snt by (simp_all add: weak_state_def)
  note ev = log_at_def at piece_length_def log_sizes
  have L: "log_reachable 10 (log_at ?s0 ?l [] None)"
    by (rule log_to [OF log_reachable.init [of _ "\<lambda>_. 0"] log_step.add [where m = "[7]"]]) (simp_all add: log_init_def ev init)
  have L: "log_reachable 10 (log_at ?s1 ?l [] None)"
    by (rule log_to [OF L log_step.load [where s = ?s1 and w = 0 and r = 0]]) (simp_all add: ev 1 [unfolded log_sizes] del: One_nat_def)
  have L: "log_reachable 10 (log_at ?s2 ?l [] None)"
    by (rule log_to [OF L log_step.acquired [where s = ?s2 and n = 1 and w = 0 and r = 0 and off = 0]]) (simp_all add: ev 2 [unfolded log_sizes] del: One_nat_def)
  have L: "log_reachable 10 (log_at ?s3 ?l [] None)"
    by (rule log_to [OF L log_step.copy_byte [where s = ?s3 and n = 1 and off = 0 and xs = "[]"]]) (simp_all add: ev 3 [unfolded log_sizes] del: One_nat_def)
  have L: "log_reachable 10 (log_at ?s4 ?l [] None)"
    by (rule log_to [OF L log_step.release [where s = ?s4 and n = 1 and off = 0 and xs = "[7]"]]) (simp_all add: ev 4 [unfolded log_sizes] del: One_nat_def)
  have L: "log_reachable 10 (log_at ?s5 ?l [] None)"
    by (rule log_to [OF L log_step.store_i [where s = ?s5 and i = 1 and w = 1 and xs = "[7]"]]) (simp_all add: ev 5 [unfolded log_sizes] del: One_nat_def)
  have L: "log_reachable 10 (log_at ?s6 Log_Separator [] None)"
    by (rule log_to [OF L log_step.store_w [where s = ?s6 and w = 1 and xs = "[7]"]]) (simp_all add: ev 6 [unfolded log_sizes] del: One_nat_def)
  have L: "log_reachable 10 (log_at ?s7 Log_Separator [] None)"
    by (rule log_to [OF L log_step.read_acquire [where s = ?s7 and r = 0 and w = 0]]) (simp_all add: ev 7 [unfolded log_sizes] del: One_nat_def)
  have L: "log_reachable 10 (log_at ?s8 Log_Separator [] None)"
    by (rule log_to [OF L log_step.read_acquire [where s = ?s8 and r = 0 and w = 1]]) (simp_all add: ev 8 [unfolded log_sizes] del: One_nat_def)
  have L: "log_reachable 10 (log_at ?s9 Log_Separator [] None)"
    by (rule log_to [OF L log_step.read_byte [where s = ?s9 and off = 0 and len = 1 and ys = "[]" and y = 7]]) (simp_all add: ev 9 [unfolded log_sizes] del: One_nat_def)
  show ?thesis unfolding log_example_def
    by (rule log_to [OF L log_step.put_file [where k = 1 and off = 0 and len = 1 and ys = "[7]"]]) (simp_all add: ev)
qed

text \<open>
  C16. The log under the memory orders of the code: in every execution of the two threads the buffer has been given whole
  pieces of the messages in order, some perhaps dropped, the file holds a prefix of them, and what is missing
  between two writes to the file is in the buffer; there is no data race and no assertion fails.
\<close>

theorem log_threads_whole:
  assumes "log_reachable sep t"
  shows "\<exists>ps. subseq ps (log_pieces sep (messages t)) \<and> prefix (out_file t) (concat ps) \<and>
    (taken t = None \<longrightarrow> concat ps = out_file t @ bip_contents (latest (buffer t))) \<and>
    \<not> races (buffer t) \<and> p_at (buffer t) \<noteq> P_Aborted \<and> c_at (buffer t) \<noteq> C_Aborted"
proof -
  from assms obtain g where inv: "weak_inv BUFF_SZ g (buffer t)" by (rule log_weak_inv)
  note D = weak_invD [OF inv]
  from log_reachable_inv [OF assms] obtain ps past where ps: "committed (buffer t) = concat ps" "subseq ps past"
    "log_pieces sep (messages t) = past @ chunks_left sep (at_chunk t)" and out: "file_inv t"
    by (auto simp: logger_inv_def)
  have "subseq ps (log_pieces sep (messages t))" using ps(2,3) by (simp add: list_emb_prefix)
  moreover have queue: "concat ps = released (buffer t) @ bip_contents (latest (buffer t))"
    using weak_inv_queue [OF inv] ps(1) by simp
  moreover have "prefix (out_file t) (concat ps)"
    using out read_prefix [OF inv] ps(1) queue by (auto simp: file_inv_def split: option.splits)
  moreover have "taken t = None \<Longrightarrow> out_file t = released (buffer t)" using out by (simp add: file_inv_def)
  moreover have "\<not> races (buffer t)" by (rule weak_inv_race_free [OF inv]) (simp add: log_sizes)
  ultimately show ?thesis using D(7,8) by auto
qed

theorem log_threads_whole_witness:
  "messages log_example = [[7]] \<and> out_file log_example = [7] \<and>
   (\<exists>ps. subseq ps (log_pieces 10 [[7]]) \<and> prefix [7] (concat ps)) \<and> \<not> races (buffer log_example)"
  using log_threads_whole [OF log_example_reachable] by (auto simp: log_example_def log_at_def)

end
