(* ===== verification/Log_Linear.thy ===== *)
theory Log_Linear
  imports Spsc_Linear Log_Threads
begin

text \<open>
  The log of \<open>Log_Threads\<close> in one piece: whatever the two threads do, file and buffer are as if the pieces of the
  messages had been put and regions had been taken one after the other, by the operations of
  \<open>QueryProcessor\<close>.
\<close>

section \<open>Messages as sequential operations\<close>

abbreviation put_pieces :: "byte list list \<Rightarrow> byte op list" where
  "put_pieces \<equiv> map (\<lambda>xs. Put (length xs) xs)"

lemma add_pieces_puts:
  "seq_ops BUFF_SZ (put_pieces (pieces rest)) (b, f) = map_option (\<lambda>b'. (b', f)) (add_pieces rest b)"
proof (induction rest b rule: add_pieces.induct)
  case (1 rest b)
  let ?n = "piece_length rest"
  let ?put = "put_chunk (write_acquire BUFF_SZ) bip_fill (write_release BUFF_SZ) ?n (take ?n rest) b"
  have "length (take ?n rest) = ?n" using piece_length_take [of rest] by simp
  then have head: "seq_op BUFF_SZ (Put (length (take ?n rest)) (take ?n rest)) (b, f) = map_option (\<lambda>b'. (b', f)) ?put" by simp
  show ?case
  proof (cases ?put)
    case None
    then show ?thesis using head by (simp add: pieces.simps [of rest] add_pieces.simps [of rest] Let_def del: seq_op.simps)
  next
    case (Some b1)
    then show ?thesis using head 1 [OF refl Some]
      by (cases "drop ?n rest \<noteq> []") (simp_all add: pieces.simps [of rest] add_pieces.simps [of rest] Let_def del: seq_op.simps)
  qed
qed

lemma add_message_puts:
  "seq_ops BUFF_SZ (put_pieces (pieces m @ [[separator q]])) (query_buffer q, f) =
     map_option (\<lambda>q'. (query_buffer q', f)) (add_message m q)"
  unfolding map_append seq_ops_append add_pieces_puts
  by (simp add: add_message_def option.map_comp comp_def split: option.splits)

lemma process_take:
  "seq_op BUFF_SZ (Take k) (query_buffer q, f) =
     map_option (\<lambda>(n, q'). (query_buffer q', f @ take n (readable q))) (process (\<lambda>bs. min k (length bs)) q)"
  by (simp add: process_def readable_def region_def option.map_comp comp_def case_prod_unfold)

section \<open>The two threads\<close>

definition in_step :: "byte \<Rightarrow> log_threads \<Rightarrow> bool" where
  "in_step sep t \<longleftrightarrow>
     (\<exists>mem ops g N b past. seq_ops BUFF_SZ ops (bip_new mem, []) = Some (b, seen_items BUFF_SZ g (buffer t)) \<and>
        weak_inv BUFF_SZ g (buffer t) \<and> simulates BUFF_SZ g (buffer t) N b \<and>
        puts ops = map (\<lambda>xs. (length xs, xs)) past \<and> log_pieces sep (messages t) = past @ chunks_left sep (at_chunk t) \<and>
        (p_at (buffer t) \<noteq> P_Idle \<longrightarrow> N = length (chunk sep (at_chunk t))))"

lemma in_stepI:
  assumes "seq_ops BUFF_SZ ops (bip_new mem, []) = Some (b, seen_items BUFF_SZ g (buffer t))" and "weak_inv BUFF_SZ g (buffer t)"
    and "simulates BUFF_SZ g (buffer t) N b" and "puts ops = map (\<lambda>xs. (length xs, xs)) past"
    and "log_pieces sep (messages t) = past @ chunks_left sep (at_chunk t)"
    and "p_at (buffer t) \<noteq> P_Idle \<Longrightarrow> N = length (chunk sep (at_chunk t))"
  shows "in_step sep t"
  using assms unfolding in_step_def by blast

lemma buff_sz: "2 < BUFF_SZ" "2 * BUFF_SZ \<le> SIZE_T"
  by (simp_all add: log_sizes SIZE_T_def)

lemma consumer_view:
  assumes "weak_step sz s t" and "c_at t \<noteq> c_at s"
  shows "p_view t = p_view s"
  using assms by (cases; simp)

lemma in_step_consumer:
  assumes step: "weak_step BUFF_SZ (buffer t) s" and "c_at s \<noteq> c_at (buffer t)" and "in_step sep t"
    and u: "buffer u = s" "messages u = messages t" "at_chunk u = at_chunk t"
  shows "in_step sep u"
proof -
  from assms(3) obtain mem ops g N b past where H: "seq_ops BUFF_SZ ops (bip_new mem, []) = Some (b, seen_items BUFF_SZ g (buffer t))"
    "weak_inv BUFF_SZ g (buffer t)" "simulates BUFF_SZ g (buffer t) N b" "puts ops = map (\<lambda>xs. (length xs, xs)) past"
    "log_pieces sep (messages t) = past @ chunks_left sep (at_chunk t)" "p_at (buffer t) \<noteq> P_Idle \<longrightarrow> N = length (chunk sep (at_chunk t))"
    unfolding in_step_def by blast
  note F = consumer_frame(1) [OF step assms(2)]
  from sim_consumer [OF step H(2,3) buff_sz F consumer_view [OF step assms(2)]] obtain h where
    S: "weak_inv BUFF_SZ h s" "simulates BUFF_SZ h s N b" "seen_items BUFF_SZ h s = seen_items BUFF_SZ g (buffer t)" by blast
  show ?thesis by (rule in_stepI [where t = u, unfolded u, OF H(1) [folded S(3)] S(1,2) H(4,5)]) (use H(6) F in simp)
qed

text \<open>A step of the producer that ends no put, and one that ends the put of the current piece.\<close>

lemma in_step_producer:
  assumes step: "weak_step BUFF_SZ (buffer t) s" and moved: "p_at s \<noteq> p_at (buffer t)" and "in_step sep t"
    and u: "buffer u = s" "messages u = messages t"
    and ends: "finished_put (length (chunk sep (at_chunk t))) (chunk sep (at_chunk t)) (p_at (buffer t)) (p_at s) =
        map (\<lambda>xs. (length xs, xs)) ps" "chunks_left sep (at_chunk t) = ps @ chunks_left sep (at_chunk u)"
    and load: "p_at (buffer t) = P_Idle \<Longrightarrow> \<exists>w r. p_at s = P_Loaded (length (chunk sep (at_chunk t))) w r"
    and stay: "p_at s \<noteq> P_Idle \<Longrightarrow> at_chunk u = at_chunk t"
  shows "in_step sep u"
proof -
  let ?c = "chunk sep (at_chunk t)"
  from assms(3) obtain mem ops g N b past where H: "seq_ops BUFF_SZ ops (bip_new mem, []) = Some (b, seen_items BUFF_SZ g (buffer t))"
    "weak_inv BUFF_SZ g (buffer t)" "simulates BUFF_SZ g (buffer t) N b" "puts ops = map (\<lambda>xs. (length xs, xs)) past"
    "log_pieces sep (messages t) = past @ chunks_left sep (at_chunk t)" "p_at (buffer t) \<noteq> P_Idle \<longrightarrow> N = length ?c"
    unfolding in_step_def by blast
  from sim_producer [OF step H(2,3) buff_sz moved, where ys = ?c] obtain ops' h N' b' where
    S: "seq_ops BUFF_SZ ops' (b, seen_items BUFF_SZ g (buffer t)) = Some (b', seen_items BUFF_SZ h s)"
      "weak_inv BUFF_SZ h s" "simulates BUFF_SZ h s N' b'"
      "puts ops' = finished_put N ?c (p_at (buffer t)) (p_at s)" "p_at (buffer t) \<noteq> P_Idle \<longrightarrow> N' = N" by blast
  have "puts ops' = map (\<lambda>xs. (length xs, xs)) ps"
  proof (cases "p_at (buffer t) = P_Idle")
    case True
    with load S(4) ends(1) show ?thesis by auto
  next
    case False
    with S(4) H(6) ends(1) show ?thesis by simp
  qed
  then have A: "puts (ops @ ops') = map (\<lambda>xs. (length xs, xs)) (past @ ps)" using H(4) by simp
  have B: "seq_ops BUFF_SZ (ops @ ops') (bip_new mem, []) = Some (b', seen_items BUFF_SZ h s)"
    using H(1) S(1) by (simp add: seq_ops_append)
  have C: "log_pieces sep (messages u) = (past @ ps) @ chunks_left sep (at_chunk u)" using H(5) ends(2) u(2) by simp
  have D: "p_at s \<noteq> P_Idle \<longrightarrow> N' = length (chunk sep (at_chunk u))"
  proof (cases "p_at (buffer t) = P_Idle")
    case True
    with load S(3) stay show ?thesis by (auto simp: simulates_def)
  next
    case False
    with S(5) H(6) stay show ?thesis by auto
  qed
  show ?thesis by (rule in_stepI [where t = u, unfolded u(1), OF B S(2,3) A C]) (use D in blast)
qed

lemma in_step_step:
  assumes "log_step sep t u" and inv: "logger_inv sep t" and "in_step sep t"
  shows "in_step sep u"
proof -
  from inv have idle: "at_chunk t = Log_Idle \<longrightarrow> p_at (buffer t) = P_Idle"
    and ok: "logger_ok (chunk sep (at_chunk t)) (p_at (buffer t))" by (simp_all add: logger_inv_def)
  note consumer = in_step_consumer [OF _ _ assms(3)] and producer = in_step_producer [OF _ _ assms(3)]
  show ?thesis
    using assms(1)
  proof cases
    case (add m)
    then have "log_pieces sep (messages u) = log_pieces sep (messages t) @ chunks_left sep (at_chunk u)"
      by (simp add: log_pieces_def)
    moreover have "p_at (buffer t) = P_Idle" "buffer u = buffer t" "chunks_left sep (at_chunk t) = []" using idle add by simp_all
    ultimately show ?thesis using assms(3) unfolding in_step_def by simp
  next
    case (load s w r)
    then show ?thesis by (intro producer [where s = s and ps = "[]"]) simp_all
  next
    case (acquired n w r s off)
    then show ?thesis by (intro producer [where s = s and ps = "[]"]) simp_all
  next
    case (no_space n w r s)
    with idle have "at_chunk t \<noteq> Log_Idle" by auto
    from no_space chunks_left_next [OF this] show ?thesis
      by (intro producer [where s = s and ps = "[chunk sep (at_chunk t)]"]) simp_all
  next
    case (copy_byte off n xs s)
    then show ?thesis by (intro producer [where s = s and ps = "[]"]) simp_all
  next
    case (release off n xs s)
    then have "(\<exists>i w. p_at s = P_StoreI i w xs) \<or> p_at s = P_Aborted" using fill_steps(2) by blast
    with release show ?thesis by (intro producer [where s = s and ps = "[]"]) auto
  next
    case (store_i i w xs s)
    then show ?thesis by (intro producer [where s = s and ps = "[]"]) simp_all
  next
    case (store_w w xs s)
    with idle have "at_chunk t \<noteq> Log_Idle" by auto
    from store_w ok chunks_left_next [OF this] show ?thesis
      by (intro producer [where s = s and ps = "[chunk sep (at_chunk t)]"]) simp_all
  next
    case (read_acquire r w s)
    then show ?thesis by (intro consumer [where s = s]) simp_all
  next
    case (read_byte off len ys s y)
    then show ?thesis by (intro consumer [where s = s]) simp_all
  next
    case (put_file off len ys k)
    with assms(3) show ?thesis by (simp add: in_step_def)
  next
    case (read_release off len ys k s)
    then show ?thesis by (intro consumer [where s = s]) auto
  qed
qed

lemma log_reachable_in_step:
  assumes "log_reachable sep t"
  shows "in_step sep t"
  using assms
proof induction
  case (init mem)
  let ?g = "\<lparr>w_pos = [0], r_pos = [0], item_at = mem, lap_end = \<lambda>_. BUFF_SZ\<rparr>"
  show ?case
  proof (rule in_stepI [where mem = mem and ops = "[]" and g = ?g and N = 0 and past = "[]"])
    show "seq_ops BUFF_SZ [] (bip_new mem, []) = Some (bip_new mem, seen_items BUFF_SZ ?g (buffer (log_init mem)))"
      by (simp add: log_init_def weak_init_def items_def)
    show "weak_inv BUFF_SZ ?g (buffer (log_init mem))"
      using weak_inv_init [OF buff_sz(1), of mem] by (simp add: log_init_def)
    show "simulates BUFF_SZ ?g (buffer (log_init mem)) 0 (bip_new mem)"
      by (simp add: simulates_def state_at_def takes_ok_def log_init_def weak_init_def bip_new_def limit_at_def)
  qed (simp_all add: log_init_def log_pieces_def weak_init_def)
next
  case (step t u)
  then show ?case using in_step_step log_reachable_inv by blast
qed

section \<open>Properties\<close>

text \<open>
  C17. The threads of the log are sequentially equivalent: file and buffer are what a sequence of whole puts and takes
  makes of an empty buffer; the puts are the pieces of the messages up to where the reactor thread is, in
  order, also those that found no room.
\<close>

theorem log_threads_sequential:
  assumes "log_reachable sep t" and "taken t = None"
  shows "\<exists>mem ops b. seq_ops BUFF_SZ ops (bip_new mem, []) = Some (b, out_file t) \<and>
    bip_contents b = bip_contents (latest (buffer t)) \<and>
    puts ops @ map (\<lambda>xs. (length xs, xs)) (chunks_left sep (at_chunk t)) =
      map (\<lambda>xs. (length xs, xs)) (log_pieces sep (messages t))"
proof -
  from log_reachable_in_step [OF assms(1)] obtain mem ops g N b past where
    H: "seq_ops BUFF_SZ ops (bip_new mem, []) = Some (b, seen_items BUFF_SZ g (buffer t))"
    "weak_inv BUFF_SZ g (buffer t)" "simulates BUFF_SZ g (buffer t) N b" "puts ops = map (\<lambda>xs. (length xs, xs)) past"
    "log_pieces sep (messages t) = past @ chunks_left sep (at_chunk t)" unfolding in_step_def by blast
  from sim_caught_up [OF H(2,3) buff_sz] obtain ks b' where
    S: "seq_ops BUFF_SZ (map Take ks) (b, seen_items BUFF_SZ g (buffer t)) = Some (b', released (buffer t))"
    "bip_contents b' = bip_contents (latest (buffer t))" by blast
  have "out_file t = released (buffer t)" using log_reachable_inv [OF assms(1)] assms(2) by (simp add: file_inv_def)
  with H(1) S(1) have "seq_ops BUFF_SZ (ops @ map Take ks) (bip_new mem, []) = Some (b', out_file t)"
    by (simp add: seq_ops_append)
  moreover have "puts (ops @ map Take ks) = map (\<lambda>xs. (length xs, xs)) past" using H(4) by simp
  ultimately show ?thesis
    using S(2) unfolding H(5) map_append
    by (intro exI [of _ mem] exI [of _ "ops @ map Take ks"] exI [of _ b'] conjI) simp_all
qed

text \<open>The run of \<open>Log_Threads\<close>, after the release of what has been written to the file.\<close>

lemma log_example_next: "\<exists>t. log_reachable 10 t \<and> taken t = None \<and> out_file t = [7] \<and> messages t = [[7]] \<and> at_chunk t = Log_Separator"
proof -
  let ?s = "buffer log_example"
  have at: "c_at ?s = C_Read 0 1 [7]" "\<not> c_wrapped ?s" "released ?s = []" and
    load: "atomic_load Relaxed Idx_R 0 (c_view ?s) (indices ?s) = Some (0, c_view ?s)"
    by (simp_all add: log_example_def log_at_def weak_state_def atomic_load_def view_of_simps)
  have "\<exists>b. read_release BUFF_SZ 1 (local_bip ?s 0 0 0) = Some b"
    using at(2) by (simp add: read_release_def local_bip_def Let_def szt_add_def SIZE_T_def log_sizes)
  then obtain b where b: "read_release BUFF_SZ 1 (local_bip ?s 0 0 0) = Some b" ..
  obtain v mem where st: "atomic_store Release Idx_R (bip_r b) (c_view ?s) (indices ?s) = (v, mem)" by (metis prod.exhaust)
  let ?u = "?s\<lparr>c_at := C_Idle, c_view := v, indices := mem, c_wrapped := read_wrapped b, released := released ?s @ take 1 [7]\<rparr>"
  have "weak_step BUFF_SZ ?s ?u"
    by (rule weak_step.c_release [OF at(1) _ _ b st, where j = 0]) (simp_all add: at(2) load)
  from log_step.read_release [OF at(1) _ this, of 1] have "log_step 10 log_example (log_example\<lparr>buffer := ?u, taken := None\<rparr>)"
    by (simp add: log_example_def log_at_def)
  from log_reachable.step [OF log_example_reachable this] show ?thesis
    by (intro exI [of _ "log_example\<lparr>buffer := ?u, taken := None\<rparr>"] conjI) (simp_all add: log_example_def log_at_def)
qed

theorem log_threads_sequential_witness:
  "\<exists>mem ops b. seq_ops BUFF_SZ ops (bip_new mem, []) = Some (b, [7 :: byte]) \<and> puts ops = [(1, [7])]"
proof -
  from log_example_next obtain t where t: "log_reachable 10 t" "taken t = None" "out_file t = [7]" "messages t = [[7]]"
    "at_chunk t = Log_Separator" by blast
  have "log_pieces 10 [[7]] = [[7], [10]]" by (simp add: log_pieces_def pieces.simps piece_length_def log_sizes)
  with log_threads_sequential [OF t(1,2)] t(3-5) show ?thesis by auto
qed

end
