(* ===== verification/Protocol.thy ===== *)
theory Protocol
  imports Endian Errors
begin

text \<open>
  \<^verbatim>\<open>src/psql_proxy/protocol/\<close> and \<^verbatim>\<open>src/psql_proxy/message.cpp\<close>: the PostgreSQL
  messages the proxy understands and the functions that make them from a payload pointer and a
  length.  The \<open>parameters\<close> parsers are related to a list-level reading of the payload as
  NUL-terminated strings taken in pairs.
\<close>

section \<open>Messages\<close>

record configuration_parameter =
  cp_name :: "byte list"
  cp_value :: "byte list"

record protocol_version =
  major :: u16
  minor :: u16

record StartupMessage =
  sm_version :: protocol_version
  sm_parameters :: "configuration_parameter list"

record runtime_parameter =
  rp_name :: "byte list"
  rp_value :: "byte list"

record ParameterStatus =
  ps_parameters :: "runtime_parameter list"

record Query =
  query :: "byte list"

datatype Terminate = Terminate

definition StartupMessage_CODE :: byte where "StartupMessage_CODE = 0"
definition ParameterStatus_CODE :: byte where "ParameterStatus_CODE = 0x53"
definition Query_CODE :: byte where "Query_CODE = 0x51"
definition Terminate_CODE :: byte where "Terminate_CODE = 0x58"

lemmas message_codes = StartupMessage_CODE_def ParameterStatus_CODE_def Query_CODE_def
  Terminate_CODE_def

datatype message =
    Msg_Startup StartupMessage
  | Msg_ParameterStatus ParameterStatus
  | Msg_Query Query
  | Msg_Terminate Terminate

section \<open>Construction from a payload\<close>

text \<open>
  The scanning loop that both parameter messages run, on the range from \<open>cur\<close> to \<open>lim\<close>:
  \<open>beg\<close> is \<^verbatim>\<open>params_beg\<close>, \<open>name\<close> the optional \<^verbatim>\<open>param_name\<close>, \<open>mk\<close> the struct built.
\<close>

function scan_params ::
  "(byte list \<Rightarrow> byte list \<Rightarrow> 'p) \<Rightarrow> ptr \<Rightarrow> nat \<Rightarrow> nat \<Rightarrow> nat \<Rightarrow> byte list option \<Rightarrow> 'p list \<Rightarrow> 'p list"
  where
  "scan_params mk p beg cur lim name acc =
     (if cur < lim then
        (if p cur = 0 then
           (case name of
              None \<Rightarrow> scan_params mk p (cur + 1) (cur + 1) lim (Some (mem_range p beg cur)) acc
            | Some n \<Rightarrow>
                scan_params mk p (cur + 1) (cur + 1) lim None (acc @ [mk n (mem_range p beg cur)]))
         else scan_params mk p beg (cur + 1) lim name acc)
      else acc)"
  by pat_completeness auto
termination
  by (relation "measure (\<lambda>(mk, p, beg, cur, lim, name, acc). lim - cur)") auto

declare scan_params.simps [simp del]

text \<open>
  The end of the scan is \<^verbatim>\<open>params_beg + payload_len\<close> although \<^verbatim>\<open>params_beg\<close> is
  already four bytes into the payload: the loop reads four bytes beyond it.
\<close>

definition make_startup_msg :: "ptr \<Rightarrow> nat \<Rightarrow> endianness \<Rightarrow> exn + StartupMessage" where
  "make_startup_msg payload payload_len e =
     (if payload_len < 4 then Inl (Std_Exception ''startup message bad length'')
      else Inr \<lparr>sm_version = \<lparr>major = decode_uint16 payload e,
                              minor = decode_uint16 (ptr_next payload 2) e\<rparr>,
                sm_parameters =
                  scan_params (\<lambda>n v. \<lparr>cp_name = n, cp_value = v\<rparr>) (ptr_next payload 4)
                    0 0 payload_len None []\<rparr>)"

definition make_param_status_msg :: "ptr \<Rightarrow> nat \<Rightarrow> ParameterStatus" where
  "make_param_status_msg payload payload_len =
     \<lparr>ps_parameters = scan_params (\<lambda>n v. \<lparr>rp_name = n, rp_value = v\<rparr>) payload 0 0 payload_len None []\<rparr>"

text \<open>
  \<^verbatim>\<open>std::max(0ul, payload_len - 1)\<close> is an unsigned subtraction: an empty payload gives the
  largest \<open>size_t\<close>, and the string constructor throws on a length above its \<open>max_size\<close>.
\<close>

definition STRING_MAX :: nat where
  "STRING_MAX = 2 ^ 63 - 1"

definition make_query_msg :: "ptr \<Rightarrow> nat \<Rightarrow> exn + Query" where
  "make_query_msg payload payload_len =
     (let n = max 0 (szt_sub payload_len 1)
      in if STRING_MAX < n then Inl (Std_Exception ''basic_string::_M_create'')
         else Inr \<lparr>query = mem_range payload 0 n\<rparr>)"

definition make_terminate_msg :: "ptr \<Rightarrow> nat \<Rightarrow> Terminate" where
  "make_terminate_msg payload payload_len = Terminate"

definition make_message :: "byte \<Rightarrow> ptr \<Rightarrow> nat \<Rightarrow> endianness \<Rightarrow> exn + message option" where
  "make_message msg_code payload payload_len e =
     (if msg_code = StartupMessage_CODE then
        (case make_startup_msg payload payload_len e of
           Inl ex \<Rightarrow> Inl ex | Inr m \<Rightarrow> Inr (Some (Msg_Startup m)))
      else if msg_code = ParameterStatus_CODE then
        Inr (Some (Msg_ParameterStatus (make_param_status_msg payload payload_len)))
      else if msg_code = Query_CODE then
        (case make_query_msg payload payload_len of
           Inl ex \<Rightarrow> Inl ex | Inr m \<Rightarrow> Inr (Some (Msg_Query m)))
      else if msg_code = Terminate_CODE then
        Inr (Some (Msg_Terminate (make_terminate_msg payload payload_len)))
      else Inr None)"

section \<open>The payload as a list of strings\<close>

text \<open>The NUL-terminated strings of a byte list; bytes after the last NUL are no string.\<close>

fun cstrings_acc :: "byte list \<Rightarrow> byte list \<Rightarrow> byte list list" where
  "cstrings_acc cur [] = []"
| "cstrings_acc cur (x # xs) =
     (if x = 0 then cur # cstrings_acc [] xs else cstrings_acc (cur @ [x]) xs)"

definition cstrings :: "byte list \<Rightarrow> byte list list" where
  "cstrings = cstrings_acc []"

fun pair_up :: "('a \<Rightarrow> 'a \<Rightarrow> 'p) \<Rightarrow> 'a list \<Rightarrow> 'p list" where
  "pair_up mk (a # b # xs) = mk a b # pair_up mk xs"
| "pair_up mk _ = []"

text \<open>The scanning loop computes the pairs.\<close>

lemma scan_params_end [simp]: "lim \<le> cur \<Longrightarrow> scan_params mk p beg cur lim name acc = acc"
  by (subst scan_params.simps) simp

lemma scan_params_pairs:
  "beg \<le> cur \<Longrightarrow> cur \<le> lim \<Longrightarrow>
   scan_params mk p beg cur lim name acc =
     acc @ pair_up mk (case_option [] (\<lambda>n. [n]) name @
                       cstrings_acc (mem_range p beg cur) (mem_range p cur lim))"
proof (induction mk p beg cur lim name acc rule: scan_params.induct)
  case (1 mk p beg cur lim name acc)
  show ?case
  proof (cases "cur < lim")
    case False
    with "1.prems" show ?thesis
      by (auto split: option.splits)
  next
    case True
    note unfold = scan_params.simps [of mk p beg cur lim None acc]
      scan_params.simps [of mk p beg cur lim "Some _" acc] scan_params.simps [of mk p beg cur lim name acc]
      mem_range_Cons [OF True, of p]
    show ?thesis
    proof (cases "p cur = 0")
      case zero: True
      show ?thesis
        using "1.IH"(1,2) [OF True zero] True zero by (cases name) (simp_all add: unfold)
    next
      case False
      with "1.IH"(3) [OF True False] "1.prems" True show ?thesis
        by (simp add: unfold mem_range_snoc)
    qed
  qed
qed

lemma cstrings_acc_string:
  "0 \<notin> set s \<Longrightarrow> cstrings_acc cur (s @ 0 # rest) = (cur @ s) # cstrings_acc [] rest"
  by (induction s arbitrary: cur) auto

lemma cstrings_acc_no_nul: "0 \<notin> set s \<Longrightarrow> cstrings_acc cur s = []"
  by (induction s arbitrary: cur) auto

text \<open>The encoding a peer uses: name, NUL, value, NUL, for every parameter.\<close>

definition encode_params :: "(byte list \<times> byte list) list \<Rightarrow> byte list" where
  "encode_params ps = concat (map (\<lambda>(n, v). n @ [0] @ v @ [0]) ps)"

definition nul_free :: "(byte list \<times> byte list) list \<Rightarrow> bool" where
  "nul_free ps \<longleftrightarrow> list_all (\<lambda>(n, v). 0 \<notin> set n \<and> 0 \<notin> set v) ps"

lemma pair_up_encode_params:
  "nul_free ps \<Longrightarrow>
   pair_up mk (cstrings_acc [] (encode_params ps @ rest)) =
     map (\<lambda>(n, v). mk n v) ps @ pair_up mk (cstrings_acc [] rest)"
  by (induction ps)
     (auto simp: encode_params_def nul_free_def cstrings_acc_string)

lemma list_ptr_append_ptr [simp]:
  "ptr_next (list_ptr heap (xs @ ys)) (length xs) = list_ptr (ptr_next heap (length xs)) ys"
  by (rule ext) (auto simp: list_ptr_def nth_append)

lemma mem_range_list_ptr_all [simp]: "mem_range (list_ptr heap xs) 0 (length xs) = xs"
  by (simp add: mem_range_list_ptr)

lemma list_ptr_cell: "k < length xs \<Longrightarrow> list_ptr heap xs k = xs ! k"
  by (simp add: list_ptr_def)


section \<open>Facts the stream handler uses\<close>

text \<open>The messages other than the startup message are made from the payload cells only.\<close>

lemma make_query_msg_eq:
  assumes "len < SIZE_T"
  shows "make_query_msg p len =
    (if len = 0 \<or> STRING_MAX < len - 1 then Inl (Std_Exception ''basic_string::_M_create'')
     else Inr \<lparr>query = mem_range p 0 (len - 1)\<rparr>)"
proof (cases "len = 0")
  case True
  then show ?thesis by (simp add: make_query_msg_def szt_sub_def SIZE_T_def STRING_MAX_def)
next
  case False
  with assms have "szt_sub len 1 = len - 1" by (simp add: szt_sub_small)
  with False show ?thesis by (simp add: make_query_msg_def)
qed

lemma scan_params_cong:
  assumes "\<And>k. k < lim \<Longrightarrow> p k = q k"
  shows "scan_params mk p 0 0 lim None acc = scan_params mk q 0 0 lim None acc"
proof -
  have "mem_range p 0 lim = mem_range q 0 lim" using assms by (simp add: mem_range_def)
  then show ?thesis by (simp add: scan_params_pairs)
qed

lemma make_message_throws_iff:
  assumes "len < 2 ^ 32"
  shows "(\<exists>ex. make_message code p len e = Inl ex) \<longleftrightarrow>
     code = StartupMessage_CODE \<and> len < 4 \<or> code = Query_CODE \<and> len = 0"
proof -
  have "len < SIZE_T" "\<not> STRING_MAX < len - 1" using assms by (simp_all add: SIZE_T_def STRING_MAX_def)
  then show ?thesis
    by (auto simp: make_message_def make_query_msg_eq make_startup_msg_def message_codes
        split: sum.splits)
qed

section \<open>Properties\<close>

text \<open>
  \<open>make_param_status_msg\<close> reads the payload as NUL-terminated strings and pairs them up as
  name and value, for every payload; so it inverts the encoding of any parameter list.
\<close>

theorem param_status_parse:
  "make_param_status_msg p len =
     \<lparr>ps_parameters = pair_up (\<lambda>n v. \<lparr>rp_name = n, rp_value = v\<rparr>) (cstrings (mem_range p 0 len))\<rparr> \<and>
   (nul_free ps \<longrightarrow> make_param_status_msg (list_ptr heap (encode_params ps)) (length (encode_params ps)) =
     \<lparr>ps_parameters = map (\<lambda>(n, v). \<lparr>rp_name = n, rp_value = v\<rparr>) ps\<rparr>)"
  using pair_up_encode_params [of ps "\<lambda>n v. \<lparr>rp_name = n, rp_value = v\<rparr>" "[]"]
  by (simp add: make_param_status_msg_def scan_params_pairs cstrings_def)

theorem param_status_parse_witness:
  "make_param_status_msg (list_ptr (\<lambda>_. 9) (encode_params [([1, 2], [3]), ([4], [])]))
     (length (encode_params [([1, 2], [3]), ([4], [])])) =
   \<lparr>ps_parameters = [\<lparr>rp_name = [1, 2], rp_value = [3]\<rparr>, \<lparr>rp_name = [4], rp_value = []\<rparr>]\<rparr>"
  using param_status_parse [of "\<lambda>_. 0" 0 "[([1, 2], [3]), ([4], [])]" "\<lambda>_. 9"]
  by (simp add: nul_free_def)

text \<open>
  A startup message encoded by a client gives back its protocol version, and its parameters
  if the four bytes that follow the payload in memory hold no NUL.
\<close>

theorem startup_roundtrip:
  assumes "nul_free ps"
    and "payload = encode_uint16 e mj @ encode_uint16 e mn @ encode_params ps @ [0]"
    and "\<And>k. k < 4 \<Longrightarrow> heap (length payload + k) \<noteq> 0"
  shows "make_startup_msg (list_ptr heap payload) (length payload) e =
     Inr \<lparr>sm_version = \<lparr>major = mj, minor = mn\<rparr>,
          sm_parameters = map (\<lambda>(n, v). \<lparr>cp_name = n, cp_value = v\<rparr>) ps\<rparr>"
proof -
  let ?p = "list_ptr heap payload" and ?len = "length payload"
  let ?body = "encode_params ps @ [0]" and ?mk = "\<lambda>n v. \<lparr>cp_name = n, cp_value = v\<rparr>"
  let ?junk = "mem_range heap ?len (?len + 4)"
  have len: "?len = 4 + length ?body" by (simp add: assms(2))
  have v1: "decode_uint16 ?p e = mj"
    unfolding assms(2) by (rule decode_encode_uint16)
  have "ptr_next ?p 2 = list_ptr (ptr_next heap 2) (encode_uint16 e mn @ ?body)"
    using list_ptr_append_ptr [of heap "encode_uint16 e mj" "encode_uint16 e mn @ ?body"]
    by (simp add: assms(2))
  then have v2: "decode_uint16 (ptr_next ?p 2) e = mn"
    by (metis decode_encode_uint16)
  have "mem_range (ptr_next ?p 4) 0 ?len = mem_range ?p 4 (?len + 4)"
    using mem_range_shift [of ?p 4 0 ?len] by (simp add: add.commute)
  also have "\<dots> = mem_range ?p 4 ?len @ mem_range ?p ?len (?len + 4)"
    by (rule mem_range_append) (simp_all add: len)
  also have "mem_range ?p ?len (?len + 4) = ?junk"
    by (rule mem_range_cong) (simp_all add: list_ptr_def)
  also have "mem_range ?p 4 ?len = ?body"
    using len by (simp add: mem_range_list_ptr assms(2))
  finally have bytes: "mem_range (ptr_next ?p 4) 0 ?len = encode_params ps @ 0 # ?junk"
    by (simp add: ptr_next_def)
  have "0 \<notin> set ?junk"
    using assms(3) by (auto simp: mem_range_def) (metis add_diff_inverse_nat not_less nat_add_left_cancel_less)
  then have "pair_up ?mk (cstrings_acc [] (encode_params ps @ 0 # ?junk)) = map (\<lambda>(n, v). ?mk n v) ps"
    by (simp add: pair_up_encode_params [OF assms(1)] cstrings_acc_no_nul)
  then have "scan_params ?mk (ptr_next ?p 4) 0 0 ?len None [] = map (\<lambda>(n, v). ?mk n v) ps"
    by (simp add: scan_params_pairs bytes)
  with v1 v2 len show ?thesis by (simp add: make_startup_msg_def)
qed

theorem startup_roundtrip_witness:
  "make_startup_msg (list_ptr (\<lambda>_. 7) (encode_uint16 BE 3 @ encode_uint16 BE 0 @ encode_params [([117], [98])] @ [0]))
     (length (encode_uint16 BE 3 @ encode_uint16 BE 0 @ encode_params [([117], [98])] @ [0])) BE =
   Inr \<lparr>sm_version = \<lparr>major = 3, minor = 0\<rparr>,
        sm_parameters = map (\<lambda>(n, v). \<lparr>cp_name = n, cp_value = v\<rparr>) [([117], [98])]\<rparr>"
  by (rule startup_roundtrip) (simp_all add: nul_free_def)

text \<open>
  The parameters of a startup message depend on the four bytes after the payload: two
  memories that agree on a complete, well-formed payload (protocol 3.0, user "b") but differ in
  the bytes after it give different messages, one with an additional parameter of empty name.
\<close>

theorem startup_overread:
  "let payload = encode_uint16 BE 3 @ encode_uint16 BE 0 @ encode_params [([117], [98])] @ [0];
       len = length payload
   in make_startup_msg (list_ptr (\<lambda>_. 7) payload) len BE =
        Inr \<lparr>sm_version = \<lparr>major = 3, minor = 0\<rparr>, sm_parameters = [\<lparr>cp_name = [117], cp_value = [98]\<rparr>]\<rparr> \<and>
      make_startup_msg (list_ptr (\<lambda>_. 0) payload) len BE =
        Inr \<lparr>sm_version = \<lparr>major = 3, minor = 0\<rparr>,
             sm_parameters = [\<lparr>cp_name = [117], cp_value = [98]\<rparr>, \<lparr>cp_name = [], cp_value = []\<rparr>,
                              \<lparr>cp_name = [], cp_value = []\<rparr>]\<rparr>"
  by (simp add: Let_def make_startup_msg_def scan_params_pairs encode_uint16_def encode_params_def
      mem_range_def upt_rec list_ptr_def decode_defs)

text \<open>
  A query payload (the text and its terminating NUL) gives the text back, whatever bytes it
  contains; a query packet with an empty payload makes the parser throw.
\<close>

theorem query_roundtrip:
  assumes "length q < 2 ^ 32"
  shows "make_query_msg (list_ptr heap (q @ [0])) (length (q @ [0])) = Inr \<lparr>query = q\<rparr> \<and>
    make_query_msg p 0 = Inl (Std_Exception ''basic_string::_M_create'')"
  using assms
  by (simp add: make_query_msg_eq SIZE_T_def STRING_MAX_def mem_range_list_ptr)

theorem query_roundtrip_witness:
  "make_query_msg (list_ptr (\<lambda>_. 1) ([83, 69] @ [0])) (length ([83, 69 :: byte] @ [0])) = Inr \<lparr>query = [83, 69]\<rparr> \<and>
    make_query_msg (\<lambda>_. 0) 0 = Inl (Std_Exception ''basic_string::_M_create'')"
  by (rule query_roundtrip) simp

text \<open>
  C33. For payload lengths of the protocol, parsing throws exactly on a startup packet shorter than
  its version number and on a query packet with an empty payload; unknown codes are skipped.
\<close>

theorem make_message_errors:
  assumes "len < 2 ^ 32"
  shows "((\<exists>ex. make_message code p len e = Inl ex) \<longleftrightarrow>
           code = StartupMessage_CODE \<and> len < 4 \<or> code = Query_CODE \<and> len = 0) \<and>
    (make_message code p len e = Inr None \<longleftrightarrow>
       code \<notin> {StartupMessage_CODE, ParameterStatus_CODE, Query_CODE, Terminate_CODE})"
  using make_message_throws_iff [OF assms, of code p e]
  by (auto simp: make_message_def message_codes split: sum.splits)

theorem make_message_errors_witness:
  "((\<exists>ex. make_message 0x51 (\<lambda>_. 0) 0 BE = Inl ex) \<longleftrightarrow>
           0x51 = StartupMessage_CODE \<and> (0::nat) < 4 \<or> 0x51 = Query_CODE \<and> (0::nat) = 0) \<and>
    (make_message 0x51 (\<lambda>_. 0) 0 BE = Inr None \<longleftrightarrow>
       0x51 \<notin> {StartupMessage_CODE, ParameterStatus_CODE, Query_CODE, Terminate_CODE})"
  by (rule make_message_errors) simp

end
