(* ===== verification/Handler.thy ===== *)
theory Handler
  imports Protocol Flags
begin

text \<open>
  \<^verbatim>\<open>src/psql_proxy/handler.cpp\<close>: the callback that cuts the client's byte stream into
  protocol messages and reports the queries to the logger and a terminate message to the bus.
  Both branches of \<^verbatim>\<open>operator()\<close> are modelled, the one that works in place on the
  received chunk and the one that works on the saved bytes; an abstract reading of the stream
  (\<open>drain\<close>) is what both refine.
\<close>

section \<open>State and effects\<close>

text \<open>
  The logger and the bus are pointers to other objects; what the handler does to them is the
  list of the calls it makes, in order.
\<close>

datatype call =
    Add_Message "byte list"       \<comment> \<open>\<^verbatim>\<open>_message_logger->add_message(..)\<close>\<close>
  | Enqueue_Event fd flags        \<comment> \<open>\<^verbatim>\<open>_bus->enqueue_event(..)\<close>\<close>

record handler =
  h_buffer :: "byte list"
  first_msg_handled :: bool
  h_fd :: fd

definition handler_new :: "fd \<Rightarrow> handler" where
  "handler_new fd = \<lparr>h_buffer = [], first_msg_handled = False, h_fd = fd\<rparr>"

text \<open>\<^verbatim>\<open>PSQL_Message_Visitor\<close>; the lines it prints to the console are left out.\<close>

fun visit_message :: "fd \<Rightarrow> message \<Rightarrow> call list" where
  "visit_message fd (Msg_Startup m) = []"
| "visit_message fd (Msg_Query m) = [Add_Message (query m)]"
| "visit_message fd (Msg_Terminate m) = [Enqueue_Event fd flags_error]"
| "visit_message fd (Msg_ParameterStatus m) = []"

definition visit_optional :: "fd \<Rightarrow> message option \<Rightarrow> call list" where
  "visit_optional fd msg = (case msg of None \<Rightarrow> [] | Some m \<Rightarrow> visit_message fd m)"

section \<open>operator()\<close>

text \<open>
  The first branch, on the received bytes \<open>[pos, lim)\<close> at \<open>mem\<close>.  A break saves the bytes from
  the start of the unfinished message, \<^verbatim>\<open>pos_orig\<close>, which is \<open>pos\<close> at the loop head.  The
  result is the exception that leaves the function if there is one, the new state and the calls.
\<close>

function direct_loop :: "ptr \<Rightarrow> nat \<Rightarrow> nat \<Rightarrow> handler \<Rightarrow> exn option \<times> handler \<times> call list" where
  "direct_loop mem pos lim h =
     (if pos < lim then
        (let msg_code = (if first_msg_handled h then mem pos else 0);
             p1 = (if first_msg_handled h then pos + 1 else pos);
             save = h\<lparr>h_buffer := mem_range mem pos lim\<rparr>
         in if lim - p1 < 4 then (None, save, [])
            else
              (let e = check_endianness_by_uint32 (ptr_next mem p1);
                   payload_length_with_length = decode_uint32 (ptr_next mem p1) e
               in if payload_length_with_length < 4 then (None, save, [])
                  else
                    (let payload_length = unat (payload_length_with_length - 4);
                         p2 = p1 + 4
                     in if lim - p2 < payload_length then (None, save, [])
                        else
                          (case make_message msg_code (ptr_next mem p2) payload_length e of
                             Inl ex \<Rightarrow> (Some ex, h, [])
                           | Inr msg \<Rightarrow>
                               (let h' = h\<lparr>first_msg_handled := True\<rparr>;
                                    calls = visit_optional (h_fd h) msg;
                                    (ex, h'', rest) = direct_loop mem (p2 + payload_length) lim h'
                                in (ex, h'', calls @ rest))))))
      else (None, h, []))"
  by pat_completeness auto
termination
  by (relation "measure (\<lambda>(mem, pos, lim, h). lim - pos)") auto

text \<open>
  The second branch, on the saved bytes to which the received ones have been appended; \<open>heap\<close> is
  the memory after the vector.
\<close>

function buffered_loop :: "ptr \<Rightarrow> handler \<Rightarrow> exn option \<times> handler \<times> call list" where
  "buffered_loop heap h =
     (let sz = length (h_buffer h); mem = list_ptr heap (h_buffer h)
      in if sz = 0 then (None, h, [])
         else
           (let msg_code = (if first_msg_handled h then mem 0 else 0);
                p1 = (if first_msg_handled h then 1 else 0)
            in if sz - p1 < 4 then (None, h, [])
               else
                 (let e = check_endianness_by_uint32 (ptr_next mem p1);
                      payload_length_with_length = decode_uint32 (ptr_next mem p1) e
                  in if payload_length_with_length < 4 then (None, h, [])
                     else
                       (let payload_length = unat (payload_length_with_length - 4);
                            p2 = p1 + 4
                        in if sz - p2 < payload_length then (None, h, [])
                           else
                             (case make_message msg_code (ptr_next mem p2) payload_length e of
                                Inl ex \<Rightarrow> (Some ex, h, [])
                              | Inr msg \<Rightarrow>
                                  (let h' = h\<lparr>first_msg_handled := True,
                                             h_buffer := drop (p2 + payload_length) (h_buffer h)\<rparr>;
                                       calls = visit_optional (h_fd h) msg
                                   in if 0 < sz - (p2 + payload_length) then
                                        (let (ex, h'', rest) = buffered_loop heap h'
                                         in (ex, h'', calls @ rest))
                                      else (None, h', calls)))))))"
  by pat_completeness auto
termination
  by (relation "measure (\<lambda>(heap, h). length (h_buffer h))") auto

declare direct_loop.simps [simp del] buffered_loop.simps [simp del]

text \<open>
  The callback itself: errors are ignored; a chunk is \<open>len\<close> bytes at \<open>buf\<close>.
\<close>

definition handler_call ::
  "ptr \<Rightarrow> io_error + (ptr \<times> nat) \<Rightarrow> handler \<Rightarrow> exn option \<times> handler \<times> call list" where
  "handler_call heap result h =
     (case result of
        Inl err \<Rightarrow> (None, h, [])
      | Inr (buf, len) \<Rightarrow>
          if h_buffer h = [] then direct_loop buf 0 len h
          else buffered_loop heap (h\<lparr>h_buffer := h_buffer h @ mem_range buf 0 len\<rparr>))"

section \<open>The abstract reading of a stream\<close>

text \<open>
  The header at the front of a byte list: message code, byte order, header length and payload
  length; \<open>None\<close> if more bytes are needed or the length field is below 4.
\<close>

definition next_frame :: "bool \<Rightarrow> byte list \<Rightarrow> (byte \<times> endianness \<times> nat \<times> nat) option" where
  "next_frame first bs =
     (let c = (if first then 1 else 0); p = list_ptr (\<lambda>_. 0) (drop c bs);
          e = check_endianness_by_uint32 p; n = decode_uint32 p e
      in if length bs < c + 4 \<or> n < 4 \<or> length bs < c + 4 + unat (n - 4) then None
         else Some (if first then bs ! 0 else 0, e, c + 4, unat (n - 4)))"

definition frame_result :: "byte \<Rightarrow> endianness \<Rightarrow> byte list \<Rightarrow> fd \<Rightarrow> exn + call list" where
  "frame_result code e payload fd =
     (case make_message code (list_ptr (\<lambda>_. 0) payload) (length payload) e of
        Inl ex \<Rightarrow> Inl ex | Inr msg \<Rightarrow> Inr (visit_optional fd msg))"

function drain :: "fd \<Rightarrow> bool \<Rightarrow> byte list \<Rightarrow> exn option \<times> bool \<times> byte list \<times> call list" where
  "drain fd first bs =
     (case next_frame first bs of
        None \<Rightarrow> (None, first, bs, [])
      | Some (code, e, hl, pl) \<Rightarrow>
          (case frame_result code e (take pl (drop hl bs)) fd of
             Inl ex \<Rightarrow> (Some ex, first, bs, [])
           | Inr calls \<Rightarrow>
               (let (x, f, r, cs) = drain fd True (drop (hl + pl) bs)
                in (x, f, r, calls @ cs))))"
  by pat_completeness auto
termination
  by (relation "measure (\<lambda>(fd, first, bs). length bs)")
     (auto simp: next_frame_def Let_def split: if_splits)

declare drain.simps [simp del]


section \<open>Both branches refine the abstract reading\<close>

text \<open>What a frame makes the handler do depends on its payload bytes only.\<close>

lemma frame_result_eq:
  assumes "len < SIZE_T"
  shows "frame_result code e (mem_range p 0 len) fd =
    (case make_message code p len e of Inl ex \<Rightarrow> Inl ex | Inr msg \<Rightarrow> Inr (visit_optional fd msg))"
proof -
  let ?q = "list_ptr (\<lambda>_. 0) (mem_range p 0 len)"
  have "\<And>n. n \<le> len \<Longrightarrow> mem_range ?q 0 n = mem_range p 0 n"
    by (rule mem_range_cong) (simp_all add: list_ptr_def)
  then show ?thesis
    using assms
    by (simp add: frame_result_def make_message_def make_query_msg_eq make_startup_msg_def
        visit_optional_def split: sum.splits)
qed

lemma next_frame_range:
  fixes mem :: ptr
  assumes "pos < lim" and "c = (if first then 1 else 0)"
    and "p = ptr_next mem (pos + c)" and "e = check_endianness_by_uint32 p"
    and "n = decode_uint32 p e"
  shows "next_frame first (mem_range mem pos lim) =
    (if lim - (pos + c) < 4 \<or> n < 4 \<or> lim - (pos + c + 4) < unat (n - 4) then None
     else Some (if first then mem pos else 0, e, c + 4, unat (n - 4)))"
proof (cases "lim - pos < c + 4")
  case True
  then show ?thesis by (auto simp: next_frame_def Let_def assms(2))
next
  case False
  let ?q = "list_ptr (\<lambda>_. 0) (drop c (mem_range mem pos lim))"
  have q: "k < 4 \<Longrightarrow> ?q k = p k" for k
  proof -
    assume k: "k < 4"
    then have "c + k < lim - pos" using False by linarith
    moreover from this k have "k < lim - (pos + c)" by linarith
    ultimately show ?thesis by (simp add: list_ptr_def assms(3) add.assoc)
  qed
  have e: "check_endianness_by_uint32 ?q = e"
    unfolding assms(4) by (rule check_endianness_cong) (rule q)
  have n: "decode_uint32 ?q e = n"
    unfolding assms(5) by (rule decode_uint32_cong) (rule q)
  show ?thesis
    using False assms(1)
    by (simp add: next_frame_def Let_def assms(2) [symmetric] e n) (auto simp: assms(2))
qed

lemma direct_loop_step:
  assumes "pos < lim" and bs: "bs = mem_range mem pos lim"
  shows "direct_loop mem pos lim h =
    (case next_frame (first_msg_handled h) bs of
       None \<Rightarrow> (None, h\<lparr>h_buffer := bs\<rparr>, [])
     | Some (code, e, hl, pl) \<Rightarrow>
         (case frame_result code e (take pl (drop hl bs)) (h_fd h) of
            Inl ex \<Rightarrow> (Some ex, h, [])
          | Inr calls \<Rightarrow>
              (let (ex, h', rest) =
                     direct_loop mem (pos + hl + pl) lim (h\<lparr>first_msg_handled := True\<rparr>)
               in (ex, h', calls @ rest))))"
proof -
  define c where "c = (if first_msg_handled h then 1 else 0 :: nat)"
  define p where "p = ptr_next mem (pos + c)"
  define e where "e = check_endianness_by_uint32 p"
  define n where "n = decode_uint32 p e"
  define code where "code = (if first_msg_handled h then mem pos else 0)"
  note frame = next_frame_range [OF assms(1) c_def p_def e_def n_def, folded code_def bs]
  have p1: "(if first_msg_handled h then pos + 1 else pos) = pos + c" by (simp add: c_def)
  note loop = direct_loop.simps [of mem pos lim h, unfolded p1 Let_def,
      folded p_def, folded e_def, folded n_def, folded code_def bs]
  have payload: "take (unat (n - 4)) (drop (c + 4) bs) =
      mem_range (ptr_next mem (pos + c + 4)) 0 (unat (n - 4))"
    if "\<not> lim - (pos + c + 4) < unat (n - 4)" and "\<not> lim - (pos + c) < 4"
    using that bs by (simp add: mem_range_drop mem_range_take mem_range_shift add.assoc)
  have fr: "frame_result code e (mem_range q 0 (unat (n - 4))) (h_fd h) =
      (case make_message code q (unat (n - 4)) e of Inl ex \<Rightarrow> Inl ex
       | Inr msg \<Rightarrow> Inr (visit_optional (h_fd h) msg))" for q
    by (rule frame_result_eq) simp
  show ?thesis
  proof (cases "lim - (pos + c) < 4 \<or> n < 4 \<or> lim - (pos + c + 4) < unat (n - 4)")
    case True
    then show ?thesis using assms(1) by (auto simp: loop frame)
  next
    case False
    then show ?thesis using assms(1)
      by (simp add: loop frame payload fr add.assoc split: sum.splits)
  qed
qed

text \<open>
  The result of the abstract reading as the result of the callback; \<open>keep\<close> says whether the
  unread bytes survive an exception.
\<close>

definition drain_result ::
  "bool \<Rightarrow> handler \<Rightarrow> exn option \<times> bool \<times> byte list \<times> call list \<Rightarrow> exn option \<times> handler \<times> call list" where
  "drain_result keep h d =
     (case d of (x, f, r, cs) \<Rightarrow>
        (x, h\<lparr>first_msg_handled := f, h_buffer := (if x = None \<or> keep then r else [])\<rparr>, cs))"

lemma drain_result_Cons:
  "(case drain_result keep h' d of (ex, h'', rest) \<Rightarrow> (ex, h'', calls @ rest)) =
   drain_result keep h (case d of (x, f, r, cs) \<Rightarrow> (x, f, r, calls @ cs))"
  if "h' = h\<lparr>first_msg_handled := x, h_buffer := y\<rparr>"
  using that by (simp add: drain_result_def split: prod.splits)

lemma next_frame_Some:
  "next_frame first bs = Some (code, e, hl, pl) \<Longrightarrow> 0 < hl \<and> hl + pl \<le> length bs \<and> pl < 2 ^ 32"
  using unat_u32_less by (fastforce simp: next_frame_def Let_def split: if_splits)

lemma handler_record_id [simp]:
  "h_buffer h = b \<Longrightarrow> h\<lparr>first_msg_handled := first_msg_handled h, h_buffer := b\<rparr> = h"
  by (cases h) simp

lemma drain_Nil [simp]: "drain fd first [] = (None, first, [], [])"
  by (simp add: drain.simps next_frame_def)

lemma direct_loop_drain:
  "pos \<le> lim \<Longrightarrow> h_buffer h = [] \<Longrightarrow>
   direct_loop mem pos lim h =
     drain_result False h (drain (h_fd h) (first_msg_handled h) (mem_range mem pos lim))"
proof (induction "lim - pos" arbitrary: pos h rule: less_induct)
  case less
  let ?bs = "mem_range mem pos lim"
  note drain = drain.simps [of "h_fd h" "first_msg_handled h" ?bs]
  show ?case
  proof (cases "pos < lim")
    case False
    then show ?thesis using less.prems
      by (simp add: direct_loop.simps drain_result_def)
  next
    case True
    note loop = direct_loop_step [OF True refl, of mem h]
    show ?thesis
    proof (cases "next_frame (first_msg_handled h) ?bs")
      case None
      then show ?thesis by (simp add: loop drain drain_result_def)
    next
      case (Some fr)
      obtain code e hl pl where fr: "fr = (code, e, hl, pl)" by (cases fr)
      note b = next_frame_Some [OF Some [unfolded fr]]
      let ?h' = "h\<lparr>first_msg_handled := True\<rparr>"
      have ih: "direct_loop mem (pos + hl + pl) lim ?h' =
        drain_result False ?h' (drain (h_fd h) True (drop (hl + pl) ?bs))"
    proof -
      have "lim - (pos + hl + pl) < lim - pos" "pos + hl + pl \<le> lim"
        using b True by auto
      then show ?thesis
        using less.hyps [of "pos + hl + pl" ?h'] less.prems by (simp add: mem_range_drop add.assoc)
    qed
      show ?thesis
        using less.prems
        by (auto simp: loop drain Some fr ih drain_result_def Let_def
            split: sum.splits prod.splits)
    qed
  qed
qed

lemma buffered_loop_step:
  assumes bs: "bs = h_buffer h" and "bs \<noteq> []"
  shows "buffered_loop heap h =
    (case next_frame (first_msg_handled h) bs of
       None \<Rightarrow> (None, h, [])
     | Some (code, e, hl, pl) \<Rightarrow>
         (case frame_result code e (take pl (drop hl bs)) (h_fd h) of
            Inl ex \<Rightarrow> (Some ex, h, [])
          | Inr calls \<Rightarrow>
              (let (ex, h', rest) = buffered_loop heap
                     (h\<lparr>first_msg_handled := True, h_buffer := drop (hl + pl) bs\<rparr>)
               in (ex, h', calls @ rest))))"
proof -
  define lim where "lim = length bs"
  define mem where "mem = list_ptr heap bs"
  define c where "c = (if first_msg_handled h then 1 else 0 :: nat)"
  define p where "p = ptr_next mem (0 + c)"
  define e where "e = check_endianness_by_uint32 p"
  define n where "n = decode_uint32 p e"
  define code where "code = (if first_msg_handled h then mem 0 else 0)"
  have lim: "0 < lim" using assms(2) by (simp add: lim_def)
  have range: "mem_range mem 0 lim = bs" by (simp add: mem_def lim_def)
  note frame = next_frame_range [OF lim c_def p_def e_def n_def, folded code_def, unfolded range]
  note loop = buffered_loop.simps [of heap h, folded bs, unfolded Let_def, folded mem_def,
      folded c_def code_def, folded lim_def]
  have p: "ptr_next mem c = p" by (simp add: p_def)
  have payload: "take (unat (n - 4)) (drop (c + 4) bs) = mem_range (ptr_next mem (c + 4)) 0 (unat (n - 4))"
    if "\<not> lim - (c + 4) < unat (n - 4)" and "\<not> lim - c < 4"
    using that by (simp add: range [symmetric] mem_range_drop mem_range_take mem_range_shift)
  have fr: "frame_result code e (mem_range q 0 (unat (n - 4))) (h_fd h) =
      (case make_message code q (unat (n - 4)) e of Inl ex \<Rightarrow> Inl ex
       | Inr msg \<Rightarrow> Inr (visit_optional (h_fd h) msg))" for q
    by (rule frame_result_eq) simp
  have empty: "buffered_loop heap (h\<lparr>first_msg_handled := True, h_buffer := drop k bs\<rparr>) =
      (None, h\<lparr>first_msg_handled := True, h_buffer := drop k bs\<rparr>, [])" if "\<not> 0 < lim - k" for k
    using that by (simp add: buffered_loop.simps lim_def)
  show ?thesis
  proof (cases "lim - (0 + c) < 4 \<or> n < 4 \<or> lim - (0 + c + 4) < unat (n - 4)")
    case True
    then show ?thesis using lim by (auto simp: loop frame p e_def [symmetric] n_def [symmetric])
  next
    case False
    then show ?thesis using lim
      by (simp add: loop frame p e_def [symmetric] n_def [symmetric] payload fr empty
          del: zero_less_diff split: sum.splits)
  qed
qed

lemma buffered_loop_drain:
  "buffered_loop heap h = drain_result True h (drain (h_fd h) (first_msg_handled h) (h_buffer h))"
proof (induction "length (h_buffer h)" arbitrary: h rule: less_induct)
  case less
  let ?bs = "h_buffer h"
  note drain = drain.simps [of "h_fd h" "first_msg_handled h" ?bs]
  show ?case
  proof (cases "?bs = []")
    case True
    then show ?thesis by (simp add: buffered_loop.simps drain_result_def)
  next
    case False
    note loop = buffered_loop_step [OF refl False, of heap]
    show ?thesis
    proof (cases "next_frame (first_msg_handled h) ?bs")
      case None
      then show ?thesis by (simp add: loop drain drain_result_def)
    next
      case (Some fr)
      obtain code e hl pl where fr: "fr = (code, e, hl, pl)" by (cases fr)
      note b = next_frame_Some [OF Some [unfolded fr]]
      let ?h' = "h\<lparr>first_msg_handled := True, h_buffer := drop (hl + pl) ?bs\<rparr>"
      have ih: "buffered_loop heap ?h' = drain_result True ?h' (drain (h_fd h) True (drop (hl + pl) ?bs))"
        using less.hyps [of ?h'] b False by simp
      show ?thesis
        by (auto simp: loop drain Some fr ih drain_result_def Let_def
            split: sum.splits prod.splits)
    qed
  qed
qed

text \<open>The callback in both branches.\<close>

lemma handler_call_drain:
  "handler_call heap (Inr (buf, len)) h =
     drain_result (h_buffer h \<noteq> []) h
       (drain (h_fd h) (first_msg_handled h) (h_buffer h @ mem_range buf 0 len))"
  by (simp add: handler_call_def direct_loop_drain buffered_loop_drain)
     (simp add: drain_result_def split: prod.splits)

section \<open>Streams cut into chunks\<close>

text \<open>Bytes that arrive later do not change how the bytes before them are read.\<close>

lemma next_frame_append:
  assumes "next_frame first a = Some fr"
  shows "next_frame first (a @ b) = Some fr"
proof -
  define c where "c = (if first then 1 else 0 :: nat)"
  let ?p = "list_ptr (\<lambda>_. 0) (drop c a)" and ?q = "list_ptr (\<lambda>_. 0) (drop c (a @ b))"
  have len: "c + 4 \<le> length a"
    using assms by (auto simp: next_frame_def Let_def c_def split: if_splits)
  have q: "?q k = ?p k" if "k < 4" for k
  proof -
    have "k < length a - c" using len that by linarith
    then show ?thesis by (auto simp: list_ptr_def nth_append)
  qed
  have "check_endianness_by_uint32 ?q = check_endianness_by_uint32 ?p"
    by (rule check_endianness_cong) (rule q)
  moreover have "decode_uint32 ?q e = decode_uint32 ?p e" for e
    by (rule decode_uint32_cong) (rule q)
  moreover have "first \<longrightarrow> (a @ b) ! 0 = a ! 0" using len by (auto simp: nth_append c_def)
  ultimately show ?thesis
    using assms by (auto simp: next_frame_def Let_def c_def [symmetric] split: if_splits)
qed

lemma drain_append:
  "drain fd first a = (x, f, r, cs) \<Longrightarrow>
   drain fd first (a @ b) =
     (if x = None then (case drain fd f (r @ b) of (x', f', r', cs') \<Rightarrow> (x', f', r', cs @ cs'))
      else (x, f, r @ b, cs))"
proof (induction fd first a arbitrary: x f r cs rule: drain.induct)
  case (1 fd first a)
  show ?case
  proof (cases "next_frame first a")
    case None
    with "1.prems" show ?thesis by (auto simp: drain.simps [of fd first a] split: prod.splits)
  next
    case (Some fr)
    obtain code e hl pl where fr: "fr = (code, e, hl, pl)" by (cases fr)
    note b = next_frame_Some [OF Some [unfolded fr]]
    have nf: "next_frame first (a @ b) = Some (code, e, hl, pl)"
      using next_frame_append [OF Some] fr by simp
    have pay: "take pl (drop hl (a @ b)) = take pl (drop hl a)" and rest:
      "drop (hl + pl) (a @ b) = drop (hl + pl) a @ b" using b by auto
    note simps = drain.simps [of fd first a] drain.simps [of fd first "a @ b"]
    show ?thesis
    proof (cases "frame_result code e (take pl (drop hl a)) fd")
      case (Inl ex)
      then have "drain fd first (a @ b) = (Some ex, first, a @ b, [])"
        by (simp add: simps nf pay del: drop_append take_append)
      with "1.prems" Inl show ?thesis by (auto simp: simps(1) Some fr)
    next
      case (Inr calls)
      obtain x' f' r' cs' where d: "drain fd True (drop (hl + pl) a) = (x', f', r', cs')"
        by (cases "drain fd True (drop (hl + pl) a)")
      have ih: "drain fd True (drop (hl + pl) a @ b) =
          (if x' = None then (case drain fd f' (r' @ b) of (x', f', r', ds) \<Rightarrow> (x', f', r', cs' @ ds))
           else (x', f', r' @ b, cs'))"
        using "1.IH" [OF Some] fr Inr d by fastforce
      from "1.prems" d show ?thesis
        by (simp add: simps Some fr nf pay rest Inr ih del: drop_append split: prod.splits)
    qed
  qed
qed

text \<open>The callback called on every chunk of a stream, until one of the calls throws.\<close>

fun feed :: "(ptr \<times> ptr \<times> nat) list \<Rightarrow> handler \<Rightarrow> exn option \<times> handler \<times> call list" where
  "feed [] h = (None, h, [])"
| "feed ((heap, buf, len) # chunks) h =
     (case handler_call heap (Inr (buf, len)) h of
        (Some ex, h', calls) \<Rightarrow> (Some ex, h', calls)
      | (None, h', calls) \<Rightarrow> (let (x, h'', rest) = feed chunks h' in (x, h'', calls @ rest)))"

definition stream_bytes :: "(ptr \<times> ptr \<times> nat) list \<Rightarrow> byte list" where
  "stream_bytes chunks = concat (map (\<lambda>(heap, buf, len). mem_range buf 0 len) chunks)"

lemma stream_bytes_simps [simp]:
  "stream_bytes [] = []"
  "stream_bytes ((heap, buf, len) # chunks) = mem_range buf 0 len @ stream_bytes chunks"
  by (simp_all add: stream_bytes_def)

lemma drain_stable:
  assumes "drain fd first a = (None, f, r, cs)" shows "drain fd f r = (None, f, r, [])"
  using drain_append [OF assms, of "[]"] assms by (auto split: prod.splits)

lemma feed_drain:
  assumes "drain (h_fd h) (first_msg_handled h) (h_buffer h) = (None, first_msg_handled h, h_buffer h, [])"
    and "drain (h_fd h) (first_msg_handled h) (h_buffer h @ stream_bytes chunks) = (x, f, r, cs)"
  shows "\<exists>h'. feed chunks h = (x, h', cs) \<and>
    (x = None \<longrightarrow> h' = h\<lparr>first_msg_handled := f, h_buffer := r\<rparr>)"
  using assms
proof (induction chunks arbitrary: h cs)
  case Nil
  then show ?case by auto
next
  case (Cons c chunks)
  obtain heap buf len where c: "c = (heap, buf, len)" by (cases c)
  obtain x1 f1 r1 cs1 where d: "drain (h_fd h) (first_msg_handled h) (h_buffer h @ mem_range buf 0 len) =
      (x1, f1, r1, cs1)"
    by (cases "drain (h_fd h) (first_msg_handled h) (h_buffer h @ mem_range buf 0 len)")
  note app = drain_append [OF d, of "stream_bytes chunks"]
  show ?case
  proof (cases x1)
    case (Some ex)
    with app Cons.prems(2) d show ?thesis
      by (auto simp: c handler_call_drain drain_result_def)
  next
    case None
    let ?h = "h\<lparr>first_msg_handled := f1, h_buffer := r1\<rparr>"
    obtain cs2 where "drain (h_fd h) f1 (r1 @ stream_bytes chunks) = (x, f, r, cs2)" "cs = cs1 @ cs2"
      using app Cons.prems(2) None by (auto simp: c split: prod.splits)
    with Cons.IH [of ?h cs2] drain_stable d None show ?thesis
      by (auto simp: c handler_call_drain drain_result_def)
  qed
qed

section \<open>Streams of a protocol client\<close>

text \<open>A packet as a client sends it; the startup packet has no message code.\<close>

definition encode_packet :: "byte list \<Rightarrow> endianness \<Rightarrow> byte list \<Rightarrow> byte list" where
  "encode_packet code e payload = code @ encode_uint32 e (of_nat (length payload + 4)) @ payload"

definition encode_queries :: "endianness \<Rightarrow> byte list list \<Rightarrow> byte list" where
  "encode_queries e qs = concat (map (\<lambda>q. encode_packet [Query_CODE] e (q @ [0])) qs)"

lemma next_frame_packet:
  assumes "length payload + 4 < 65536" and "length code = (if first then 1 else 0)"
  shows "\<exists>e'. next_frame first (encode_packet code e payload @ rest) =
    Some (if first then code ! 0 else 0, e', length code + 4, length payload)"
proof -
  let ?n = "of_nat (length payload + 4) :: u32"
  let ?p = "list_ptr (\<lambda>_. 0) (drop (length code) (encode_packet code e payload @ rest))"
  have n: "unat ?n = length payload + 4"
    using assms(1) by (simp only: unat_of_nat) simp
  then have "\<not> ?n < 4" by (simp add: word_less_nat_alt)
  moreover have "unat (of_nat (length payload) :: u32) = length payload"
    using assms(1) by (simp only: unat_of_nat) simp
  ultimately have n4: "\<not> ?n < 4" "unat (?n - 4) = length payload" by simp_all
  have "?n < 65536" using n assms(1) by (simp add: word_less_nat_alt)
  then have "decode_uint32 ?p (check_endianness_by_uint32 ?p) = ?n"
    by (simp add: encode_packet_def encode_uint32_guess)
  then show ?thesis
    using n4 assms(2) by (auto simp: next_frame_def Let_def encode_packet_def nth_append)
qed

lemma drain_packet:
  assumes "length payload + 4 < 65536" and "length code = (if first then 1 else 0)"
    and "\<And>e'. frame_result (if first then code ! 0 else 0) e' payload fd = Inr calls"
  shows "drain fd first (encode_packet code e payload @ rest) =
    (case drain fd True rest of (x, f, r, cs) \<Rightarrow> (x, f, r, calls @ cs))"
proof -
  obtain e' where nf: "next_frame first (encode_packet code e payload @ rest) =
      Some (if first then code ! 0 else 0, e', length code + 4, length payload)"
    using next_frame_packet [OF assms(1,2)] by blast
  have "take (length payload) (drop (length code + 4) (encode_packet code e payload @ rest)) = payload"
    "drop (length code + 4 + length payload) (encode_packet code e payload @ rest) = rest"
    by (simp_all add: encode_packet_def)
  then show ?thesis
    using assms(3) by (subst drain.simps) (simp add: nf Let_def del: drop_append take_append)
qed

lemma frame_result_query: "length q < 65536 \<Longrightarrow> frame_result Query_CODE e (q @ [0]) fd = Inr [Add_Message q]"
  by (simp add: frame_result_def make_message_def message_codes make_query_msg_eq SIZE_T_def
      STRING_MAX_def mem_range_list_ptr visit_optional_def)

lemma frame_result_startup: "4 \<le> length p \<Longrightarrow> frame_result 0 e p fd = Inr []"
  by (simp add: frame_result_def make_message_def message_codes make_startup_msg_def visit_optional_def)

lemma frame_result_terminate: "frame_result Terminate_CODE e p fd = Inr [Enqueue_Event fd flags_error]"
  by (simp add: frame_result_def make_message_def message_codes visit_optional_def)

lemma drain_queries:
  "\<forall>q\<in>set qs. length q + 5 < 65536 \<Longrightarrow>
   drain fd True (encode_queries e qs @ rest) =
     (case drain fd True rest of (x, f, r, cs) \<Rightarrow> (x, f, r, map Add_Message qs @ cs))"
proof (induction qs)
  case Nil
  then show ?case by (simp add: encode_queries_def)
next
  case (Cons q qs)
  have "drain fd True (encode_packet [Query_CODE] e (q @ [0]) @ encode_queries e qs @ rest) =
    (case drain fd True (encode_queries e qs @ rest) of (x, f, r, cs) \<Rightarrow> (x, f, r, [Add_Message q] @ cs))"
    using Cons.prems by (intro drain_packet) (simp_all add: frame_result_query)
  with Cons show ?case by (simp add: encode_queries_def split: prod.splits)
qed

section \<open>Properties\<close>

lemma drain_handler_new [simp]:
  "h_buffer (handler_new fd) = []" "first_msg_handled (handler_new fd) = False"
  "h_fd (handler_new fd) = fd"
  by (simp_all add: handler_new_def)

lemma feed_handler_new:
  assumes "drain fd False (stream_bytes chunks) = (x, f, r, cs)"
  shows "\<exists>h'. feed chunks (handler_new fd) = (x, h', cs) \<and>
    (x = None \<longrightarrow> h' = \<lparr>h_buffer = r, first_msg_handled = f, h_fd = fd\<rparr>)"
  using feed_drain [of "handler_new fd" chunks x f r cs] assms
  by (auto simp: handler_new_def)

text \<open>
  The branch that works in place and the branch that works on the saved bytes read the stream
  alike: for every state, chunk and surrounding memory the callback gives the result of the
  abstract reading of the saved bytes followed by the chunk; the branches differ only in that the
  unread bytes are kept by the second one when parsing throws, and lost by the first one.
\<close>

theorem handler_branches_agree:
  "handler_call heap (Inr (buf, len)) h =
     (case drain (h_fd h) (first_msg_handled h) (h_buffer h @ mem_range buf 0 len) of
        (x, f, r, cs) \<Rightarrow>
          (x, h\<lparr>first_msg_handled := f,
                h_buffer := (if x = None \<or> h_buffer h \<noteq> [] then r else [])\<rparr>, cs))"
  by (simp add: handler_call_drain drain_result_def)

text \<open>
  C10. What the handler does with a stream does not depend on how the stream is cut into chunks:
  two cuts of the same bytes give the same calls in the same order, the same exception if there is
  one, and if there is none the same state.
\<close>

theorem handler_chunking:
  assumes "stream_bytes chunks = stream_bytes chunks'"
  shows "case (feed chunks (handler_new fd), feed chunks' (handler_new fd)) of
    ((x, h, cs), (x', h', cs')) \<Rightarrow> x = x' \<and> cs = cs' \<and> (x = None \<longrightarrow> h = h')"
proof -
  obtain x f r cs where "drain fd False (stream_bytes chunks) = (x, f, r, cs)"
    by (cases "drain fd False (stream_bytes chunks)")
  with feed_handler_new [of fd chunks x f r cs] feed_handler_new [of fd chunks' x f r cs] assms
  show ?thesis by auto
qed

theorem handler_chunking_witness:
  "case (feed [(\<lambda>_. 0, list_ptr (\<lambda>_. 1) [0, 0], 2), (\<lambda>_. 5, \<lambda>_. 8, 1)] (handler_new 7),
         feed [(\<lambda>_. 0, list_ptr (\<lambda>_. 2) [0, 0, 8], 3)] (handler_new 7)) of
    ((x, h, cs), (x', h', cs')) \<Rightarrow> x = x' \<and> cs = cs' \<and> (x = None \<longrightarrow> h = h')"
  by (rule handler_chunking) (simp add: mem_range_def list_ptr_def upt_rec)

lemma drain_client_stream:
  assumes "4 \<le> length start" and "length start + 4 < 65536"
    and "\<forall>q\<in>set qs. length q + 5 < 65536"
  shows "drain fd False (encode_packet [] e start @ encode_queries e qs @
           (if terminated then encode_packet [Terminate_CODE] e [] else [])) =
    (None, True, [], map Add_Message qs @ (if terminated then [Enqueue_Event fd flags_error] else []))"
proof -
  let ?fin = "if terminated then encode_packet [Terminate_CODE] e [] else []"
  let ?calls = "if terminated then [Enqueue_Event fd flags_error] else []"
  have "drain fd True (encode_packet [Terminate_CODE] e [] @ []) =
      (None, True, [], [Enqueue_Event fd flags_error])"
    by (subst drain_packet [where calls = "[Enqueue_Event fd flags_error]"])
      (simp_all add: frame_result_terminate)
  then have terminate: "drain fd True ?fin = (None, True, [], ?calls)" by simp
  have "drain fd False (encode_packet [] e start @ encode_queries e qs @ ?fin) =
      (case drain fd True (encode_queries e qs @ ?fin) of (x, f, r, cs) \<Rightarrow> (x, f, r, [] @ cs))"
    using assms(1,2) by (intro drain_packet) (simp_all add: frame_result_startup)
  also have "\<dots> = (None, True, [], map Add_Message qs @ ?calls)"
    by (simp add: drain_queries [OF assms(3)] terminate)
  finally show ?thesis .
qed

text \<open>
  C9. End to end: the stream of a client that sends a startup packet, any queries shorter than the
  limit of the byte-order guess and a terminate packet, cut in any way, makes the handler log
  exactly the queries, in order and unchanged, and then raise the error event on its descriptor;
  every byte is consumed and nothing throws.
\<close>

theorem query_stream_logged:
  assumes "4 \<le> length start" and "length start + 4 < 65536"
    and "\<forall>q\<in>set qs. length q + 5 < 65536"
    and "stream_bytes chunks = encode_packet [] e start @ encode_queries e qs @
           (if terminated then encode_packet [Terminate_CODE] e [] else [])"
  shows "feed chunks (handler_new fd) =
    (None, \<lparr>h_buffer = [], first_msg_handled = True, h_fd = fd\<rparr>,
     map Add_Message qs @ (if terminated then [Enqueue_Event fd flags_error] else []))"
  using feed_handler_new [of fd chunks] drain_client_stream [OF assms(1-3), of fd e terminated] assms(4)
  by fastforce

text \<open>Every chunk of one byte, as the slowest peer would send it.\<close>

definition byte_chunks :: "byte list \<Rightarrow> (ptr \<times> ptr \<times> nat) list" where
  "byte_chunks bs = map (\<lambda>b. (\<lambda>_. 0, \<lambda>_. b, 1)) bs"

lemma stream_byte_chunks [simp]: "stream_bytes (byte_chunks bs) = bs"
  by (induction bs) (simp_all add: byte_chunks_def mem_range_def)

theorem query_stream_logged_witness:
  "feed (byte_chunks (encode_packet [] BE [0, 3, 0, 0, 0] @ encode_queries BE [[65], [66, 67]] @
      (if True then encode_packet [Terminate_CODE] BE [] else []))) (handler_new 9) =
    (None, \<lparr>h_buffer = [], first_msg_handled = True, h_fd = 9\<rparr>,
     map Add_Message [[65], [66, 67]] @ (if True then [Enqueue_Event 9 flags_error] else []))"
  by (rule query_stream_logged [where e = BE]) simp_all

text \<open>
  C34. After a packet whose length field is below 4 the handler never reports anything again: every
  later chunk is only appended to the saved bytes, which grow without bound.
\<close>

theorem handler_stuck:
  assumes "first_msg_handled h" and "4 < length (h_buffer h)"
    and "p = list_ptr (\<lambda>_. 0) (drop 1 (h_buffer h))"
    and "decode_uint32 p (check_endianness_by_uint32 p) < 4"
  shows "feed chunks h = (None, h\<lparr>h_buffer := h_buffer h @ stream_bytes chunks\<rparr>, [])"
proof -
  let ?b = "h_buffer h"
  have stuck: "drain (h_fd h) True (?b @ ys) = (None, True, ?b @ ys, [])" for ys
  proof -
    let ?q = "list_ptr (\<lambda>_. 0) (drop 1 (?b @ ys))"
    have q: "k < 4 \<Longrightarrow> ?q k = p k" for k
      using assms(2) by (auto simp: assms(3) list_ptr_def nth_append)
    have "check_endianness_by_uint32 ?q = check_endianness_by_uint32 p"
      by (rule check_endianness_cong) (rule q)
    moreover have "decode_uint32 ?q e = decode_uint32 p e" for e
      by (rule decode_uint32_cong) (rule q)
    ultimately have "next_frame True (?b @ ys) = None"
      using assms(4) by (simp add: next_frame_def Let_def)
    then show ?thesis by (simp add: drain.simps)
  qed
  obtain h' where "feed chunks h = (None, h', [])"
    "h' = h\<lparr>first_msg_handled := True, h_buffer := ?b @ stream_bytes chunks\<rparr>"
    using feed_drain [of h chunks None True "?b @ stream_bytes chunks" "[]"] stuck stuck [of "[]"] assms(1)
    by auto
  with assms(1) show ?thesis by (cases h) simp
qed

theorem handler_stuck_witness:
  "feed [(\<lambda>_. 0, \<lambda>_. Query_CODE, 2)] \<lparr>h_buffer = [Query_CODE, 0, 0, 0, 3], first_msg_handled = True, h_fd = 4\<rparr> =
    (None, \<lparr>h_buffer = [Query_CODE, 0, 0, 0, 3], first_msg_handled = True, h_fd = 4\<rparr>
      \<lparr>h_buffer := h_buffer \<lparr>h_buffer = [Query_CODE, 0, 0, 0, 3], first_msg_handled = True, h_fd = 4\<rparr> @
         stream_bytes [(\<lambda>_. 0, \<lambda>_. Query_CODE, 2)]\<rparr>, [])"
  by (rule handler_stuck [OF _ _ refl])
     (simp_all add: list_ptr_def decode_defs check_endianness_by_uint32_def)

text \<open>
  When parsing throws while bytes are saved, the offending packet stays at the front of the
  saved bytes and every later chunk throws the same exception again without any effect but growing
  them; when it throws on a fresh chunk, nothing of the chunk is saved.
\<close>

theorem handler_exception:
  assumes "handler_call heap (Inr (buf, len)) h = (Some ex, h', cs)"
  shows "if h_buffer h = [] then h_buffer h' = []
    else h_buffer h' \<noteq> [] \<and>
      handler_call heap' (Inr (buf', len')) h' =
        (Some ex, h'\<lparr>h_buffer := h_buffer h' @ mem_range buf' 0 len'\<rparr>, [])"
proof -
  obtain x f r cs' where d: "drain (h_fd h) (first_msg_handled h) (h_buffer h @ mem_range buf 0 len) =
      (x, f, r, cs')"
    by (cases "drain (h_fd h) (first_msg_handled h) (h_buffer h @ mem_range buf 0 len)")
  have again: "drain fd f r = (Some ex, f, r, []) \<and> r \<noteq> []" if "drain fd g a = (Some ex, f, r, cs)"
    for fd g a cs
    using that
  proof (induction fd g a arbitrary: cs rule: drain.induct)
    case (1 fd g a)
    show ?case
    proof (cases "next_frame g a")
      case None
      with "1.prems" show ?thesis by (simp add: drain.simps [of fd g a])
    next
      case (Some fr)
      obtain code e hl pl where fr: "fr = (code, e, hl, pl)" by (cases fr)
      note b = next_frame_Some [OF Some [unfolded fr]]
      show ?thesis
      proof (cases "frame_result code e (take pl (drop hl a)) fd")
        case (Inl ex')
        with "1.prems" have "drain fd f r = drain fd g a" "r = a" "ex' = ex" "f = g"
          by (auto simp: drain.simps [of fd g a] Some fr)
        with Inl b show ?thesis by (auto simp: drain.simps [of fd g a] Some fr)
      next
        case (Inr calls)
        with "1.prems" obtain cs' where "drain fd True (drop (hl + pl) a) = (Some ex, f, r, cs')"
          by (auto simp: drain.simps [of fd g a] Some fr Let_def split: prod.splits)
        with "1.IH" [OF Some] fr Inr show ?thesis by blast
      qed
    qed
  qed
  have h': "h' = h\<lparr>first_msg_handled := f, h_buffer := (if h_buffer h \<noteq> [] then r else [])\<rparr>" and "x = Some ex"
    using assms d by (auto simp: handler_call_drain drain_result_def)
  with d again have a: "drain (h_fd h) f r = (Some ex, f, r, [])" "r \<noteq> []" by auto
  show ?thesis
    using drain_append [OF a(1), of "mem_range buf' 0 len'"] a(2)
    by (auto simp: h' handler_call_drain drain_result_def)
qed

theorem handler_exception_witness:
  "if h_buffer \<lparr>h_buffer = [Query_CODE, 0, 0], first_msg_handled = True, h_fd = 4\<rparr> = [] then
     h_buffer \<lparr>h_buffer = [Query_CODE, 0, 0, 0, 4], first_msg_handled = True, h_fd = 4\<rparr> = []
   else h_buffer \<lparr>h_buffer = [Query_CODE, 0, 0, 0, 4], first_msg_handled = True, h_fd = 4\<rparr> \<noteq> [] \<and>
     handler_call (\<lambda>_. 0) (Inr (\<lambda>_. 1, 1)) \<lparr>h_buffer = [Query_CODE, 0, 0, 0, 4], first_msg_handled = True, h_fd = 4\<rparr> =
       (Some (Std_Exception ''basic_string::_M_create''),
        \<lparr>h_buffer = [Query_CODE, 0, 0, 0, 4], first_msg_handled = True, h_fd = 4\<rparr>
          \<lparr>h_buffer := h_buffer \<lparr>h_buffer = [Query_CODE, 0, 0, 0, 4], first_msg_handled = True, h_fd = 4\<rparr> @
             mem_range (\<lambda>_. 1) 0 1\<rparr>, [])"
proof (rule handler_exception)
  let ?bs = "[Query_CODE, 0, 0, 0, 4]" and ?ex = "Std_Exception ''basic_string::_M_create''"
  have nf: "next_frame True ?bs = Some (Query_CODE, BE, 5, 0)"
    by (simp add: next_frame_def list_ptr_def decode_defs check_endianness_by_uint32_def)
  have "frame_result Query_CODE BE [] 4 = Inl ?ex"
    by (simp add: frame_result_def make_message_def message_codes make_query_msg_eq SIZE_T_def)
  then have d: "drain 4 True ?bs = (Some ?ex, True, ?bs, [])"
    by (simp add: drain.simps [of 4 True ?bs] nf)
  show "handler_call (\<lambda>_. 0) (Inr (list_ptr (\<lambda>_. 0) [0, 4], 2))
      \<lparr>h_buffer = [Query_CODE, 0, 0], first_msg_handled = True, h_fd = 4\<rparr> =
    (Some ?ex, \<lparr>h_buffer = ?bs, first_msg_handled = True, h_fd = 4\<rparr>, [])"
    by (simp add: handler_call_drain mem_range_list_ptr d drain_result_def)
qed

end
