(* ===== verification/System.thy ===== *)
theory System
  imports Errors Flags
begin

text \<open>
  The operating system as the code sees it: \<^verbatim>\<open>errno\<close> and the kernel's own state, whose type is
  a parameter of the model.  A system call is a function argument of the definitions that use it;
  it takes the world and gives its result and the world afterwards, so that a later call may
  depend on everything before it.
\<close>

section \<open>The world\<close>

record 'k world =
  errno :: int
  kernel :: 'k

type_synonym ('k, 'a) syscall = "'k world \<Rightarrow> 'a \<times> 'k world"

text \<open>The error numbers the code distinguishes; the ones that only mean "not now".\<close>

definition EINTR :: int where "EINTR = 4"
definition EAGAIN :: int where "EAGAIN = 11"
definition EINPROGRESS :: int where "EINPROGRESS = 115"

definition would_block :: "int \<Rightarrow> bool" where
  "would_block e \<longleftrightarrow> e \<in> {EINTR, EAGAIN, EINPROGRESS}"

section \<open>Exceptions as io::error objects\<close>

text \<open>
  The three \<^verbatim>\<open>catch\<close> clauses the code writes again and again: an \<open>io::error\<close> is passed on, any
  other exception is wrapped with the given descriptor and the current \<^verbatim>\<open>errno\<close>.
\<close>

definition caught :: "fd \<Rightarrow> int \<Rightarrow> exn \<Rightarrow> io_error" where
  "caught fd err ex =
     (case ex of
        Io_Error e \<Rightarrow> e
      | Std_Exception what \<Rightarrow> mk_error what fd err
      | Unknown_Exception \<Rightarrow> mk_error ''unknown io error'' fd err)"

lemma caught_simps [simp]:
  "caught fd err (Io_Error e) = e"
  "caught fd err (Std_Exception what) = mk_error what fd err"
  "caught fd err Unknown_Exception = mk_error ''unknown io error'' fd err"
  by (simp_all add: caught_def)

text \<open>Calling an empty \<^verbatim>\<open>std::function\<close> throws.\<close>

definition bad_function_call :: exn where
  "bad_function_call = Std_Exception ''bad_function_call''"

end
