(* ===== verification/Bus.thy ===== *)
theory Bus
  imports System
begin

text \<open>
  \<^verbatim>\<open>src/io/bus.cpp\<close> with \<^verbatim>\<open>event_reciever.cpp\<close>: the callbacks of each descriptor, their
  deferred removal and the queue of events that callbacks raise.  Callbacks are values of a type
  \<open>'cb\<close>; what calling one does, and what the pure virtual functions \<^verbatim>\<open>_add_fd\<close>,
  \<^verbatim>\<open>_del_fd\<close> and \<^verbatim>\<open>_wait_events\<close> do, are arguments: \<open>Epoll\<close> gives the latter.
\<close>

section \<open>State\<close>

record 'cb bus =
  callback_map :: "fd \<rightharpoonup> 'cb list"
  callbacks_to_remove :: "fd set"
  events :: "(fd \<times> flags) list"

definition bus_new :: "'cb bus" where
  "bus_new = \<lparr>callback_map = Map.empty, callbacks_to_remove = {}, events = []\<rparr>"

text \<open>The callbacks of a descriptor, none if it has no entry.\<close>

definition callbacks_of :: "'cb bus \<Rightarrow> fd \<Rightarrow> 'cb list" where
  "callbacks_of b fd = (case callback_map b fd of None \<Rightarrow> [] | Some cbs \<Rightarrow> cbs)"

text \<open>Everything a callback can change, and the result of code that may throw.\<close>

type_synonym ('k, 'cb) state = "'k world \<times> 'cb bus"
type_synonym ('k, 'cb) action = "('k, 'cb) state \<Rightarrow> exn option \<times> ('k, 'cb) state"
type_synonym ('k, 'cb) invoke = "'cb \<Rightarrow> fd \<Rightarrow> flags \<Rightarrow> ('k, 'cb) action"
type_synonym ('k, 'cb) reporter = "io_error \<Rightarrow> ('k, 'cb) action"

section \<open>Operations\<close>

definition add_fd :: "(fd \<Rightarrow> ('k, exn option) syscall) \<Rightarrow> fd \<Rightarrow> 'cb option \<Rightarrow> ('k, 'cb) action" where
  "add_fd sys_add fd callback = (\<lambda>(w, b).
     (let (ex, w1, b1) =
        (case callback_map b fd of
           None \<Rightarrow> (let (ex, w') = sys_add fd w
                   in (ex, w', b\<lparr>callback_map := (callback_map b)(fd \<mapsto> [])\<rparr>))
         | Some cbs \<Rightarrow> (None, w, b))
      in case ex of
           Some e \<Rightarrow> (Some e, w1, b1)
         | None \<Rightarrow>
             (case callback of
                None \<Rightarrow> (None, w1, b1)
              | Some cb \<Rightarrow>
                  (None, w1, b1\<lparr>callback_map :=
                     (callback_map b1)(fd \<mapsto> the (callback_map b1 fd) @ [cb])\<rparr>))))"

definition del_fd_callbacks :: "fd \<Rightarrow> 'cb bus \<Rightarrow> 'cb bus" where
  "del_fd_callbacks fd b = b\<lparr>callbacks_to_remove := insert fd (callbacks_to_remove b)\<rparr>"

definition del_fd :: "(fd \<Rightarrow> ('k, exn option) syscall) \<Rightarrow> fd \<Rightarrow> ('k, 'cb) action" where
  "del_fd sys_del fd = (\<lambda>(w, b).
     (let (ex, w') = sys_del fd w in (ex, w', del_fd_callbacks fd b)))"

definition enqueue_event :: "fd \<Rightarrow> flags \<Rightarrow> 'cb bus \<Rightarrow> 'cb bus" where
  "enqueue_event fd fl b = b\<lparr>events := events b @ [(fd, fl)]\<rparr>"

text \<open>The error callback: calling an empty one throws out of the \<^verbatim>\<open>catch\<close> clause.\<close>

definition report_error :: "('k, 'cb) reporter option \<Rightarrow> fd \<Rightarrow> exn \<Rightarrow> ('k, 'cb) action" where
  "report_error report fd ex st =
     (case report of
        None \<Rightarrow> (Some bad_function_call, st)
      | Some f \<Rightarrow> f (caught fd (errno (fst st)) ex) st)"

text \<open>The loop over the callbacks of a descriptor.\<close>

fun run_callbacks ::
  "('k, 'cb) invoke \<Rightarrow> ('k, 'cb) reporter option \<Rightarrow> fd \<Rightarrow> flags \<Rightarrow> 'cb list \<Rightarrow> ('k, 'cb) action" where
  "run_callbacks invoke report fd fl [] st = (None, st)"
| "run_callbacks invoke report fd fl (cb # cbs) st =
     (if fd \<notin> callbacks_to_remove (snd st) then
        (case invoke cb fd fl st of
           (None, st1) \<Rightarrow> run_callbacks invoke report fd fl cbs st1
         | (Some ex, st1) \<Rightarrow>
             (case report_error report fd ex st1 of
                (None, st2) \<Rightarrow> run_callbacks invoke report fd fl cbs st2
              | (Some ex', st2) \<Rightarrow> (Some ex', st2)))
      else run_callbacks invoke report fd fl cbs st)"

definition remove_pending :: "'cb bus \<Rightarrow> 'cb bus" where
  "remove_pending b =
     b\<lparr>callback_map := callback_map b |` (- callbacks_to_remove b), callbacks_to_remove := {}\<rparr>"

text \<open>
  Erasing the last callback that refers to an object destroys it, and its destructor may use the bus
  and the kernel: \<open>destroy\<close> is what the destructors do once the entries are gone.  What they add to
  the set of pending removals is cleared with it.
\<close>

type_synonym ('k, 'cb) destroy = "('k, 'cb) state \<Rightarrow> ('k, 'cb) state"

definition clean_up :: "('k, 'cb) destroy \<Rightarrow> ('k, 'cb) state \<Rightarrow> ('k, 'cb) state" where
  "clean_up destroy = (\<lambda>(w, b).
     (if callbacks_to_remove b = {} then (w, b)
      else (let (w1, b1) = destroy (w, b\<lparr>callback_map := callback_map b |` (- callbacks_to_remove b)\<rparr>)
            in (w1, b1\<lparr>callbacks_to_remove := {}\<rparr>))))"

text \<open>The lambda \<^verbatim>\<open>cb\<close> of \<open>wait_events\<close>.\<close>

definition dispatch ::
  "('k, 'cb) destroy \<Rightarrow> ('k, 'cb) invoke \<Rightarrow> ('k, 'cb) reporter option \<Rightarrow> fd \<Rightarrow> flags \<Rightarrow> ('k, 'cb) action" where
  "dispatch destroy invoke report fd fl st =
     (let (ex, st1) =
        (case callback_map (snd st) fd of
           None \<Rightarrow> (None, st)
         | Some cbs \<Rightarrow> run_callbacks invoke report fd fl cbs st)
      in case ex of
           Some e \<Rightarrow> (Some e, st1)
         | None \<Rightarrow> (None, clean_up destroy st1))"

fun run_events :: "(fd \<Rightarrow> flags \<Rightarrow> ('k, 'cb) action) \<Rightarrow> (fd \<times> flags) list \<Rightarrow> ('k, 'cb) action" where
  "run_events cb [] st = (None, st)"
| "run_events cb ((fd, fl) # es) st =
     (case cb fd fl st of
        (Some ex, st1) \<Rightarrow> (Some ex, st1)
      | (None, st1) \<Rightarrow> run_events cb es st1)"

definition wait_events ::
  "((fd \<Rightarrow> flags \<Rightarrow> ('k, 'cb) action) \<Rightarrow> ('k, 'cb) action) \<Rightarrow> ('k, 'cb) destroy \<Rightarrow> ('k, 'cb) invoke \<Rightarrow>
   ('k, 'cb) reporter option \<Rightarrow> ('k, 'cb) action" where
  "wait_events sys_wait destroy invoke report st =
     (let cb = dispatch destroy invoke report;
          (ex, st2) =
            (case sys_wait cb st of
               (Some ex, st1) \<Rightarrow> (Some ex, st1)
             | (None, (w, b)) \<Rightarrow> run_events cb (events b) (w, b\<lparr>events := []\<rparr>))
      in case ex of
           None \<Rightarrow> (None, st2)
         | Some e \<Rightarrow> report_error report (-1) e st2)"

section \<open>Facts about the dispatch\<close>

definition never_throws :: "('k, 'cb) reporter \<Rightarrow> bool" where
  "never_throws f \<longleftrightarrow> (\<forall>e st. fst (f e st) = None)"

lemma never_throwsE:
  assumes "never_throws f"
  obtains st' where "f e st = (None, st')"
  using assms unfolding never_throws_def by (metis prod.collapse)

lemma run_callbacks_safe:
  "never_throws f \<Longrightarrow> fst (run_callbacks invoke (Some f) fd fl cbs st) = None"
proof (induction cbs arbitrary: st)
  case (Cons cb cbs)
  obtain ex st1 where inv: "invoke cb fd fl st = (ex, st1)" by (cases "invoke cb fd fl st")
  show ?case
  proof (cases ex)
    case (Some e)
    obtain st2 where "f (caught fd (errno (fst st1)) e) st1 = (None, st2)"
      by (rule never_throwsE [OF Cons.prems])
    with Some Cons inv show ?thesis by (simp add: report_error_def)
  qed (simp add: Cons inv)
qed simp

lemma dispatch_safe:
  assumes "never_throws f" shows "fst (dispatch destroy invoke (Some f) fd fl st) = None"
proof (cases "callback_map (snd st) fd")
  case (Some cbs)
  obtain ex st1 where r: "run_callbacks invoke (Some f) fd fl cbs st = (ex, st1)"
    by (cases "run_callbacks invoke (Some f) fd fl cbs st")
  with run_callbacks_safe [OF assms, of invoke fd fl cbs st] have "ex = None" by simp
  with Some r show ?thesis by (simp add: dispatch_def)
qed (simp add: dispatch_def)

lemma run_events_safe:
  assumes "\<And>fd fl st. fst (cb fd fl st) = None"
  shows "fst (run_events cb es st) = None"
proof (induction es arbitrary: st)
  case (Cons e es)
  obtain fd fl where e: "e = (fd, fl)" by (cases e)
  obtain ex st1 where c: "cb fd fl st = (ex, st1)" by (cases "cb fd fl st")
  with assms [of fd fl st] have "ex = None" by simp
  with Cons e c show ?case by simp
qed simp

lemma run_callbacks_removed:
  "fd \<in> callbacks_to_remove (snd st) \<Longrightarrow> run_callbacks invoke report fd fl cbs st = (None, st)"
  by (induction cbs) simp_all

lemma remove_pending_simps [simp]:
  "callbacks_to_remove (remove_pending b) = {}" "events (remove_pending b) = events b"
  "callback_map (remove_pending b) = callback_map b |` (- callbacks_to_remove b)"
  by (simp_all add: remove_pending_def)

lemma clean_up_id [simp]:
  "callbacks_to_remove b = {} \<Longrightarrow> clean_up destroy (w, b) = (w, b)"
  "clean_up id (w, b) = (w, remove_pending b)"
  by (cases b; simp add: clean_up_def remove_pending_def restrict_map_def)+

lemma clean_up_map:
  assumes "\<And>st. callback_map (snd (destroy st)) = callback_map (snd st)"
  shows "callback_map (snd (clean_up destroy (w, b))) = callback_map b |` (- callbacks_to_remove b)"
proof (cases "callbacks_to_remove b = {}")
  case False
  let ?st = "(w, b\<lparr>callback_map := callback_map b |` (- callbacks_to_remove b)\<rparr>)"
  obtain w1 b1 where "destroy ?st = (w1, b1)" by (rule prod.exhaust)
  with False assms [of ?st] show ?thesis by (simp add: clean_up_def)
qed (simp add: restrict_map_def)

lemma clean_up_removes [simp]: "callbacks_to_remove (snd (clean_up destroy st)) = {}"
  by (cases st) (simp add: clean_up_def split: prod.split)

lemma remove_pending_id: "callbacks_to_remove b = {} \<Longrightarrow> remove_pending b = b"
  by (cases b) (simp add: remove_pending_def restrict_map_def)

text \<open>A callback that notes its calls in the kernel state and raises the events \<open>enq\<close> says.\<close>

definition noting :: "('cb \<Rightarrow> fd \<Rightarrow> flags \<Rightarrow> (fd \<times> flags) list) \<Rightarrow> (('cb \<times> fd \<times> flags) list, 'cb) invoke" where
  "noting enq cb fd fl = (\<lambda>(w, b).
     (None, w\<lparr>kernel := kernel w @ [(cb, fd, fl)]\<rparr>, fold (\<lambda>(fd', fl'). enqueue_event fd' fl') (enq cb fd fl) b))"

lemma fold_enqueue:
  "fold (\<lambda>(fd, fl). enqueue_event fd fl) es b = b\<lparr>events := events b @ es\<rparr>"
proof (induction es arbitrary: b)
  case Nil
  show ?case by simp
next
  case (Cons e es)
  then show ?case by (cases e) (simp add: enqueue_event_def)
qed

definition calls_for :: "'cb bus \<Rightarrow> fd \<times> flags \<Rightarrow> ('cb \<times> fd \<times> flags) list" where
  "calls_for b = (\<lambda>(fd, fl). map (\<lambda>cb. (cb, fd, fl)) (case callback_map b fd of None \<Rightarrow> [] | Some cbs \<Rightarrow> cbs))"

lemma calls_for_events [simp]: "calls_for (b\<lparr>events := x\<rparr>) = calls_for b"
  by (rule ext) (simp add: calls_for_def)

abbreviation raised :: "('cb \<Rightarrow> fd \<Rightarrow> flags \<Rightarrow> (fd \<times> flags) list) \<Rightarrow> ('cb \<times> fd \<times> flags) list \<Rightarrow> (fd \<times> flags) list"
  where "raised enq calls \<equiv> concat (map (\<lambda>(cb, fd, fl). enq cb fd fl) calls)"

lemma run_callbacks_noting:
  "callbacks_to_remove b = {} \<Longrightarrow>
   run_callbacks (noting enq) report fd fl cbs (w, b) =
     (None, w\<lparr>kernel := kernel w @ map (\<lambda>cb. (cb, fd, fl)) cbs\<rparr>,
      b\<lparr>events := events b @ raised enq (map (\<lambda>cb. (cb, fd, fl)) cbs)\<rparr>)"
  by (induction cbs arbitrary: w b) (simp_all add: noting_def fold_enqueue)

lemma dispatch_noting:
  "callbacks_to_remove b = {} \<Longrightarrow>
   dispatch destroy (noting enq) report fd fl (w, b) =
     (None, w\<lparr>kernel := kernel w @ calls_for b (fd, fl)\<rparr>,
      b\<lparr>events := events b @ raised enq (calls_for b (fd, fl))\<rparr>)"
  by (auto simp: dispatch_def calls_for_def run_callbacks_noting remove_pending_id split: option.splits)

lemma run_events_noting:
  "callbacks_to_remove b = {} \<Longrightarrow>
   run_events (dispatch destroy (noting enq) report) es (w, b) =
     (None, w\<lparr>kernel := kernel w @ concat (map (calls_for b) es)\<rparr>,
      b\<lparr>events := events b @ raised enq (concat (map (calls_for b) es))\<rparr>)"
proof (induction es arbitrary: w b)
  case Nil
  show ?case by simp
next
  case (Cons e es)
  obtain fd fl where e: "e = (fd, fl)" by (cases e)
  with Cons show ?case by (simp add: e dispatch_noting)
qed

section \<open>Properties\<close>

text \<open>
  C26. Error containment: with an error callback that does not throw, no round of the bus throws,
  whatever the kernel, the callbacks and their exceptions do; without an error callback the first
  error of the kernel leaves the round as another exception.
\<close>

theorem wait_events_contains_errors:
  assumes "never_throws f"
  shows "fst (wait_events sys_wait destroy invoke (Some f) st) = None \<and>
    (sys_wait (dispatch destroy invoke None) st = (Some ex, st') \<longrightarrow>
       wait_events sys_wait destroy invoke None st = (Some bad_function_call, st'))"
proof -
  let ?cb = "dispatch destroy invoke (Some f)"
  have report: "fst (report_error (Some f) fd e st) = None" for fd e st
    using assms by (cases st) (simp add: report_error_def never_throws_def)
  have events: "fst (run_events ?cb es st) = None" for es st
    by (rule run_events_safe) (rule dispatch_safe [OF assms])
  obtain x w b where wait: "sys_wait ?cb st = (x, w, b)" by (metis surj_pair)
  have "fst (wait_events sys_wait destroy invoke (Some f) st) = None"
  proof (cases x)
    case None
    obtain x' st' where r: "run_events ?cb (events b) (w, b\<lparr>events := []\<rparr>) = (x', st')"
      by (cases "run_events ?cb (events b) (w, b\<lparr>events := []\<rparr>)")
    with events [of "events b" "(w, b\<lparr>events := []\<rparr>)"] have "x' = None" by simp
    with None wait r show ?thesis by (simp add: wait_events_def)
  qed (simp add: wait_events_def wait report)
  then show ?thesis by (simp add: wait_events_def report_error_def)
qed

theorem wait_events_contains_errors_witness:
  "fst (wait_events (\<lambda>cb st. (Some Unknown_Exception, st)) id (\<lambda>cb fd fl st. (None, st))
      (Some (\<lambda>e st. (None, st))) (\<lparr>errno = 0, kernel = ()\<rparr>, bus_new :: nat bus)) = None \<and>
   wait_events (\<lambda>cb st. (Some Unknown_Exception, st)) id (\<lambda>cb fd fl st. (None, st)) None
     (\<lparr>errno = 0, kernel = ()\<rparr>, bus_new :: nat bus) = (Some bad_function_call, \<lparr>errno = 0, kernel = ()\<rparr>, bus_new)"
proof -
  have "never_throws (\<lambda>e (st :: unit world \<times> nat bus). (None, st))" by (simp add: never_throws_def)
  from wait_events_contains_errors [where sys_wait = "\<lambda>cb st. (Some Unknown_Exception, st)"
      and invoke = "\<lambda>cb fd fl st. (None, st)" and st = "(\<lparr>errno = 0, kernel = ()\<rparr>, bus_new)"
      and ex = Unknown_Exception and st' = "(\<lparr>errno = 0, kernel = ()\<rparr>, bus_new)", OF this]
  show ?thesis by simp
qed

text \<open>
  Every callback of a descriptor is called once, in the order of registration, whatever the
  others throw, as long as the descriptor is not removed meanwhile.
\<close>

theorem callbacks_all_called:
  assumes "never_throws f" and "fd \<notin> callbacks_to_remove (snd st)"
    and "\<And>cb st. fd \<notin> callbacks_to_remove (snd st) \<Longrightarrow> fd \<notin> callbacks_to_remove (snd (snd (invoke cb fd fl st)))"
    and "\<And>e st. fd \<notin> callbacks_to_remove (snd st) \<Longrightarrow> fd \<notin> callbacks_to_remove (snd (snd (f e st)))"
  shows "run_callbacks invoke (Some f) fd fl cbs st =
    (None, fold (\<lambda>cb st. case invoke cb fd fl st of (None, st1) \<Rightarrow> st1
       | (Some ex, st1) \<Rightarrow> snd (f (caught fd (errno (fst st1)) ex) st1)) cbs st)"
  using assms(2)
proof (induction cbs arbitrary: st)
  case (Cons cb cbs)
  obtain ex w1 b1 where inv: "invoke cb fd fl st = (ex, w1, b1)" by (metis surj_pair)
  note keep = assms(3) [OF Cons.prems, of cb] assms(4) [of "(w1, b1)"]
  show ?case
  proof (cases ex)
    case None
    with Cons inv keep(1) show ?thesis by simp
  next
    case (Some e)
    obtain st2 where r: "f (caught fd (errno w1) e) (w1, b1) = (None, st2)"
      by (rule never_throwsE [OF assms(1)])
    with keep inv Cons.prems assms(4) [of "(w1, b1)" "caught fd (errno w1) e"]
    have "fd \<notin> callbacks_to_remove (snd st2)" by simp
    with Some Cons inv r show ?thesis by (simp add: report_error_def)
  qed
qed simp

theorem callbacks_all_called_witness:
  "run_callbacks (\<lambda>cb fd fl (w, b). (if cb then Some Unknown_Exception else None, w\<lparr>kernel := kernel w @ [cb]\<rparr>, b))
     (Some (\<lambda>e st. (None, st))) 7 flags_in [False, True, False] (\<lparr>errno = 0, kernel = []\<rparr>, bus_new) =
   (None, \<lparr>errno = 0, kernel = [False, True, False]\<rparr>, bus_new)"
proof -
  let ?inv = "\<lambda>cb fd fl (w, b). (if cb then Some Unknown_Exception else None, w\<lparr>kernel := kernel w @ [cb]\<rparr>, b)"
  let ?st = "(\<lparr>errno = 0, kernel = []\<rparr>, bus_new)"
  have "run_callbacks ?inv (Some (\<lambda>e st. (None, st))) 7 flags_in [False, True, False] ?st =
    (None, fold (\<lambda>cb st. case ?inv cb 7 flags_in st of (None, st1) \<Rightarrow> st1
       | (Some ex, st1) \<Rightarrow> snd ((None :: exn option, st1))) [False, True, False] ?st)"
    by (rule callbacks_all_called [where f = "\<lambda>e st. (None, st)"])
      (auto simp: never_throws_def bus_new_def split: prod.splits)
  then show ?thesis by simp
qed

text \<open>
  A callback that removes its own descriptor ends the dispatch for it: the remaining callbacks
  are not called, the entry is gone afterwards, and later events of the descriptor reach nobody.
\<close>

theorem removed_fd_silent:
  assumes "callback_map (snd st) fd = Some (cb # cbs)" and "fd \<notin> callbacks_to_remove (snd st)"
    and "invoke cb fd fl st = (None, w1, b1)" and "fd \<in> callbacks_to_remove b1"
    and "\<And>st. callback_map (snd (destroy st)) = callback_map (snd st)"
  shows "\<exists>w2 b2. dispatch destroy invoke report fd fl st = (None, w2, b2) \<and>
    callback_map b2 = callback_map b1 |` (- callbacks_to_remove b1) \<and>
    dispatch destroy invoke report fd fl' (w2, b2) = (None, w2, b2)"
proof -
  obtain w2 b2 where c: "clean_up destroy (w1, b1) = (w2, b2)" by (rule prod.exhaust)
  then have m: "callback_map b2 = callback_map b1 |` (- callbacks_to_remove b1)"
    using clean_up_map [OF assms(5), of w1 b1] by simp
  have "callbacks_to_remove b2 = {}" using clean_up_removes [of destroy "(w1, b1)"] c by simp
  with assms(1-4) c m show ?thesis
    by (intro exI [of _ w2] exI [of _ b2]) (simp add: dispatch_def run_callbacks_removed)
qed

theorem removed_fd_silent_witness:
  "let b = bus_new\<lparr>callback_map := [7 \<mapsto> [1 :: nat, 2]]\<rparr>;
       inv = (\<lambda>cb fd fl (w, b). (None, w\<lparr>kernel := kernel w @ [cb]\<rparr>, del_fd_callbacks fd b));
       destroy = (\<lambda>(w, b). (w\<lparr>kernel := kernel w @ [9]\<rparr>, b))
   in \<exists>w2 b2. dispatch destroy inv None 7 flags_in (\<lparr>errno = 0, kernel = []\<rparr>, b) = (None, w2, b2) \<and>
      callback_map b2 = callback_map (del_fd_callbacks 7 b) |` (- callbacks_to_remove (del_fd_callbacks 7 b)) \<and>
      dispatch destroy inv None 7 flags_error (w2, b2) = (None, w2, b2)"
  unfolding Let_def
  by (rule removed_fd_silent [where cb = 1 and cbs = "[2]" and ?w1.0 = "\<lparr>errno = 0, kernel = [1]\<rparr>"])
    (simp_all add: bus_new_def del_fd_callbacks_def split: prod.split)



text \<open>
  A registration that the kernel refuses leaves an entry behind: registering the same
  descriptor again succeeds without asking the kernel, so its callback never gets a kernel event.
\<close>

theorem add_fd_failure_sticks:
  assumes "callback_map b fd = None" and "sys_add fd w = (Some ex, w1)"
  shows "\<exists>b1. add_fd sys_add fd (Some cb) (w, b) = (Some ex, w1, b1) \<and>
    add_fd sys_add' fd (Some cb) (w', b1) = (None, w', b1\<lparr>callback_map := (callback_map b1)(fd \<mapsto> [cb])\<rparr>)"
  using assms by (simp add: add_fd_def)

theorem add_fd_failure_sticks_witness:
  "\<exists>b1. add_fd (\<lambda>fd w. (Some (Io_Error (mk_error ''failed to add file descriptor to epoll'' fd 28)), w)) 7 (Some True)
      (\<lparr>errno = 28, kernel = ()\<rparr>, bus_new) =
    (Some (Io_Error (mk_error ''failed to add file descriptor to epoll'' 7 28)), \<lparr>errno = 28, kernel = ()\<rparr>, b1) \<and>
    add_fd (\<lambda>fd w. (None, w)) 7 (Some True) (\<lparr>errno = 0, kernel = ()\<rparr>, b1) =
      (None, \<lparr>errno = 0, kernel = ()\<rparr>, b1\<lparr>callback_map := (callback_map b1)(7 \<mapsto> [True])\<rparr>)"
  by (rule add_fd_failure_sticks) (simp_all add: bus_new_def)

text \<open>
  Events and pending removals are keyed by the number of a descriptor only.  An event queued
  for a descriptor is delivered to whoever registered the same number since; and a number removed
  and registered again before the dispatch ends is not passed to the kernel and is removed.
\<close>

theorem reused_fd:
  assumes "callback_map b fd = Some cbs" and "callbacks_to_remove b = {}" and "sys_del fd w = (None, w1)"
    and "sys_add fd w1 = (None, w2)"
  shows "\<exists>b1. del_fd sys_del fd (w, enqueue_event fd fl b) = (None, w1, b1) \<and>
    (\<exists>b2. add_fd sys_add fd (Some cb) (w1, remove_pending b1) = (None, w2, b2) \<and>
       callback_map b2 fd = Some [cb] \<and> (fd, fl) \<in> set (events b2)) \<and>
    (\<exists>b2. add_fd sys_add fd (Some cb) (w1, b1) = (None, w1, b2) \<and> callback_map (remove_pending b2) fd = None)"
  using assms by (simp add: del_fd_def add_fd_def del_fd_callbacks_def enqueue_event_def Let_def)

theorem reused_fd_witness:
  "\<exists>b1. del_fd (\<lambda>fd w. (None, w)) 7 (\<lparr>errno = 0, kernel = ()\<rparr>,
        enqueue_event 7 flags_out (bus_new\<lparr>callback_map := [7 \<mapsto> [1 :: nat]]\<rparr>)) = (None, \<lparr>errno = 0, kernel = ()\<rparr>, b1) \<and>
    (\<exists>b2. add_fd (\<lambda>fd w. (None, w)) 7 (Some 2) (\<lparr>errno = 0, kernel = ()\<rparr>, remove_pending b1) = (None, \<lparr>errno = 0, kernel = ()\<rparr>, b2) \<and>
       callback_map b2 7 = Some [2] \<and> (7, flags_out) \<in> set (events b2)) \<and>
    (\<exists>b2. add_fd (\<lambda>fd w. (None, w)) 7 (Some 2) (\<lparr>errno = 0, kernel = ()\<rparr>, b1) = (None, \<lparr>errno = 0, kernel = ()\<rparr>, b2) \<and>
       callback_map (remove_pending b2) 7 = None)"
  by (rule reused_fd) (simp_all add: bus_new_def)

end
