(* ===== verification/Epoll.thy ===== *)
theory Epoll
  imports Bus
begin

text \<open>
  \<^verbatim>\<open>src/io/epoll.cpp\<close>: the bus on the kernel's epoll interface.  The system calls
  \<^verbatim>\<open>epoll_create1\<close>, \<^verbatim>\<open>epoll_ctl\<close> and \<^verbatim>\<open>epoll_wait\<close> are arguments.
\<close>

section \<open>State and constants\<close>

definition EPOLLIN :: u32 where "EPOLLIN = 0x001"
definition EPOLLPRI :: u32 where "EPOLLPRI = 0x002"
definition EPOLLOUT :: u32 where "EPOLLOUT = 0x004"
definition EPOLLERR :: u32 where "EPOLLERR = 0x008"
definition EPOLLHUP :: u32 where "EPOLLHUP = 0x010"
definition EPOLLET :: u32 where "EPOLLET = 0x80000000"

lemmas epoll_consts = EPOLLIN_def EPOLLPRI_def EPOLLOUT_def EPOLLERR_def EPOLLHUP_def EPOLLET_def

datatype ctl_op = EPOLL_CTL_ADD | EPOLL_CTL_DEL

text \<open>\<^verbatim>\<open>struct epoll_event\<close>: the mask and the descriptor in \<^verbatim>\<open>data.fd\<close>.\<close>

record epoll_event =
  ev_events :: u32
  ev_fd :: fd

type_synonym 'k epoll_ctl = "fd \<Rightarrow> ctl_op \<Rightarrow> fd \<Rightarrow> epoll_event option \<Rightarrow> ('k, int) syscall"
type_synonym 'k epoll_wait = "fd \<Rightarrow> nat \<Rightarrow> int \<Rightarrow> ('k, int \<times> epoll_event list) syscall"

text \<open>The events buffer is only used inside \<open>_wait_events\<close> and is left out of the object.\<close>

record ('k, 'cb) epoll =
  epfd :: fd
  event_mask :: u32
  native_callback :: "(fd \<Rightarrow> u32 \<Rightarrow> ('k, 'cb) action) option"

section \<open>Operations\<close>

definition epoll_new ::
  "('k, int) syscall \<Rightarrow> u32 \<Rightarrow> (fd \<Rightarrow> u32 \<Rightarrow> ('k, 'cb) action) option \<Rightarrow> 'k world \<Rightarrow>
   (exn + ('k, 'cb) epoll) \<times> 'k world" where
  "epoll_new epoll_create1 m callback w =
     (let (fd, w1) = epoll_create1 w
      in if fd < 0 then (Inl (Io_Error (mk_error ''failed to create epoll'' fd (errno w1))), w1)
         else (Inr \<lparr>epfd = fd, event_mask = m, native_callback = callback\<rparr>, w1))"

text \<open>The destructor; a failure is printed only.\<close>

definition epoll_destroy :: "(fd \<Rightarrow> ('k, int) syscall) \<Rightarrow> ('k, 'cb) epoll \<Rightarrow> 'k world \<Rightarrow> ('k, 'cb) epoll \<times> 'k world" where
  "epoll_destroy sys_close ep w =
     (let (r, w1) = sys_close (epfd ep) w in (if r = -1 then ep else ep\<lparr>epfd := 0\<rparr>, w1))"

definition epoll_add_fd :: "'k epoll_ctl \<Rightarrow> ('k, 'cb) epoll \<Rightarrow> fd \<Rightarrow> ('k, exn option) syscall" where
  "epoll_add_fd epoll_ctl ep fd w =
     (let event = \<lparr>ev_events = event_mask ep, ev_fd = fd\<rparr>;
          (ret, w1) = epoll_ctl (epfd ep) EPOLL_CTL_ADD fd (Some event) w
      in if ret = -1
         then (Some (Io_Error (mk_error ''failed to add file descriptor to epoll'' fd (errno w1))), w1)
         else (None, w1))"

definition epoll_del_fd :: "'k epoll_ctl \<Rightarrow> ('k, 'cb) epoll \<Rightarrow> fd \<Rightarrow> ('k, exn option) syscall" where
  "epoll_del_fd epoll_ctl ep fd w =
     (let (ret, w1) = epoll_ctl (epfd ep) EPOLL_CTL_DEL fd None w
      in if ret = -1
         then (Some (Io_Error (mk_error ''failed to delete file descriptor from epoll'' fd (errno w1))), w1)
         else (None, w1))"

definition epoll_mask_to_io_flags :: "u32 \<Rightarrow> flags" where
  "epoll_mask_to_io_flags m =
     (let f0 = flags_empty;
          f1 = (if m AND (EPOLLERR OR EPOLLHUP) \<noteq> 0 then flags_or_assign f0 flags_error else f0);
          f2 = (if m AND EPOLLIN \<noteq> 0 then flags_or_assign f1 flags_in else f1);
          f3 = (if m AND EPOLLOUT \<noteq> 0 then flags_or_assign f2 flags_out else f2)
      in f3)"

text \<open>The loop over the returned events; a callback that throws leaves it.\<close>

fun run_epoll_events ::
  "(fd \<Rightarrow> u32 \<Rightarrow> ('k, 'cb) action) option \<Rightarrow> (fd \<Rightarrow> flags \<Rightarrow> ('k, 'cb) action) option \<Rightarrow>
   epoll_event list \<Rightarrow> ('k, 'cb) action" where
  "run_epoll_events native callback [] st = (None, st)"
| "run_epoll_events native callback (ev # evs) st =
     (let (x1, st1) = (case native of None \<Rightarrow> (None, st) | Some f \<Rightarrow> f (ev_fd ev) (ev_events ev) st)
      in case x1 of
           Some ex \<Rightarrow> (Some ex, st1)
         | None \<Rightarrow>
             (let (x2, st2) =
                (case callback of
                   None \<Rightarrow> (None, st1)
                 | Some f \<Rightarrow> f (ev_fd ev) (epoll_mask_to_io_flags (ev_events ev)) st1)
              in case x2 of
                   Some ex \<Rightarrow> (Some ex, st2)
                 | None \<Rightarrow> run_epoll_events native callback evs st2))"

definition epoll_wait_events ::
  "'k epoll_wait \<Rightarrow> ('k, 'cb) epoll \<Rightarrow> int \<Rightarrow> nat \<Rightarrow> (fd \<Rightarrow> flags \<Rightarrow> ('k, 'cb) action) option \<Rightarrow>
   ('k, 'cb) action" where
  "epoll_wait_events epoll_wait ep timeout_msec events_buf_size callback = (\<lambda>(w, b).
     (let ((ret, buff), w1) = epoll_wait (epfd ep) events_buf_size timeout_msec (w\<lparr>errno := 0\<rparr>)
      in if ret = -1 then
           (if errno w1 \<noteq> EINTR
            then (Some (Io_Error (mk_error ''epoll wait error'' (epfd ep) (errno w1))), w1, b)
            else (None, w1, b))
         else run_epoll_events (native_callback ep) callback (take (nat ret) buff) (w1, b)))"

text \<open>The bus with its pure virtual functions filled in.\<close>

definition epoll_bus_add :: "'k epoll_ctl \<Rightarrow> ('k, 'cb) epoll \<Rightarrow> fd \<Rightarrow> 'cb option \<Rightarrow> ('k, 'cb) action" where
  "epoll_bus_add ctl ep = add_fd (epoll_add_fd ctl ep)"

definition epoll_bus_del :: "'k epoll_ctl \<Rightarrow> ('k, 'cb) epoll \<Rightarrow> fd \<Rightarrow> ('k, 'cb) action" where
  "epoll_bus_del ctl ep = del_fd (epoll_del_fd ctl ep)"

definition epoll_bus_wait ::
  "'k epoll_wait \<Rightarrow> ('k, 'cb) epoll \<Rightarrow> int \<Rightarrow> nat \<Rightarrow> ('k, 'cb) destroy \<Rightarrow> ('k, 'cb) invoke \<Rightarrow>
   ('k, 'cb) reporter option \<Rightarrow> ('k, 'cb) action" where
  "epoll_bus_wait epoll_wait ep timeout n destroy invoke report =
     wait_events (\<lambda>cb. epoll_wait_events epoll_wait ep timeout n (Some cb)) destroy invoke report"

section \<open>The interest list\<close>

text \<open>
  What \<^verbatim>\<open>epoll_ctl\<close> is documented to do with the kernel's interest list, seen through
  \<open>interest\<close>: a call that returns -1 changes nothing, any other one adds or deletes the descriptor.
\<close>

definition ctl_documented :: "'k epoll_ctl \<Rightarrow> ('k world \<Rightarrow> fd set) \<Rightarrow> bool" where
  "ctl_documented ctl interest \<longleftrightarrow>
     (\<forall>e fd ev w. let (ret, w1) = ctl e EPOLL_CTL_ADD fd ev w
        in interest w1 = (if ret = -1 then interest w else insert fd (interest w))) \<and>
     (\<forall>e fd ev w. let (ret, w1) = ctl e EPOLL_CTL_DEL fd ev w
        in interest w1 = (if ret = -1 then interest w else interest w - {fd}))"

text \<open>What may happen to a bus between two looks at it, as long as no registration fails.\<close>

inductive bus_step ::
  "'k epoll_ctl \<Rightarrow> ('k, 'cb) epoll \<Rightarrow> ('k, 'cb) state \<Rightarrow> ('k, 'cb) state \<Rightarrow> bool" for ctl ep where
  step_add: "fd \<notin> callbacks_to_remove (snd st) \<Longrightarrow> epoll_bus_add ctl ep fd cb st = (None, st') \<Longrightarrow>
     bus_step ctl ep st st'"
| step_del: "epoll_bus_del ctl ep fd st = (None, st') \<Longrightarrow> bus_step ctl ep st st'"
| step_cleanup: "bus_step ctl ep (w, b) (w, remove_pending b)"
| step_enqueue: "bus_step ctl ep (w, b) (w, enqueue_event fd fl b)"

inductive_cases bus_stepE: "bus_step ctl ep st st'"

definition in_sync :: "('k world \<Rightarrow> fd set) \<Rightarrow> ('k, 'cb) state \<Rightarrow> bool" where
  "in_sync interest st \<longleftrightarrow>
     dom (callback_map (snd st)) - callbacks_to_remove (snd st) = interest (fst st)"

lemma ctl_documentedD:
  assumes "ctl_documented ctl interest"
  shows "ctl e EPOLL_CTL_ADD fd ev w = (ret, w1) \<Longrightarrow>
      interest w1 = (if ret = -1 then interest w else insert fd (interest w))"
    and "ctl e EPOLL_CTL_DEL fd ev w = (ret, w1) \<Longrightarrow>
      interest w1 = (if ret = -1 then interest w else interest w - {fd})"
proof -
  have 1: "let (ret, w1) = ctl e EPOLL_CTL_ADD fd ev w
      in interest w1 = (if ret = -1 then interest w else insert fd (interest w))"
    using assms unfolding ctl_documented_def by blast
  have 2: "let (ret, w1) = ctl e EPOLL_CTL_DEL fd ev w
      in interest w1 = (if ret = -1 then interest w else interest w - {fd})"
    using assms unfolding ctl_documented_def by blast
  show "ctl e EPOLL_CTL_ADD fd ev w = (ret, w1) \<Longrightarrow>
      interest w1 = (if ret = -1 then interest w else insert fd (interest w))" using 1 by simp
  show "ctl e EPOLL_CTL_DEL fd ev w = (ret, w1) \<Longrightarrow>
      interest w1 = (if ret = -1 then interest w else interest w - {fd})" using 2 by simp
qed

lemma epoll_add_fd_interest:
  assumes "ctl_documented ctl interest" and "epoll_add_fd ctl ep fd w = (None, w1)"
  shows "interest w1 = insert fd (interest w)"
proof -
  obtain ret w2 where c: "ctl (epfd ep) EPOLL_CTL_ADD fd (Some \<lparr>ev_events = event_mask ep, ev_fd = fd\<rparr>) w = (ret, w2)"
    by (rule prod.exhaust)
  with assms(2) have "ret \<noteq> -1" "w2 = w1" by (auto simp: epoll_add_fd_def split: if_splits)
  with ctl_documentedD(1) [OF assms(1) c] show ?thesis by simp
qed

lemma epoll_del_fd_interest:
  assumes "ctl_documented ctl interest" and "epoll_del_fd ctl ep fd w = (None, w1)"
  shows "interest w1 = interest w - {fd}"
proof -
  obtain ret w2 where c: "ctl (epfd ep) EPOLL_CTL_DEL fd None w = (ret, w2)"
    by (rule prod.exhaust)
  with assms(2) have "ret \<noteq> -1" "w2 = w1" by (auto simp: epoll_del_fd_def split: if_splits)
  with ctl_documentedD(2) [OF assms(1) c] show ?thesis by simp
qed

lemma bus_step_in_sync:
  assumes "ctl_documented ctl interest" and "bus_step ctl ep st st'" and "in_sync interest st"
  shows "in_sync interest st'"
  using assms(2,3)
proof cases
  case (step_add fd cb)
  obtain w b where st: "st = (w, b)" by (cases st)
  show ?thesis
  proof (cases "callback_map b fd")
    case None
    then obtain w1 where "epoll_add_fd ctl ep fd w = (None, w1)" "fst st' = w1"
      "dom (callback_map (snd st')) = insert fd (dom (callback_map b))"
      "callbacks_to_remove (snd st') = callbacks_to_remove b"
      using step_add st
      by (auto simp: epoll_bus_add_def add_fd_def Let_def split: prod.splits option.splits)
    moreover from this(1) have "interest w1 = insert fd (interest w)"
      by (rule epoll_add_fd_interest [OF assms(1)])
    ultimately show ?thesis using assms(3) step_add(1) st by (auto simp: in_sync_def)
  next
    case (Some cbs)
    then have "dom (callback_map (snd st')) = dom (callback_map b)" "fst st' = w"
      "callbacks_to_remove (snd st') = callbacks_to_remove b"
      using step_add st
      by (auto simp: epoll_bus_add_def add_fd_def Let_def split: option.splits if_splits)
    with assms(3) st show ?thesis by (simp add: in_sync_def)
  qed
next
  case (step_del fd)
  obtain w b where st: "st = (w, b)" by (cases st)
  obtain w1 where "epoll_del_fd ctl ep fd w = (None, w1)" "st' = (w1, del_fd_callbacks fd b)"
    using step_del st by (auto simp: epoll_bus_del_def del_fd_def split: prod.splits)
  moreover from this(1) have "interest w1 = interest w - {fd}"
    by (rule epoll_del_fd_interest [OF assms(1)])
  ultimately show ?thesis using assms(3) st
    by (auto simp: in_sync_def del_fd_callbacks_def)
next
  case (step_cleanup w b)
  with assms(3) show ?thesis by (auto simp: in_sync_def)
next
  case (step_enqueue w b fd fl)
  with assms(3) show ?thesis by (simp add: in_sync_def enqueue_event_def)
qed

section \<open>Properties\<close>

lemma flags_value_mask:
  "flags_value (epoll_mask_to_io_flags m) =
     (if m AND (EPOLLERR OR EPOLLHUP) \<noteq> 0 then 4 else 0) OR
     (if m AND EPOLLIN \<noteq> 0 then 1 else 0) OR (if m AND EPOLLOUT \<noteq> 0 then 2 else 0)"
  by (simp add: epoll_mask_to_io_flags_def Let_def flags_or_assign_def flags_empty_def flags_in_def
      flags_out_def flags_error_def)

text \<open>
  The translation of an epoll mask has exactly the flags the kernel reported: error for
  \<open>EPOLLERR\<close> or \<open>EPOLLHUP\<close>, in and out for their bits; urgent data alone gives the empty flags.
\<close>

theorem epoll_flags_exact:
  "(flags_test (epoll_mask_to_io_flags m) flags_error \<longleftrightarrow> m AND (EPOLLERR OR EPOLLHUP) \<noteq> 0) \<and>
   (flags_test (epoll_mask_to_io_flags m) flags_in \<longleftrightarrow> m AND EPOLLIN \<noteq> 0) \<and>
   (flags_test (epoll_mask_to_io_flags m) flags_out \<longleftrightarrow> m AND EPOLLOUT \<noteq> 0) \<and>
   epoll_mask_to_io_flags EPOLLPRI = flags_empty"
proof -
  have "epoll_mask_to_io_flags EPOLLPRI = flags_empty"
    by (simp add: epoll_mask_to_io_flags_def epoll_consts Let_def)
  then show ?thesis
    by (simp add: flags_test_def flags_value_mask flags_in_def flags_out_def flags_error_def)
qed

text \<open>
  As long as no registration fails and no descriptor is registered while its removal is pending,
  the descriptors with callbacks that are not being removed are exactly those the kernel watches,
  in every state reachable from a new bus by registrations, removals, clean-ups and events.
\<close>

theorem interest_in_sync:
  assumes "ctl_documented ctl interest" and "interest w = {}"
    and "(bus_step ctl ep)\<^sup>*\<^sup>* (w, bus_new) st"
  shows "in_sync interest st"
  using assms(3)
proof (induction rule: rtranclp_induct)
  case base
  show ?case using assms(2) by (simp add: in_sync_def bus_new_def)
next
  case (step st st')
  then show ?case using bus_step_in_sync [OF assms(1)] by blast
qed

text \<open>A kernel whose state is the interest list, for the witness.\<close>

definition ctl_example :: "fd set epoll_ctl" where
  "ctl_example e op fd ev w =
     (case op of EPOLL_CTL_ADD \<Rightarrow> (0, w\<lparr>kernel := insert fd (kernel w)\<rparr>)
      | EPOLL_CTL_DEL \<Rightarrow> (if fd \<in> kernel w then (0, w\<lparr>kernel := kernel w - {fd}\<rparr>)
                          else (-1, w\<lparr>errno := 2\<rparr>)))"

definition ep_example :: "(fd set, nat) epoll" where
  "ep_example = \<lparr>epfd = 3, event_mask = EPOLLIN, native_callback = None\<rparr>"

theorem interest_in_sync_witness:
  "in_sync kernel (\<lparr>errno = 0, kernel = {7}\<rparr>,
     (bus_new :: nat bus)\<lparr>callback_map := [7 \<mapsto> [1]], events := [(7, flags_out)]\<rparr>)"
proof (rule interest_in_sync)
  let ?w = "\<lparr>errno = 0, kernel = {} :: fd set\<rparr>"
  let ?b1 = "(bus_new :: nat bus)\<lparr>callback_map := [7 \<mapsto> [1]]\<rparr>"
  show "ctl_documented ctl_example kernel" by (auto simp: ctl_documented_def ctl_example_def)
  show "kernel ?w = {}" by simp
  have "epoll_bus_add ctl_example ep_example 7 (Some 1) (?w, bus_new) = (None, ?w\<lparr>kernel := {7}\<rparr>, ?b1)"
    by (simp add: epoll_bus_add_def add_fd_def epoll_add_fd_def ctl_example_def bus_new_def)
  then have "bus_step ctl_example ep_example (?w, bus_new) (?w\<lparr>kernel := {7}\<rparr>, ?b1)"
    by (intro step_add [of 7]) (simp_all add: bus_new_def)
  moreover have "bus_step ctl_example ep_example (?w\<lparr>kernel := {7}\<rparr>, ?b1)
      (?w\<lparr>kernel := {7}\<rparr>, enqueue_event 7 flags_out ?b1)" by (rule step_enqueue)
  moreover have "enqueue_event 7 flags_out ?b1 = ?b1\<lparr>events := [(7, flags_out)]\<rparr>"
    by (simp add: enqueue_event_def bus_new_def)
  ultimately show "(bus_step ctl_example ep_example)\<^sup>*\<^sup>* (?w, bus_new)
      (\<lparr>errno = 0, kernel = {7}\<rparr>, ?b1\<lparr>events := [(7, flags_out)]\<rparr>)"
    by (auto intro: converse_rtranclp_into_rtranclp)
qed

text \<open>
  A wait interrupted by a signal is a round without kernel events: the queued events are still
  delivered and nothing is reported; any other failure of the wait is reported once, with the
  epoll descriptor and the kernel's error number, and the queued events stay for the next round.
\<close>

theorem epoll_wait_failure:
  assumes "epoll_wait (epfd ep) n timeout (w\<lparr>errno := 0\<rparr>) = ((-1, buff), w')"
  shows "epoll_bus_wait epoll_wait ep timeout n destroy invoke report (w, b) =
    (if errno w' = EINTR then wait_events (\<lambda>cb st. (None, st)) destroy invoke report (w', b)
     else report_error report (-1)
       (Io_Error (mk_error ''epoll wait error'' (epfd ep) (errno w'))) (w', b))"
  using assms by (simp add: epoll_bus_wait_def wait_events_def epoll_wait_events_def)

theorem epoll_wait_failure_witness:
  "epoll_bus_wait (\<lambda>e n t w. ((-1, []), w\<lparr>errno := 9\<rparr>)) ep_example 10 1024 id (\<lambda>cb fd fl st. (None, st))
     (Some (\<lambda>e st. (None, (fst st)\<lparr>kernel := {err_fd e}\<rparr>, snd st))) (\<lparr>errno = 0, kernel = {}\<rparr>, bus_new) =
   (None, \<lparr>errno = 9, kernel = {3}\<rparr>, bus_new)"
proof -
  have "epoll_bus_wait (\<lambda>e n t w. ((-1, []), w\<lparr>errno := 9\<rparr>)) ep_example 10 1024 id (\<lambda>cb fd fl st. (None, st))
     (Some (\<lambda>e st. (None, (fst st)\<lparr>kernel := {err_fd e}\<rparr>, snd st))) (\<lparr>errno = 0, kernel = {}\<rparr>, bus_new) =
   (if errno \<lparr>errno = 9, kernel = {} :: fd set\<rparr> = EINTR then
      wait_events (\<lambda>cb st. (None, st)) id (\<lambda>cb fd fl st. (None, st))
        (Some (\<lambda>e st. (None, (fst st)\<lparr>kernel := {err_fd e}\<rparr>, snd st))) (\<lparr>errno = 9, kernel = {} :: fd set\<rparr>, bus_new)
    else report_error (Some (\<lambda>e st. (None, (fst st)\<lparr>kernel := {err_fd e}\<rparr>, snd st))) (-1)
       (Io_Error (mk_error ''epoll wait error'' (epfd ep_example) (errno \<lparr>errno = 9, kernel = {} :: fd set\<rparr>)))
       (\<lparr>errno = 9, kernel = {} :: fd set\<rparr>, bus_new))"
    by (rule epoll_wait_failure [where buff = "[]" and w' = "\<lparr>errno = 9, kernel = {} :: fd set\<rparr>" and
          w = "\<lparr>errno = 0, kernel = {}\<rparr>" and ep = ep_example and n = 1024 and timeout = 10 and
          epoll_wait = "\<lambda>e n t w. ((-1, []), w\<lparr>errno := 9\<rparr>)" and b = bus_new and
          report = "Some (\<lambda>e st. (None, (fst st)\<lparr>kernel := {err_fd e}\<rparr>, snd st))"]) simp
  then show ?thesis by (simp add: EINTR_def report_error_def ep_example_def mk_error_def)
qed

end
