(* ===== verification/Context.thy ===== *)
theory Context
  imports Epoll
begin

text \<open>
  \<^verbatim>\<open>src/io/context.cpp\<close>: the reactor loop.  It may run forever, so it is a partial function
  into \<open>option\<close>: \<open>None\<close> is a run that never returns.
\<close>

section \<open>State and operations\<close>

record io_context =
  timeout_msec :: int
  events_buf_size :: nat
  ctx_stop_requested :: bool

text \<open>The constructor and its default arguments.\<close>

definition context_new :: "int option \<Rightarrow> nat option \<Rightarrow> io_context" where
  "context_new timeout_ms min_buf_size =
     \<lparr>timeout_msec = (case timeout_ms of None \<Rightarrow> 0 | Some t \<Rightarrow> t),
      events_buf_size = (case min_buf_size of None \<Rightarrow> 1024 | Some n \<Rightarrow> n),
      ctx_stop_requested = False\<rparr>"

definition context_stop :: "io_context \<Rightarrow> io_context" where
  "context_stop c = c\<lparr>ctx_stop_requested := True\<rparr>"

definition is_stop_requested :: "io_context \<Rightarrow> bool" where
  "is_stop_requested c = ctx_stop_requested c"

text \<open>
  \<open>run\<close>: one round of the bus per turn.  The signal handler that calls \<open>stop\<close> runs between two
  looks at the flag: \<open>signalled st\<close> says whether one did before the look in state \<open>st\<close>.  A round
  that throws ends the loop with its exception.
\<close>

partial_function (option) run ::
  "(int \<Rightarrow> nat \<Rightarrow> 's \<Rightarrow> exn option \<times> 's) \<Rightarrow> ('s \<Rightarrow> bool) \<Rightarrow> io_context \<Rightarrow> 's \<Rightarrow>
   (exn option \<times> io_context \<times> 's) option" where
  "run wait signalled c st =
     (let c1 = (if signalled st then context_stop c else c)
      in if \<not> is_stop_requested c1 then
           (case wait (timeout_msec c1) (events_buf_size c1) st of
              (None, st1) \<Rightarrow> run wait signalled c1 st1
            | (Some ex, st1) \<Rightarrow> Some (Some ex, c1, st1))
         else Some (None, c1, st))"

section \<open>Rounds\<close>

lemma run_stop:
  "signalled st \<Longrightarrow> run wait signalled c st = Some (None, context_stop c, st)"
  by (subst run.simps) (simp add: is_stop_requested_def context_stop_def)

lemma run_round:
  "\<not> signalled st \<Longrightarrow> \<not> ctx_stop_requested c \<Longrightarrow> wait (timeout_msec c) (events_buf_size c) st = (None, st1) \<Longrightarrow>
   run wait signalled c st = run wait signalled c st1"
  by (subst run.simps) (simp add: is_stop_requested_def)

lemma run_throw:
  "\<not> signalled st \<Longrightarrow> \<not> ctx_stop_requested c \<Longrightarrow> wait (timeout_msec c) (events_buf_size c) st = (Some ex, st1) \<Longrightarrow>
   run wait signalled c st = Some (Some ex, c, st1)"
  by (subst run.simps) (simp add: is_stop_requested_def)

text \<open>A round as a function of the state, where no round throws.\<close>

definition next_state :: "(int \<Rightarrow> nat \<Rightarrow> 's \<Rightarrow> exn option \<times> 's) \<Rightarrow> io_context \<Rightarrow> 's \<Rightarrow> 's" where
  "next_state wait c st = snd (wait (timeout_msec c) (events_buf_size c) st)"

lemma run_rounds:
  assumes "\<And>st. fst (wait (timeout_msec c) (events_buf_size c) st) = None"
    and "\<not> ctx_stop_requested c"
    and "\<And>m. m < n \<Longrightarrow> \<not> signalled ((next_state wait c ^^ m) st)"
  shows "run wait signalled c st = run wait signalled c ((next_state wait c ^^ n) st)"
  using assms(3)
proof (induction n)
  case (Suc n)
  let ?st = "(next_state wait c ^^ n) st"
  have "wait (timeout_msec c) (events_buf_size c) ?st = (None, next_state wait c ?st)"
    using assms(1) [of ?st] by (simp add: next_state_def prod_eq_iff)
  with Suc.prems [of n] assms(2) have "run wait signalled c ?st = run wait signalled c (next_state wait c ?st)"
    by (intro run_round) simp_all
  with Suc show ?case by simp
qed simp

lemma run_returned:
  assumes "run wait signalled c st = Some r"
  shows "\<not> ctx_stop_requested c \<longrightarrow>
   (\<exists>n. signalled ((next_state wait c ^^ n) st) \<or>
       fst (wait (timeout_msec c) (events_buf_size c) ((next_state wait c ^^ n) st)) \<noteq> None)"
proof (rule run.raw_induct [where P = "\<lambda>wait signalled c st r. \<not> ctx_stop_requested c \<longrightarrow>
   (\<exists>n. signalled ((next_state wait c ^^ n) st) \<or>
       fst (wait (timeout_msec c) (events_buf_size c) ((next_state wait c ^^ n) st)) \<noteq> None)", OF _ assms], rule impI)
  fix run :: "(int \<Rightarrow> nat \<Rightarrow> 'a \<Rightarrow> exn option \<times> 'a) \<Rightarrow> ('a \<Rightarrow> bool) \<Rightarrow> io_context \<Rightarrow> 'a \<Rightarrow>
    (exn option \<times> io_context \<times> 'a) option"
    and wait signalled c st r
  assume IH: "\<And>wait signalled c st r. run wait signalled c st = Some r \<Longrightarrow> \<not> ctx_stop_requested c \<longrightarrow>
      (\<exists>n. signalled ((next_state wait c ^^ n) st) \<or>
       fst (wait (timeout_msec c) (events_buf_size c) ((next_state wait c ^^ n) st)) \<noteq> None)"
    and body: "(let c1 = if signalled st then context_stop c else c
      in if \<not> is_stop_requested c1
         then case wait (timeout_msec c1) (events_buf_size c1) st of
                (None, st1) \<Rightarrow> run wait signalled c1 st1
              | (Some ex, st1) \<Rightarrow> Some (Some ex, c1, st1)
         else Some (None, c1, st)) = Some r"
    and stop: "\<not> ctx_stop_requested c"
  show "\<exists>n. signalled ((next_state wait c ^^ n) st) \<or>
       fst (wait (timeout_msec c) (events_buf_size c) ((next_state wait c ^^ n) st)) \<noteq> None"
  proof (cases "signalled st \<or> fst (wait (timeout_msec c) (events_buf_size c) st) \<noteq> None")
    case True
    then show ?thesis by (intro exI [of _ 0]) simp
  next
    case False
    obtain x st1 where w: "wait (timeout_msec c) (events_buf_size c) st = (x, st1)"
      by (rule prod.exhaust)
    with False body stop have "run wait signalled c st1 = Some r"
      by (simp add: is_stop_requested_def)
    from IH [OF this] stop obtain n where
      "signalled ((next_state wait c ^^ n) st1) \<or>
       fst (wait (timeout_msec c) (events_buf_size c) ((next_state wait c ^^ n) st1)) \<noteq> None" by blast
    moreover have "st1 = next_state wait c st" by (simp add: next_state_def w)
    ultimately show ?thesis by (intro exI [of _ "Suc n"]) (simp add: funpow_swap1)
  qed
qed

text \<open>So a loop whose rounds do not throw ends at the first stop request, or never.\<close>

lemma run_eq:
  assumes "\<And>st. fst (wait (timeout_msec c) (events_buf_size c) st) = None" and "\<not> ctx_stop_requested c"
  shows "run wait signalled c st =
    (if \<exists>n. signalled ((next_state wait c ^^ n) st)
     then Some (None, context_stop c, (next_state wait c ^^ (LEAST n. signalled ((next_state wait c ^^ n) st))) st)
     else None)"
proof (cases "\<exists>n. signalled ((next_state wait c ^^ n) st)")
  case True
  let ?n = "LEAST n. signalled ((next_state wait c ^^ n) st)"
  have n: "signalled ((next_state wait c ^^ ?n) st)" using True by (rule LeastI_ex)
  have "run wait signalled c st = run wait signalled c ((next_state wait c ^^ ?n) st)"
    using assms not_less_Least by (rule run_rounds)
  with run_stop [of signalled _ wait c, OF n] True show ?thesis by simp
next
  case False
  with run_returned [of wait signalled c st] assms show ?thesis by (cases "run wait signalled c st") auto
qed

lemma run_ends:
  assumes "\<And>st. fst (wait (timeout_msec c) (events_buf_size c) st) = None" and "\<not> ctx_stop_requested c"
    and "run wait signalled c st = Some r"
  obtains n where "r = (None, context_stop c, (next_state wait c ^^ n) st)"
  using run_eq [of wait c signalled st, OF assms(1,2)] assms(3) by (auto split: if_splits)

section \<open>Properties\<close>

text \<open>
  Stopping: when no round throws, the loop returns as soon as a stop request has arrived, in
  the state before which it arrived, without another round and without an exception.
\<close>

theorem run_returns_on_stop:
  assumes "\<And>st. fst (wait (timeout_msec c) (events_buf_size c) st) = None"
    and "\<not> ctx_stop_requested c"
    and "signalled ((next_state wait c ^^ n) st)"
    and "\<And>m. m < n \<Longrightarrow> \<not> signalled ((next_state wait c ^^ m) st)"
  shows "run wait signalled c st = Some (None, context_stop c, (next_state wait c ^^ n) st)"
proof -
  have "run wait signalled c st = run wait signalled c ((next_state wait c ^^ n) st)"
    using assms(1,2,4) by (rule run_rounds)
  with run_stop [of signalled _ wait c, OF assms(3)] show ?thesis by simp
qed

theorem run_returns_on_stop_witness:
  "run (\<lambda>t n st. (None, st + t)) (\<lambda>st. 25 \<le> st) (context_new (Some 10) None) (0 :: int) =
    Some (None, context_stop (context_new (Some 10) None), 30)"
proof -
  let ?w = "\<lambda>t n st. (None :: exn option, st + t)" and ?c = "context_new (Some 10) None"
  have n: "(next_state ?w ?c ^^ m) 0 = 10 * int m" for m
    by (induction m) (auto simp: next_state_def context_new_def)
  have "run ?w (\<lambda>st. 25 \<le> st) ?c 0 = Some (None, context_stop ?c, (next_state ?w ?c ^^ 3) 0)"
  proof (rule run_returns_on_stop)
    show "\<not> ctx_stop_requested ?c" by (simp add: context_new_def)
    show "25 \<le> (next_state ?w ?c ^^ 3) 0" unfolding n by simp
    show "\<not> 25 \<le> (next_state ?w ?c ^^ m) 0" if "m < 3" for m
      using that unfolding n by simp
  qed simp
  then show ?thesis unfolding n by simp
qed

text \<open>
  Without a stop request and without an exception the loop never returns.
\<close>

theorem run_forever:
  assumes "\<not> ctx_stop_requested c"
    and "\<And>n. \<not> signalled ((next_state wait c ^^ n) st)"
    and "\<And>st. fst (wait (timeout_msec c) (events_buf_size c) st) = None"
  shows "run wait signalled c st = None"
  using run_returned [of wait signalled c st] assms by (cases "run wait signalled c st") auto

theorem run_forever_witness:
  "run (\<lambda>t n st. (None, Suc st)) (\<lambda>st. False) (context_new None None) (0 :: nat) = None"
  by (rule run_forever) (simp_all add: context_new_def)

text \<open>
  Exceptions: an exception of a round (which the bus raises when its error callback throws or
  is missing) ends the loop although nobody asked to stop.
\<close>

theorem run_ends_on_exception:
  assumes "\<not> ctx_stop_requested c" and "\<not> signalled (w, b)"
    and "epoll_wait (epfd ep) (events_buf_size c) (timeout_msec c) (w\<lparr>errno := 0\<rparr>) = ((-1, buff), w')"
    and "errno w' \<noteq> EINTR"
  shows "run (\<lambda>t n. epoll_bus_wait epoll_wait ep t n destroy invoke None) signalled c (w, b) =
    Some (Some bad_function_call, c, w', b)"
proof (rule run_throw)
  show "\<not> signalled (w, b)" and "\<not> ctx_stop_requested c" by (rule assms)+
  show "epoll_bus_wait epoll_wait ep (timeout_msec c) (events_buf_size c) destroy invoke None (w, b) =
      (Some bad_function_call, w', b)"
    using assms(3,4)
    by (simp add: epoll_bus_wait_def wait_events_def epoll_wait_events_def report_error_def)
qed

theorem run_ends_on_exception_witness:
  "run (\<lambda>t n. epoll_bus_wait (\<lambda>e n t w. ((-1, []), w\<lparr>errno := 9\<rparr>)) ep_example t n id (\<lambda>cb fd fl st. (None, st)) None)
     (\<lambda>st. False) (context_new None None) (\<lparr>errno = 0, kernel = {}\<rparr>, bus_new) =
   Some (Some bad_function_call, context_new None None, \<lparr>errno = 9, kernel = {}\<rparr>, bus_new)"
  by (rule run_ends_on_exception [where buff = "[]"]) (simp_all add: context_new_def EINTR_def)

end
