(* ===== verification/Addr.thy ===== *)
theory Addr
  imports System
begin

text \<open>
  \<^verbatim>\<open>src/io/v4.cpp\<close>, \<^verbatim>\<open>src/io/addrinfo.cpp\<close> and the connecting part of
  \<^verbatim>\<open>src/io/socket.cpp\<close>: addresses given as strings, the list of candidates the resolver
  returns, and the loop that connects to the first candidate that works.  The resolver and the
  socket calls are arguments.
\<close>

section \<open>Strings and numbers\<close>

text \<open>\<^verbatim>\<open>std::stoi\<close>: white space, a sign and digits are read, what follows is ignored.\<close>

definition is_space :: "char \<Rightarrow> bool" where
  "is_space c \<longleftrightarrow> c \<in> {CHR '' '', CHR 0x09, CHR 0x0A, CHR 0x0B, CHR 0x0C, CHR 0x0D}"

definition digit_val :: "char \<Rightarrow> nat" where
  "digit_val c = of_char c - 48"

definition is_digit :: "char \<Rightarrow> bool" where
  "is_digit c \<longleftrightarrow> 48 \<le> (of_char c :: nat) \<and> (of_char c :: nat) \<le> 57"

definition digits_val :: "string \<Rightarrow> nat" where
  "digits_val ds = foldl (\<lambda>n c. 10 * n + digit_val c) 0 ds"

definition split_sign :: "string \<Rightarrow> bool \<times> string" where
  "split_sign s =
     (case s of
        [] \<Rightarrow> (False, [])
      | c # t \<Rightarrow> if c = CHR ''-'' then (True, t) else if c = CHR ''+'' then (False, t) else (False, s))"

definition stoi :: "string \<Rightarrow> exn + int" where
  "stoi s =
     (let (neg, t) = split_sign (dropWhile is_space s);
          ds = takeWhile is_digit t;
          v = (if neg then - int (digits_val ds) else int (digits_val ds))
      in if ds = [] then Inl (Std_Exception ''stoi'')
         else if v < - (2 ^ 31) \<or> 2 ^ 31 - 1 < v then Inl (Std_Exception ''stoi'')
         else Inr v)"

text \<open>\<^verbatim>\<open>std::to_string\<close> and the output of an unsigned integer.\<close>

definition digit_char :: "nat \<Rightarrow> char" where
  "digit_char d = char_of (d + 48)"

fun to_string :: "nat \<Rightarrow> string" where
  "to_string n = (if n < 10 then [digit_char n] else to_string (n div 10) @ [digit_char (n mod 10)])"

declare to_string.simps [simp del]

section \<open>io::ip::v4\<close>

record v4 =
  v4_host :: string
  v4_port :: u16

text \<open>The constructor: the \<open>int\<close> becomes a \<^verbatim>\<open>uint16_t\<close> without a check.\<close>

definition v4_new :: "string \<Rightarrow> string \<Rightarrow> exn + v4" where
  "v4_new host port =
     (case stoi port of Inl ex \<Rightarrow> Inl ex | Inr n \<Rightarrow> Inr \<lparr>v4_host = host, v4_port = word_of_int n\<rparr>)"

definition v4_swap :: "v4 \<Rightarrow> v4 \<Rightarrow> v4 \<times> v4" where
  "v4_swap lh rh =
     (lh\<lparr>v4_host := v4_host rh, v4_port := v4_port rh\<rparr>, rh\<lparr>v4_host := v4_host lh, v4_port := v4_port lh\<rparr>)"

text \<open>Moving: the new object and what is left of the old one, whose host is unspecified (\<open>rest\<close>).\<close>

definition v4_move :: "string \<Rightarrow> v4 \<Rightarrow> v4 \<times> v4" where
  "v4_move rest other = (\<lparr>v4_host = v4_host other, v4_port = v4_port other\<rparr>, \<lparr>v4_host = rest, v4_port = 0\<rparr>)"

definition v4_assign :: "v4 \<Rightarrow> v4 \<Rightarrow> v4" where
  "v4_assign this other = fst (v4_swap this other)"

definition v4_ostream :: "v4 \<Rightarrow> string" where
  "v4_ostream address = v4_host address @ '':'' @ to_string (unat (v4_port address))"

section \<open>io::ip::system::addrinfo\_t\<close>

record addrinfo =
  ai_family :: int
  ai_socktype :: u32
  ai_protocol :: int
  ai_addr :: "byte list"

definition AF_UNSPEC :: int where "AF_UNSPEC = 0"
definition SOCK_STREAM :: u32 where "SOCK_STREAM = 1"
definition SOCK_NONBLOCK :: u32 where "SOCK_NONBLOCK = 0x800"

text \<open>
  The wrapped list; the empty list is the null pointer.  The resolver gives an error number with its
  text, or the candidates.
\<close>

type_synonym addrinfo_t = "addrinfo list"
type_synonym 'k getaddrinfo = "string \<Rightarrow> string \<Rightarrow> addrinfo \<Rightarrow> ('k, string + addrinfo list) syscall"

definition addrinfo_new :: "'k getaddrinfo \<Rightarrow> v4 \<Rightarrow> ('k, exn + addrinfo_t) syscall" where
  "addrinfo_new getaddrinfo address w =
     (let hints = \<lparr>ai_family = AF_UNSPEC, ai_socktype = SOCK_STREAM, ai_protocol = 0, ai_addr = []\<rparr>;
          port = to_string (unat (v4_port address));
          (r, w1) = getaddrinfo (v4_host address) port hints w
      in case r of
           Inl gai_text \<Rightarrow> (Inl (Io_Error (mk_error gai_text (-1) (errno w1))), w1)
         | Inr ai \<Rightarrow> (Inr ai, w1))"

definition addrinfo_move :: "addrinfo_t \<Rightarrow> addrinfo_t \<times> addrinfo_t" where
  "addrinfo_move other = (other, [])"

text \<open>Move assignment by a temporary: this object, the source, and what the temporary frees.\<close>

definition addrinfo_assign :: "addrinfo_t \<Rightarrow> addrinfo_t \<Rightarrow> addrinfo_t \<times> addrinfo_t \<times> addrinfo_t" where
  "addrinfo_assign this other =
     (let (temp, other') = addrinfo_move other in (temp, other', this))"

section \<open>Connecting\<close>

type_synonym 'k sys_socket = "int \<Rightarrow> u32 \<Rightarrow> int \<Rightarrow> ('k, int) syscall"
type_synonym 'k sys_connect = "fd \<Rightarrow> byte list \<Rightarrow> ('k, int) syscall"
type_synonym 'k sys_close = "fd \<Rightarrow> ('k, int) syscall"

fun open_socket ::
  "'k sys_socket \<Rightarrow> 'k sys_connect \<Rightarrow> 'k sys_close \<Rightarrow> addrinfo_t \<Rightarrow> ('k, exn + fd) syscall" where
  "open_socket sock conn cls [] w = (Inl (Io_Error (mk_error ''failed to connect'' (-1) (errno w))), w)"
| "open_socket sock conn cls (p # ps) w =
     (let (sockfd, w1) = sock (ai_family p) (ai_socktype p OR SOCK_NONBLOCK) (ai_protocol p) w
      in if sockfd = -1 then open_socket sock conn cls ps w1
         else
           (let (r, w2) = conn sockfd (ai_addr p) w1
            in if r = -1 \<and> errno w2 \<noteq> EINPROGRESS
               then (let (r', w3) = cls sockfd w2 in open_socket sock conn cls ps w3)
               else (Inr sockfd, w2)))"

text \<open>The descriptor of a socket opened for an address.\<close>

definition socket_connect ::
  "'k getaddrinfo \<Rightarrow> 'k sys_socket \<Rightarrow> 'k sys_connect \<Rightarrow> 'k sys_close \<Rightarrow> v4 \<Rightarrow> ('k, exn + fd) syscall" where
  "socket_connect gai sock conn cls address w =
     (case addrinfo_new gai address w of
        (Inl ex, w1) \<Rightarrow> (Inl ex, w1)
      | (Inr ai, w1) \<Rightarrow> open_socket sock conn cls ai w1)"

section \<open>Decimal round trip\<close>

lemma digit_char [simp]:
  "d < 10 \<Longrightarrow> is_digit (digit_char d)" "d < 10 \<Longrightarrow> digit_val (digit_char d) = d"
  "d < 10 \<Longrightarrow> \<not> is_space (digit_char d)"
  "d < 10 \<Longrightarrow> digit_char d \<noteq> CHR ''-''" "d < 10 \<Longrightarrow> digit_char d \<noteq> CHR ''+''"
proof -
  assume d: "d < 10"
  then have v: "(of_char (digit_char d) :: nat) = d + 48" by (simp add: digit_char_def)
  show "is_digit (digit_char d)" using d v by (simp add: is_digit_def)
  show "digit_val (digit_char d) = d" using v by (simp add: digit_val_def)
  have ne: "digit_char d \<noteq> c" if "(of_char c :: nat) < 48" for c using v that by auto
  show "\<not> is_space (digit_char d)" using ne by (auto simp: is_space_def)
  show "digit_char d \<noteq> CHR ''-''" "digit_char d \<noteq> CHR ''+''" by (rule ne, simp)+
qed

lemma to_string_digits: "\<forall>c\<in>set (to_string n). is_digit c"
proof (induction n rule: to_string.induct)
  case (1 n)
  then show ?case by (cases "n < 10") (simp_all add: to_string.simps [of n])
qed

lemma to_string_head: "\<exists>d t. to_string n = digit_char d # t \<and> d < 10"
proof (induction n rule: to_string.induct)
  case (1 n)
  then show ?case by (cases "n < 10") (auto simp: to_string.simps [of n])
qed

lemma digits_val_to_string: "digits_val (to_string n) = n"
proof (induction n rule: to_string.induct)
  case (1 n)
  then show ?case by (cases "n < 10") (simp_all add: to_string.simps [of n] digits_val_def)
qed

lemma stoi_to_string:
  assumes "n < 2 ^ 31"
  shows "stoi (to_string n) = Inr (int n)"
proof -
  obtain d t where s: "to_string n = digit_char d # t" "d < 10" using to_string_head by blast
  have sign: "split_sign (dropWhile is_space (to_string n)) = (False, to_string n)"
    using s by (simp add: split_sign_def)
  have digits: "takeWhile is_digit (to_string n) = to_string n"
    using to_string_digits by (simp add: takeWhile_eq_all_conv)
  have "to_string n \<noteq> []" using s by simp
  with assms show ?thesis by (simp add: stoi_def sign digits digits_val_to_string)
qed

lemma v4_new_to_string [simp]: "v4_new host (to_string (unat p)) = Inr \<lparr>v4_host = host, v4_port = p\<rparr>"
proof -
  have "unat p < 2 ^ LENGTH(16)" by (rule unsigned_less)
  then have "unat p < 2 ^ 31" by simp
  then show ?thesis by (simp add: v4_new_def stoi_to_string)
qed

section \<open>Properties\<close>

text \<open>
  Every port printed in decimal is read back; printing an address that was made from a host and
  a printed port gives host, colon, port.
\<close>

theorem v4_roundtrip:
  "v4_new host (to_string (unat p)) = Inr \<lparr>v4_host = host, v4_port = p\<rparr> \<and>
   v4_ostream \<lparr>v4_host = host, v4_port = p\<rparr> = host @ '':'' @ to_string (unat p)"
  by (simp add: v4_ostream_def)

text \<open>
  A port is taken modulo 65536 and anything after its digits is ignored: "70000" is accepted as
  port 4464, "-1" as 65535 and "80x" as 80, while an empty or non-numeric port throws.
\<close>

theorem v4_port_unchecked:
  "v4_new h ''70000'' = Inr \<lparr>v4_host = h, v4_port = 4464\<rparr> \<and> v4_new h ''-1'' = Inr \<lparr>v4_host = h, v4_port = 65535\<rparr> \<and>
   v4_new h ''80x'' = Inr \<lparr>v4_host = h, v4_port = 80\<rparr> \<and> v4_new h ''http'' = Inl (Std_Exception ''stoi'') \<and>
   v4_new h '''' = Inl (Std_Exception ''stoi'')"
  by (simp add: v4_new_def stoi_def split_sign_def is_space_def is_digit_def digits_val_def digit_val_def)

text \<open>
  The kernel's set of open descriptors, seen through \<open>opens\<close>, as the socket calls are documented to
  change it.
\<close>

definition sockets_documented ::
  "'k sys_socket \<Rightarrow> 'k sys_connect \<Rightarrow> 'k sys_close \<Rightarrow> ('k world \<Rightarrow> fd set) \<Rightarrow> bool" where
  "sockets_documented sock conn cls opens \<longleftrightarrow>
     (\<forall>f t p w. opens (snd (sock f t p w)) =
        (if fst (sock f t p w) = -1 then opens w else insert (fst (sock f t p w)) (opens w)) \<and>
        (fst (sock f t p w) \<noteq> -1 \<longrightarrow> fst (sock f t p w) \<notin> opens w)) \<and>
     (\<forall>fd a w. opens (snd (conn fd a w)) = opens w) \<and>
     (\<forall>fd w. opens (snd (cls fd w)) = opens w - {fd})"

lemma open_socket_opens:
  assumes "sockets_documented sock conn cls opens"
  shows "case open_socket sock conn cls ai w of
      (Inl ex, w') \<Rightarrow> opens w' = opens w
    | (Inr fd, w') \<Rightarrow> opens w' = insert fd (opens w) \<and> fd \<notin> opens w \<and> fd \<noteq> -1"
proof (induction ai arbitrary: w)
  case (Cons p ps)
  obtain fd w1 where s: "sock (ai_family p) (ai_socktype p OR SOCK_NONBLOCK) (ai_protocol p) w = (fd, w1)"
    by (rule prod.exhaust)
  obtain r w2 where c: "conn fd (ai_addr p) w1 = (r, w2)" by (rule prod.exhaust)
  obtain r' w3 where l: "cls fd w2 = (r', w3)" by (rule prod.exhaust)
  have doc: "opens w1 = (if fd = -1 then opens w else insert fd (opens w))" "fd \<noteq> -1 \<longrightarrow> fd \<notin> opens w"
    "opens w2 = opens w1" "opens w3 = opens w2 - {fd}"
    using assms s c l unfolding sockets_documented_def by (metis fst_conv snd_conv)+
  show ?case
  proof (cases "fd = -1")
    case True
    with doc Cons [of w1] s show ?thesis by (simp split: prod.splits sum.splits)
  next
    case False
    show ?thesis
    proof (cases "r = -1 \<and> errno w2 \<noteq> EINPROGRESS")
      case True
      have "opens w3 = opens w" using doc False by auto
      with True False Cons [of w3] s c l show ?thesis by (simp split: prod.splits sum.splits)
    next
      case ok: False
      then have "open_socket sock conn cls (p # ps) w = (Inr fd, w2)" using False s c by auto
      with False doc show ?thesis by simp
    qed
  qed
qed simp

text \<open>
  C31. Connecting leaks no descriptor: when it succeeds exactly the returned descriptor has been
  opened, and when every candidate fails the open descriptors are those from before.
\<close>

theorem open_socket_no_leak:
  assumes "sockets_documented sock conn cls opens"
  shows "case open_socket sock conn cls ai w of
      (Inl ex, w') \<Rightarrow> opens w' = opens w
    | (Inr fd, w') \<Rightarrow> opens w' = insert fd (opens w) \<and> fd \<notin> opens w \<and> fd \<noteq> -1"
  by (rule open_socket_opens [OF assms])

text \<open>A kernel whose state is its set of open descriptors; its second candidate refuses connections.\<close>

definition sys_socket_example :: "fd set sys_socket" where
  "sys_socket_example f t p w =
     (if 4 \<in> kernel w then (-1, w\<lparr>errno := 24\<rparr>) else (4, w\<lparr>kernel := insert 4 (kernel w)\<rparr>))"

definition sys_connect_example :: "fd set sys_connect" where
  "sys_connect_example fd a w = (if a = [2] then (-1, w\<lparr>errno := 111\<rparr>) else (-1, w\<lparr>errno := EINPROGRESS\<rparr>))"

definition sys_close_example :: "fd set sys_close" where
  "sys_close_example fd w = (0, w\<lparr>kernel := kernel w - {fd}\<rparr>)"

definition candidate :: "byte \<Rightarrow> addrinfo" where
  "candidate b = \<lparr>ai_family = 2, ai_socktype = SOCK_STREAM, ai_protocol = 6, ai_addr = [b]\<rparr>"

theorem open_socket_no_leak_witness:
  "open_socket sys_socket_example sys_connect_example sys_close_example [candidate 2, candidate 1]
     \<lparr>errno = 0, kernel = {0}\<rparr> = (Inr 4, \<lparr>errno = EINPROGRESS, kernel = {0, 4}\<rparr>) \<and>
   {0, 4} = insert 4 (kernel \<lparr>errno = 0, kernel = {0 :: fd}\<rparr>)"
proof -
  let ?r = "open_socket sys_socket_example sys_connect_example sys_close_example [candidate 2, candidate 1]
     \<lparr>errno = 0, kernel = {0}\<rparr>"
  have r: "?r = (Inr 4, \<lparr>errno = EINPROGRESS, kernel = {0, 4}\<rparr>)"
    by (simp add: sys_socket_example_def sys_connect_example_def sys_close_example_def candidate_def
        EINPROGRESS_def insert_commute)
  have "sockets_documented sys_socket_example sys_connect_example sys_close_example kernel"
    by (simp add: sockets_documented_def sys_socket_example_def sys_connect_example_def sys_close_example_def)
  from open_socket_no_leak [OF this, of "\<lparr>errno = 0, kernel = {0}\<rparr>" "[candidate 2, candidate 1]"] r
  show ?thesis by simp
qed

end
