(* ===== verification/Socket.thy ===== *)
theory Socket
  imports Epoll
begin

text \<open>
  \<^verbatim>\<open>src/io/socket.cpp\<close> and the interfaces of \<^verbatim>\<open>src/io/object.cpp\<close> it implements:
  non-blocking reads and writes on a TCP socket, and closing it.  The system calls are arguments;
  \<^verbatim>\<open>recv\<close> gives the bytes it stores (\<open>None\<close> for -1) and \<^verbatim>\<open>send\<close> the number of
  bytes it takes, never more than they are asked for, as POSIX documents.  What a reader or writer
  of bytes promises to its client, the channel, is the locale \<open>byte_stream\<close>.
\<close>

section \<open>Results and system calls\<close>

text \<open>
  \<^verbatim>\<open>result_type\<close>: the error, or the descriptor and the bytes at the start of the buffer (for a
  write: their number).
\<close>

type_synonym read_result = "io_error + (fd \<times> byte list)"
type_synonym write_result = "io_error + (fd \<times> nat)"

type_synonym 'k recv = "fd \<Rightarrow> nat \<Rightarrow> ('k, byte list option) syscall"
type_synonym 'k send = "fd \<Rightarrow> byte list \<Rightarrow> ('k, nat option) syscall"

section \<open>Objects on the bus\<close>

text \<open>
  \<^verbatim>\<open>object_base\<close>: what its members do to the bus, for an object with the virtual
  function \<^verbatim>\<open>_get_fd\<close>; the bus is the one of the state.
\<close>

definition add_bus_callback ::
  "(fd \<Rightarrow> 'cb option \<Rightarrow> ('k, 'cb) action) \<Rightarrow> ('o \<Rightarrow> fd) \<Rightarrow> 'o \<Rightarrow> 'cb \<Rightarrow> ('k, 'cb) action" where
  "add_bus_callback add fd_of ob cb = add (fd_of ob) (Some cb)"

definition del_bus_fd_callbacks :: "('o \<Rightarrow> fd) \<Rightarrow> 'o \<Rightarrow> 'cb bus \<Rightarrow> 'cb bus" where
  "del_bus_fd_callbacks fd_of ob = del_fd_callbacks (fd_of ob)"

definition del_bus_fd :: "(fd \<Rightarrow> ('k, 'cb) action) \<Rightarrow> ('o \<Rightarrow> fd) \<Rightarrow> 'o \<Rightarrow> ('k, 'cb) action" where
  "del_bus_fd del fd_of ob = del (fd_of ob)"

section \<open>The socket\<close>

record socket =
  sock_fd :: fd

definition async_read_some :: "'k recv \<Rightarrow> socket \<Rightarrow> nat \<Rightarrow> ('k, read_result) syscall" where
  "async_read_some recv s buf_len w =
     (if sock_fd s = -1 then (Inl (mk_error ''closed socket used'' (sock_fd s) (errno w)), w)
      else
        (let (r, w1) = recv (sock_fd s) buf_len (w\<lparr>errno := 0\<rparr>)
         in case map_option (take buf_len) r of
              Some [] \<Rightarrow> (Inl (mk_error ''zero bytes read in recv'' (sock_fd s) (errno w1)), w1)
            | None \<Rightarrow>
                (if would_block (errno w1) then (Inr (sock_fd s, []), w1)
                 else (Inl (mk_error ''recv failed'' (sock_fd s) (errno w1)), w1))
            | Some bs \<Rightarrow> (Inr (sock_fd s, bs), w1)))"

definition async_write_some :: "'k send \<Rightarrow> socket \<Rightarrow> byte list \<Rightarrow> ('k, write_result) syscall" where
  "async_write_some send s bs w =
     (if sock_fd s = -1 then (Inl (mk_error ''closed socket used'' (sock_fd s) (errno w)), w)
      else
        (let (r, w1) = send (sock_fd s) bs (w\<lparr>errno := 0\<rparr>)
         in case r of
              None \<Rightarrow>
                (if would_block (errno w1) then (Inr (sock_fd s, 0), w1)
                 else (Inl (mk_error ''send failed'' (sock_fd s) (errno w1)), w1))
            | Some n \<Rightarrow> (Inr (sock_fd s, min n (length bs)), w1)))"

text \<open>
  Closing: the descriptor is taken out first, so that a second call does nothing, and put back if
  one of the steps fails.
\<close>

definition close_connection ::
  "(fd \<Rightarrow> ('k, 'cb) action) \<Rightarrow> (fd \<Rightarrow> ('k, int) syscall) \<Rightarrow> (fd \<Rightarrow> ('k, int) syscall) \<Rightarrow>
   socket \<Rightarrow> ('k, 'cb) state \<Rightarrow> exn option \<times> socket \<times> ('k, 'cb) state" where
  "close_connection del sys_shutdown sys_close s st =
     (if sock_fd s = -1 then (None, s, st)
      else
        (let fd = sock_fd s; s1 = s\<lparr>sock_fd := -1\<rparr>; (x, st1) = del fd st
         in case x of
              Some ex \<Rightarrow> (Some ex, s1\<lparr>sock_fd := fd\<rparr>, st1)
            | None \<Rightarrow>
                (let (r1, w2) = sys_shutdown fd (fst st1)
                 in if r1 = -1
                    then (Some (Io_Error (mk_error ''failed to shutdown socket fd'' fd (errno w2))),
                          s1\<lparr>sock_fd := fd\<rparr>, w2, snd st1)
                    else
                      (let (r2, w3) = sys_close fd w2
                       in if r2 = -1
                          then (Some (Io_Error (mk_error ''failed to close socket fd'' fd (errno w3))),
                                s1\<lparr>sock_fd := fd\<rparr>, w3, snd st1)
                          else (None, s1, w3, snd st1)))))"

text \<open>The destructor: every exception is caught and printed.\<close>

definition close_connection_noexcept ::
  "(fd \<Rightarrow> ('k, 'cb) action) \<Rightarrow> (fd \<Rightarrow> ('k, int) syscall) \<Rightarrow> (fd \<Rightarrow> ('k, int) syscall) \<Rightarrow>
   socket \<Rightarrow> ('k, 'cb) state \<Rightarrow> socket \<times> ('k, 'cb) state" where
  "close_connection_noexcept del sys_shutdown sys_close s st =
     (case close_connection del sys_shutdown sys_close s st of (x, s', st') \<Rightarrow> (s', st'))"

section \<open>The contract of a byte stream\<close>

locale byte_stream =
  fixes rd :: "'s \<Rightarrow> nat \<Rightarrow> ('k, read_result) syscall"
    and wr :: "'s \<Rightarrow> byte list \<Rightarrow> ('k, write_result) syscall"
  assumes rd_le: "rd s n w = (Inr (fd, bs), w') \<Longrightarrow> length bs \<le> n"
    and wr_le: "wr s xs w = (Inr (fd, m), w') \<Longrightarrow> m \<le> length xs"

interpretation sock: byte_stream "async_read_some recv" "async_write_some send" for recv send
proof
  show "length bs \<le> n" if "async_read_some recv s n w = (Inr (fd, bs), w')" for s n w fd bs w'
    using that
    by (auto simp: async_read_some_def Let_def split: if_splits prod.splits option.splits list.splits)
  show "m \<le> length xs" if "async_write_some send s xs w = (Inr (fd, m), w')" for s xs w fd m w'
    using that
    by (auto simp: async_write_some_def Let_def split: if_splits prod.splits option.splits)
qed

section \<open>Properties\<close>

text \<open>
  Closing a socket whose steps all succeed takes its descriptor out of the bus, the kernel and
  the socket, and a second close does nothing.
\<close>

theorem close_once:
  assumes "sock_fd s \<noteq> -1" and "del (sock_fd s) (w, b) = (None, w1, b1)"
    and "sys_shutdown (sock_fd s) w1 = (0, w2)" and "sys_close (sock_fd s) w2 = (0, w3)"
  shows "close_connection del sys_shutdown sys_close s (w, b) = (None, s\<lparr>sock_fd := -1\<rparr>, w3, b1) \<and>
    close_connection del sys_shutdown sys_close (s\<lparr>sock_fd := -1\<rparr>) (w3, b1) = (None, s\<lparr>sock_fd := -1\<rparr>, w3, b1)"
  using assms by (simp add: close_connection_def)

definition sock_example :: socket where
  "sock_example = \<lparr>sock_fd = 7\<rparr>"

theorem close_once_witness:
  "let s = sock_example; w = \<lparr>errno = 0, kernel = {7 :: fd}\<rparr>; b = bus_new :: nat bus;
       del = epoll_bus_del ctl_example ep_example; ok = (\<lambda>fd w. (0, w))
   in close_connection del ok ok s (w, b) =
        (None, s\<lparr>sock_fd := -1\<rparr>, w\<lparr>kernel := {}\<rparr>, del_fd_callbacks 7 b) \<and>
      close_connection del ok ok (s\<lparr>sock_fd := -1\<rparr>) (w\<lparr>kernel := {}\<rparr>, del_fd_callbacks 7 b) =
        (None, s\<lparr>sock_fd := -1\<rparr>, w\<lparr>kernel := {}\<rparr>, del_fd_callbacks 7 b)"
  unfolding Let_def
  by (rule close_once)
    (simp_all add: sock_example_def epoll_bus_del_def del_fd_def epoll_del_fd_def ctl_example_def)

text \<open>
  If shutting down fails, as it does on a socket whose peer is gone, the descriptor is no longer
  watched but is never closed: whatever closing would do, the destructor ends without it.
\<close>

theorem close_leaks:
  assumes "sock_fd s \<noteq> -1" and "del (sock_fd s) (w, b) = (None, w1, b1)"
    and "sys_shutdown (sock_fd s) w1 = (-1, w2)"
  shows "close_connection_noexcept del sys_shutdown sys_close s (w, b) = (s, w2, b1) \<and>
    close_connection del sys_shutdown sys_close s (w, b) =
      (Some (Io_Error (mk_error ''failed to shutdown socket fd'' (sock_fd s) (errno w2))), s, w2, b1)"
  using assms by (simp add: close_connection_noexcept_def close_connection_def)

theorem close_leaks_witness:
  "let s = sock_example; w = \<lparr>errno = 0, kernel = {7 :: fd}\<rparr>; w2 = \<lparr>errno = 107, kernel = {} :: fd set\<rparr>;
       b = bus_new :: nat bus; del = epoll_bus_del ctl_example ep_example;
       sd = (\<lambda>fd w. (-1, w\<lparr>errno := 107\<rparr>)); cl = (\<lambda>fd w. (0, w))
   in close_connection_noexcept del sd cl s (w, b) = (s, w2, del_fd_callbacks 7 b) \<and>
      close_connection del sd cl s (w, b) =
        (Some (Io_Error (mk_error ''failed to shutdown socket fd'' (sock_fd s) (errno w2))), s, w2, del_fd_callbacks 7 b)"
  unfolding Let_def
  by (rule close_leaks [where ?w1.0 = "\<lparr>errno = 0, kernel = {}\<rparr>"])
    (simp_all add: sock_example_def epoll_bus_del_def del_fd_def epoll_del_fd_def ctl_example_def)

text \<open>
  A read or write that would block is no error and moves no bytes; end of file and every other
  failure are errors that carry the descriptor and the kernel's error number.
\<close>

theorem read_outcomes:
  assumes "sock_fd s \<noteq> -1" and "0 < n" and "recv (sock_fd s) n (w\<lparr>errno := 0\<rparr>) = (r, w')"
  shows "async_read_some recv s n w =
    (case r of
       Some bs \<Rightarrow> (if bs = [] then Inl (mk_error ''zero bytes read in recv'' (sock_fd s) (errno w'))
                   else Inr (sock_fd s, take n bs), w')
     | None \<Rightarrow> (if errno w' \<in> {EINTR, EAGAIN, EINPROGRESS} then Inr (sock_fd s, [])
                else Inl (mk_error ''recv failed'' (sock_fd s) (errno w')), w'))"
proof (cases r)
  case None
  with assms show ?thesis by (simp add: async_read_some_def would_block_def)
next
  case (Some bs)
  with assms show ?thesis
    by (cases bs; cases n) (simp_all add: async_read_some_def)
qed

theorem read_outcomes_witness:
  "async_read_some (\<lambda>fd n w. (None, w\<lparr>errno := EAGAIN\<rparr>)) sock_example 4 \<lparr>errno = 0, kernel = ()\<rparr> =
    (case None of
       Some bs \<Rightarrow> (if bs = [] then Inl (mk_error ''zero bytes read in recv'' (sock_fd sock_example)
                                      (errno \<lparr>errno = EAGAIN, kernel = ()\<rparr>))
                   else Inr (sock_fd sock_example, take 4 bs), \<lparr>errno = EAGAIN, kernel = ()\<rparr>)
     | None \<Rightarrow> (if errno \<lparr>errno = EAGAIN, kernel = ()\<rparr> \<in> {EINTR, EAGAIN, EINPROGRESS}
                then Inr (sock_fd sock_example, [])
                else Inl (mk_error ''recv failed'' (sock_fd sock_example) (errno \<lparr>errno = EAGAIN, kernel = ()\<rparr>)),
                \<lparr>errno = EAGAIN, kernel = ()\<rparr>))"
  by (rule read_outcomes) (simp_all add: sock_example_def)

end
