(* ===== verification/Channel.thy ===== *)
theory Channel
  imports Socket Bipartite
begin

text \<open>
  \<^verbatim>\<open>src/io/channel.cpp\<close>: bytes read from the left object are put into a bipartite buffer,
  shown to the handlers and written to the right object.  Left and right are objects with the
  contract \<open>byte_stream\<close>, whose \<^verbatim>\<open>async_read_some\<close> and \<^verbatim>\<open>async_write_some\<close> are
  arguments; the buffer is the model of \<open>Bipartite\<close> with its queue contract.
\<close>

section \<open>State\<close>

definition CHUNK_SZ :: nat where "CHUNK_SZ = 64 * 1024 - 1"
definition BUFF_SZ :: nat where "BUFF_SZ = 2 * CHUNK_SZ"

lemma channel_sizes: "BUFF_SZ = 131070" "CHUNK_SZ = 65535"
  by (simp_all add: BUFF_SZ_def CHUNK_SZ_def)

record ('s, 'h) channel =
  ch_buffer :: "byte bip"
  ch_left :: 's
  ch_right :: 's
  ch_handlers :: "'h list"

text \<open>
  Everything a channel callback can change beside the channel: the world, the bus, and whatever the
  handlers work on (\<open>'x\<close>).
\<close>

type_synonym ('k, 'cb, 'x) env = "'k world \<times> 'cb bus \<times> 'x"

text \<open>A handler is given the error, or the descriptor, the pointer to the bytes and their number.\<close>

type_synonym handler_arg = "io_error + (fd \<times> ptr \<times> nat)"
type_synonym ('h, 'e) call_handler = "handler_arg \<Rightarrow> 'h \<Rightarrow> 'e \<Rightarrow> exn option \<times> 'h \<times> 'e"

section \<open>Operations\<close>

definition channel_new :: "(nat \<Rightarrow> byte) \<Rightarrow> 's \<Rightarrow> 's \<Rightarrow> ('s, 'h) channel" where
  "channel_new mem left right =
     \<lparr>ch_buffer = bip_new mem, ch_left = left, ch_right = right, ch_handlers = []\<rparr>"

definition add_handler :: "'h \<Rightarrow> ('s, 'h) channel \<Rightarrow> ('s, 'h) channel" where
  "add_handler cb ch = ch\<lparr>ch_handlers := ch_handlers ch @ [cb]\<rparr>"

text \<open>
  \<open>_start\<close>: both callbacks are registered with the bus; \<open>add\<close> is \<^verbatim>\<open>add_bus_callback\<close> of the
  object.
\<close>

definition channel_start ::
  "('s \<Rightarrow> 'cb \<Rightarrow> ('k, 'cb) action) \<Rightarrow> 'cb \<Rightarrow> 'cb \<Rightarrow> ('s, 'h) channel \<Rightarrow> ('k, 'cb) action" where
  "channel_start add left_cb right_cb ch st =
     (case add (ch_left ch) left_cb st of
        (Some ex, st1) \<Rightarrow> (Some ex, st1)
      | (None, st1) \<Rightarrow> add (ch_right ch) right_cb st1)"

text \<open>The loop over the handlers; one that throws ends it.\<close>

fun run_handlers :: "('h, 'e) call_handler \<Rightarrow> handler_arg \<Rightarrow> 'h list \<Rightarrow> 'e \<Rightarrow> exn option \<times> 'h list \<times> 'e" where
  "run_handlers call arg [] e = (None, [], e)"
| "run_handlers call arg (h # hs) e =
     (case call arg h e of
        (Some ex, h', e') \<Rightarrow> (Some ex, h' # hs, e')
      | (None, h', e') \<Rightarrow> (let (x, hs', e'') = run_handlers call arg hs e' in (x, h' # hs', e'')))"

text \<open>
  The first block of \<open>_handle_left_io_event\<close>.  The outer \<open>None\<close> is a failed assertion of the buffer;
  the last component is what was received, for the statements about the callback.  A read that
  fails leaves the acquired space unreleased.
\<close>

definition left_read ::
  "('s \<Rightarrow> nat \<Rightarrow> ('k, read_result) syscall) \<Rightarrow> ('h, ('k, 'cb, 'x) env) call_handler \<Rightarrow> fd \<Rightarrow>
   ('s, 'h) channel \<Rightarrow> ('k, 'cb, 'x) env \<Rightarrow>
   (exn option \<times> ('s, 'h) channel \<times> ('k, 'cb, 'x) env \<times> byte list) option" where
  "left_read rd call fd ch = (\<lambda>(w, b, x).
     (case write_acquire BUFF_SZ CHUNK_SZ (ch_buffer ch) of
        (None, q) \<Rightarrow> Some (None, ch\<lparr>ch_buffer := q\<rparr>, (w, b, x), [])
      | (Some off, q) \<Rightarrow>
          (let (result, w1) = rd (ch_left ch) CHUNK_SZ w
           in case result of
                Inl err \<Rightarrow>
                  (let (ex, hs, e) =
                     run_handlers call (Inl err) (ch_handlers ch) (w1, enqueue_event fd flags_error b, x)
                   in Some (ex, ch\<lparr>ch_buffer := q, ch_handlers := hs\<rparr>, e, []))
              | Inr (rfd, bs) \<Rightarrow>
                  (case write_release BUFF_SZ (length bs) (bip_fill off bs q) of
                     None \<Rightarrow> None
                   | Some q1 \<Rightarrow>
                       (let (ex, hs, e) =
                          run_handlers call (Inr (rfd, ptr_next (bip_data q1) off, length bs))
                            (ch_handlers ch) (w1, b, x)
                        in Some (ex, ch\<lparr>ch_buffer := q1, ch_handlers := hs\<rparr>, e, bs))))))"

text \<open>
  Writing what can be read from the buffer, as the second block of \<open>_handle_left_io_event\<close> and
  \<open>_handle_right_io_event\<close> do it; the last component is what was sent.
\<close>

definition right_write ::
  "('s \<Rightarrow> byte list \<Rightarrow> ('k, write_result) syscall) \<Rightarrow> fd \<Rightarrow>
   ('s, 'h) channel \<Rightarrow> ('k, 'cb, 'x) env \<Rightarrow>
   (('s, 'h) channel \<times> ('k, 'cb, 'x) env \<times> byte list) option" where
  "right_write wr fd ch = (\<lambda>(w, b, x).
     (case read_acquire (ch_buffer ch) of
        ((None, len), q) \<Rightarrow> Some (ch\<lparr>ch_buffer := q\<rparr>, (w, b, x), [])
      | ((Some off, len), q) \<Rightarrow>
          if 0 < len then
            (let (result, w1) = wr (ch_right ch) (bip_view q off len) w
             in case result of
                  Inl err \<Rightarrow> Some (ch\<lparr>ch_buffer := q\<rparr>, (w1, b, x), [])
                | Inr (wfd, n) \<Rightarrow>
                    (case read_release BUFF_SZ n q of
                       None \<Rightarrow> None
                     | Some q1 \<Rightarrow>
                         Some (ch\<lparr>ch_buffer := q1\<rparr>,
                               (w1, if n < len then enqueue_event fd flags_out b else b, x),
                               take n (bip_view q off len))))
          else Some (ch\<lparr>ch_buffer := q\<rparr>, (w, b, x), [])))"

definition handle_left_io_event ::
  "('s \<Rightarrow> nat \<Rightarrow> ('k, read_result) syscall) \<Rightarrow> ('s \<Rightarrow> byte list \<Rightarrow> ('k, write_result) syscall) \<Rightarrow>
   ('h, ('k, 'cb, 'x) env) call_handler \<Rightarrow> fd \<Rightarrow> flags \<Rightarrow>
   ('s, 'h) channel \<Rightarrow> ('k, 'cb, 'x) env \<Rightarrow>
   (exn option \<times> ('s, 'h) channel \<times> ('k, 'cb, 'x) env \<times> byte list \<times> byte list) option" where
  "handle_left_io_event rd wr call fd m ch e =
     (if flags_test m flags_in then
        (case left_read rd call fd ch e of
           None \<Rightarrow> None
         | Some (Some ex, ch1, e1, got) \<Rightarrow> Some (Some ex, ch1, e1, got, [])
         | Some (None, ch1, e1, got) \<Rightarrow>
             (case right_write wr fd ch1 e1 of
                None \<Rightarrow> None
              | Some (ch2, e2, sent) \<Rightarrow> Some (None, ch2, e2, got, sent)))
      else Some (None, ch, e, [], []))"

definition handle_right_io_event ::
  "('s \<Rightarrow> byte list \<Rightarrow> ('k, write_result) syscall) \<Rightarrow> fd \<Rightarrow> flags \<Rightarrow>
   ('s, 'h) channel \<Rightarrow> ('k, 'cb, 'x) env \<Rightarrow>
   (exn option \<times> ('s, 'h) channel \<times> ('k, 'cb, 'x) env \<times> byte list \<times> byte list) option" where
  "handle_right_io_event wr fd m ch e =
     (if flags_test m flags_out then
        (case right_write wr fd ch e of
           None \<Rightarrow> None
         | Some (ch1, e1, sent) \<Rightarrow> Some (None, ch1, e1, [], sent))
      else Some (None, ch, e, [], []))"

section \<open>Invariant and abstraction\<close>

definition channel_inv :: "('s, 'h) channel \<Rightarrow> bool" where
  "channel_inv ch \<longleftrightarrow> bip_inv BUFF_SZ (ch_buffer ch) \<and> bip_ready BUFF_SZ CHUNK_SZ (ch_buffer ch)"

text \<open>The bytes received and not yet sent.\<close>

definition ch_pending :: "('s, 'h) channel \<Rightarrow> byte list" where
  "ch_pending ch = bip_contents (ch_buffer ch)"

lemma channel_new_inv [simp]:
  "channel_inv (channel_new mem left right)" "ch_pending (channel_new mem left right) = []"
  by (simp_all add: channel_inv_def ch_pending_def channel_new_def channel_sizes SIZE_T_def)
    (simp add: bip_ready_def bip_new_def)

text \<open>
  A history of a channel: its callbacks are called with any descriptor and flags, and between two
  calls anything outside the channel may change.  The result collects what was received and sent.
\<close>

datatype side = On_Left | On_Right

fun channel_run ::
  "('s \<Rightarrow> nat \<Rightarrow> ('k, read_result) syscall) \<Rightarrow> ('s \<Rightarrow> byte list \<Rightarrow> ('k, write_result) syscall) \<Rightarrow>
   ('h, ('k, 'cb, 'x) env) call_handler \<Rightarrow>
   (side \<times> fd \<times> flags \<times> (('k, 'cb, 'x) env \<Rightarrow> ('k, 'cb, 'x) env)) list \<Rightarrow>
   ('s, 'h) channel \<Rightarrow> ('k, 'cb, 'x) env \<Rightarrow>
   (('s, 'h) channel \<times> ('k, 'cb, 'x) env \<times> byte list \<times> byte list) option" where
  "channel_run rd wr call [] ch e = Some (ch, e, [], [])"
| "channel_run rd wr call ((s, fd, m, outside) # evs) ch e =
     (case (if s = On_Left then handle_left_io_event rd wr call fd m ch (outside e)
            else handle_right_io_event wr fd m ch (outside e)) of
        None \<Rightarrow> None
      | Some (x, ch1, e1, got, sent) \<Rightarrow>
          (case channel_run rd wr call evs ch1 e1 of
             None \<Rightarrow> None
           | Some (ch2, e2, got2, sent2) \<Rightarrow> Some (ch2, e2, got @ got2, sent @ sent2)))"

declare split_paired_Ex [simp del]

context byte_stream
begin

lemma left_read_ok:
  assumes "channel_inv ch"
  shows "\<exists>x ch1 e1 got. left_read rd call fd ch e = Some (x, ch1, e1, got) \<and> channel_inv ch1 \<and>
    ch_pending ch1 = ch_pending ch @ got"
proof -
  obtain w b x where e: "e = (w, b, x)" by (cases e)
  let ?q = "ch_buffer ch"
  from assms have inv: "bip_inv BUFF_SZ ?q" and ready: "bip_ready BUFF_SZ CHUNK_SZ ?q"
    by (simp_all add: channel_inv_def)
  obtain p q where acq: "write_acquire BUFF_SZ CHUNK_SZ ?q = (p, q)" by (rule prod.exhaust)
  show ?thesis
  proof (cases p)
    case None
    with acq bip.acq_w_None [OF inv] have "q = ?q" by simp
    with None acq assms show ?thesis by (simp add: left_read_def e channel_inv_def ch_pending_def)
  next
    case (Some off)
    note some = bip.acq_w_Some [OF inv ready acq [unfolded Some]]
    obtain result w1 where r: "rd (ch_left ch) CHUNK_SZ w = (result, w1)" by (rule prod.exhaust)
    show ?thesis
    proof (cases result)
      case (Inl err)
      obtain ex hs e' where "run_handlers call (Inl err) (ch_handlers ch) (w1, enqueue_event fd flags_error b, x) =
          (ex, hs, e')" by (rule prod_cases3)
      with Inl Some acq r some show ?thesis
        by (simp add: left_read_def e channel_inv_def ch_pending_def)
    next
      case (Inr res)
      obtain rfd bs where res: "res = (rfd, bs)" by (cases res)
      have "length bs \<le> CHUNK_SZ" using rd_le r Inr res by blast
      then obtain q1 where q1: "write_release BUFF_SZ (length bs) (bip_fill off bs q) = Some q1"
        "bip_inv BUFF_SZ q1" "bip_contents q1 = bip_contents ?q @ bs" "bip_ready BUFF_SZ CHUNK_SZ q1"
        using bip.commit [OF inv ready acq [unfolded Some]] by blast
      obtain ex hs e' where "run_handlers call (Inr (rfd, ptr_next (bip_data q1) off, length bs))
          (ch_handlers ch) (w1, b, x) = (ex, hs, e')" by (rule prod_cases3)
      with Inr Some acq r res q1 show ?thesis
        by (simp add: left_read_def e channel_inv_def ch_pending_def)
    qed
  qed
qed

lemma right_write_ok:
  assumes "channel_inv ch"
  shows "\<exists>ch1 e1 sent. right_write wr fd ch e = Some (ch1, e1, sent) \<and> channel_inv ch1 \<and>
    ch_pending ch = sent @ ch_pending ch1"
proof -
  obtain w b x where e: "e = (w, b, x)" by (cases e)
  let ?q = "ch_buffer ch"
  from assms have inv: "bip_inv BUFF_SZ ?q" and ready: "bip_ready BUFF_SZ CHUNK_SZ ?q"
    by (simp_all add: channel_inv_def)
  obtain p len q where acq: "read_acquire ?q = ((p, len), q)" by (metis surj_pair)
  show ?thesis
  proof (cases p)
    case None
    with acq bip.acq_r_None [OF inv] have "q = ?q" by simp
    with None acq assms show ?thesis by (simp add: right_write_def e channel_inv_def ch_pending_def)
  next
    case (Some off)
    note facts = bip.acq_r_Some [OF inv acq [unfolded Some]]
    have same: "channel_inv (ch\<lparr>ch_buffer := q\<rparr>)" "ch_pending (ch\<lparr>ch_buffer := q\<rparr>) = ch_pending ch"
      using facts ready by (simp_all add: channel_inv_def ch_pending_def)
    obtain result w1 where r: "wr (ch_right ch) (bip_view q off len) w = (result, w1)" by (rule prod.exhaust)
    show ?thesis
    proof (cases "len = 0")
      case True
      with Some acq same show ?thesis by (simp add: right_write_def e)
    next
      case False
      show ?thesis
      proof (cases result)
        case (Inl err)
        with False Some acq r same show ?thesis by (simp add: right_write_def e)
      next
        case (Inr res)
        obtain wfd n where res: "res = (wfd, n)" by (cases res)
        have "n \<le> length (bip_view q off len)" using wr_le r Inr res by blast
        then have n: "n \<le> len" by simp
        obtain q1 where q1: "read_release BUFF_SZ n q = Some q1" "bip_inv BUFF_SZ q1"
          "bip_contents q1 = drop n (bip_contents ?q)" "bip_ready BUFF_SZ CHUNK_SZ q1"
          using bip.drop [OF inv acq [unfolded Some] n] ready by blast
        have "take n (bip_view q off len) = take n (bip_contents ?q)" using facts n by (simp add: min_def)
        with False Some Inr acq r res q1 show ?thesis
          by (simp add: right_write_def e channel_inv_def ch_pending_def)
      qed
    qed
  qed
qed

lemma handle_left_ok:
  assumes "channel_inv ch"
  shows "\<exists>x ch1 e1 got sent. handle_left_io_event rd wr call fd m ch e = Some (x, ch1, e1, got, sent) \<and>
    channel_inv ch1 \<and> ch_pending ch @ got = sent @ ch_pending ch1"
proof (cases "flags_test m flags_in")
  case False
  with assms show ?thesis by (simp add: handle_left_io_event_def)
next
  case True
  obtain x ch1 e1 got where l: "left_read rd call fd ch e = Some (x, ch1, e1, got)" "channel_inv ch1"
    "ch_pending ch1 = ch_pending ch @ got" using left_read_ok [OF assms] by blast
  obtain ch2 e2 sent where w: "right_write wr fd ch1 e1 = Some (ch2, e2, sent)" "channel_inv ch2"
    "ch_pending ch1 = sent @ ch_pending ch2" using right_write_ok [OF l(2)] by blast
  show ?thesis using True l w by (cases x) (simp_all add: handle_left_io_event_def)
qed

lemma handle_right_ok:
  assumes "channel_inv ch"
  shows "\<exists>ch1 e1 sent. handle_right_io_event wr fd m ch e = Some (None, ch1, e1, [], sent) \<and>
    channel_inv ch1 \<and> ch_pending ch = sent @ ch_pending ch1"
  using right_write_ok [OF assms, of fd e] assms by (auto simp: handle_right_io_event_def)

lemma channel_run_fifo:
  "channel_inv ch \<Longrightarrow> \<exists>ch' e' got sent. channel_run rd wr call evs ch e = Some (ch', e', got, sent) \<and>
    channel_inv ch' \<and> ch_pending ch @ got = sent @ ch_pending ch'"
proof (induction evs arbitrary: ch e)
  case (Cons ev evs)
  obtain s fd m outside where ev: "ev = (s, fd, m, outside)" by (metis surj_pair)
  obtain x ch1 e1 got sent where 1: "(if s = On_Left then handle_left_io_event rd wr call fd m ch (outside e)
      else handle_right_io_event wr fd m ch (outside e)) = Some (x, ch1, e1, got, sent)"
    "channel_inv ch1" "ch_pending ch @ got = sent @ ch_pending ch1"
    using handle_left_ok [OF Cons.prems, of call fd m "outside e"]
      handle_right_ok [OF Cons.prems, of fd m "outside e"] by (cases "s = On_Left") fastforce+
  obtain ch2 e2 got2 sent2 where 2: "channel_run rd wr call evs ch1 e1 = Some (ch2, e2, got2, sent2)"
    "channel_inv ch2" "ch_pending ch1 @ got2 = sent2 @ ch_pending ch2"
    using Cons.IH [OF 1(2)] by blast
  have "ch_pending ch @ got @ got2 = (sent @ sent2) @ ch_pending ch2"
    using 1(3) 2(3) by (metis append.assoc)
  with 1(1) 2 show ?case by (simp add: ev)
qed simp

end

section \<open>Properties\<close>

text \<open>
  C6. The proxy neither loses, duplicates, reorders nor invents bytes: in every history of a channel
  between two sockets, whatever the kernel, the handlers and everything outside the channel do, the
  bytes received are the bytes sent followed by those the buffer still holds; no assertion of the
  buffer fails.
\<close>

theorem channel_forwards_fifo:
  "\<exists>ch' e' got sent. channel_run (async_read_some recv) (async_write_some send) call evs
      (channel_new mem left right) e = Some (ch', e', got, sent) \<and>
    got = sent @ ch_pending ch'"
  using sock.channel_run_fifo [of "channel_new mem left right" recv send call evs e] by auto

text \<open>
  A history preserves the invariant of the channel from any state, with its pending bytes.
\<close>

theorem channel_invariant:
  assumes "channel_inv ch"
  shows "\<exists>ch' e' got sent. channel_run (async_read_some recv) (async_write_some send) call evs ch e =
      Some (ch', e', got, sent) \<and> channel_inv ch' \<and> ch_pending ch @ got = sent @ ch_pending ch'"
  using sock.channel_run_fifo [OF assms, of recv send call evs e] .

text \<open>Two sockets, a kernel that hands out three bytes and takes one, and no handlers.\<close>

definition left_example :: socket where "left_example = \<lparr>sock_fd = 7\<rparr>"
definition right_example :: socket where "right_example = \<lparr>sock_fd = 8\<rparr>"

definition recv_example :: "'k recv" where
  "recv_example fd n w = (Some [1, 2, 3], w)"

definition send_example :: "'k send" where
  "send_example fd bs w = (Some 1, w)"

definition env_example :: "(unit, unit, unit) env" where
  "env_example = (\<lparr>errno = 0, kernel = ()\<rparr>, bus_new, ())"

definition chan_example :: "(socket, unit) channel" where
  "chan_example = channel_new (\<lambda>_. 0) left_example right_example"

definition no_handler :: "('h, 'e) call_handler" where
  "no_handler arg h e = (None, h, e)"

theorem channel_invariant_witness:
  "\<exists>ch' e' got sent. channel_run (async_read_some recv_example) (async_write_some send_example) no_handler
      [(On_Left, 7, flags_in, id), (On_Right, 8, flags_out, id)] chan_example env_example = Some (ch', e', got, sent) \<and>
    channel_inv ch' \<and> ch_pending chan_example @ got = sent @ ch_pending ch'"
  by (rule channel_invariant) (simp add: chan_example_def)

text \<open>
  C38. When a write from the left callback is partial, the event that asks for another attempt is
  raised on the left descriptor, whose own callback of this channel ignores it; the right
  descriptor, whose callback would write the rest, gets no event.
\<close>

theorem partial_write_event_on_left:
  assumes "flags_test m flags_in"
    and "left_read rd call fd ch e = Some (None, ch1, (w, b, x), got)"
    and "read_acquire (ch_buffer ch1) = ((Some off, len), q)"
    and "wr (ch_right ch1) (bip_view q off len) w = (Inr (wfd, n), w1)" and "n < len"
    and "read_release BUFF_SZ n q = Some q1"
  shows "\<exists>ch2 sent. handle_left_io_event rd wr call fd m ch e =
      Some (None, ch2, (w1, enqueue_event fd flags_out b, x), got, sent) \<and> length sent = n \<and>
    handle_left_io_event rd wr call fd flags_out ch2 e' = Some (None, ch2, e', [], [])"
  using assms
  by (simp add: handle_left_io_event_def right_write_def flags_test_def flags_out_def flags_in_def)

theorem partial_write_event_on_left_witness:
  "\<exists>ch2 sent. handle_left_io_event (async_read_some recv_example) (async_write_some send_example) no_handler
      7 flags_in chan_example env_example =
      Some (None, ch2, (\<lparr>errno = 0, kernel = ()\<rparr>, enqueue_event 7 flags_out bus_new, ()), [1, 2, 3], sent) \<and>
    length sent = 1 \<and>
    handle_left_io_event (async_read_some recv_example) (async_write_some send_example) no_handler
      7 flags_out ch2 env_example = Some (None, ch2, env_example, [], [])"
proof -
  let ?q = "bip_fill 0 [1, 2, 3] (bip_new (\<lambda>_. 0)) \<lparr>bip_i := 3, bip_w := 3\<rparr>"
  let ?ch = "chan_example\<lparr>ch_buffer := ?q\<rparr>"
  show ?thesis
  proof (rule partial_write_event_on_left [where ?ch1.0 = ?ch and off = 0 and len = 3 and q = ?q and wfd = 8
        and w = "\<lparr>errno = 0, kernel = ()\<rparr>" and ?q1.0 = "?q\<lparr>bip_r := 1\<rparr>"])
    show "left_read (async_read_some recv_example) no_handler 7 chan_example env_example =
        Some (None, ?ch, (\<lparr>errno = 0, kernel = ()\<rparr>, bus_new, ()), [1, 2, 3])"
      by (simp add: left_read_def env_example_def chan_example_def channel_new_def left_example_def
          async_read_some_def recv_example_def bip_new_def bip_ops szt_sub_def szt_add_def SIZE_T_def
          channel_sizes bip_fill_def)
    show "async_write_some send_example (ch_right ?ch) (bip_view ?q 0 3) \<lparr>errno = 0, kernel = ()\<rparr> =
        (Inr (8, 1), \<lparr>errno = 0, kernel = ()\<rparr>)"
      by (simp add: async_write_some_def send_example_def chan_example_def channel_new_def right_example_def)
  qed (simp_all add: flags_test_def flags_in_def bip_new_def bip_ops szt_sub_def szt_add_def SIZE_T_def channel_sizes)
qed

text \<open>
  A handler that throws stops the forwarding: what was just received stays in the buffer, and
  the write block of the callback is not reached, whatever the right object would do.
\<close>

theorem handler_exception_delays:
  assumes "flags_test m flags_in" and "channel_inv ch" and "ch_handlers ch = [h]"
    and "\<And>arg e. fst (call arg h e) = Some ex"
    and "fst (write_acquire BUFF_SZ CHUNK_SZ (ch_buffer ch)) \<noteq> None"
  shows "\<exists>ch1 e1 got. handle_left_io_event (async_read_some recv) wr call fd m ch e = Some (Some ex, ch1, e1, got, []) \<and>
    ch_pending ch1 = ch_pending ch @ got"
proof -
  obtain w b x where e: "e = (w, b, x)" by (cases e)
  obtain y ch1 e1 got where l: "left_read (async_read_some recv) call fd ch e = Some (y, ch1, e1, got)"
    "ch_pending ch1 = ch_pending ch @ got"
    using sock.left_read_ok [OF assms(2)] by blast
  have run: "\<exists>hs e''. run_handlers call arg [h] e' = (Some ex, hs, e'')" for arg e'
    using assms(4) [of arg e'] by (cases "call arg h e'") simp
  obtain off q where acq: "write_acquire BUFF_SZ CHUNK_SZ (ch_buffer ch) = (Some off, q)"
    using assms(5) by (cases "write_acquire BUFF_SZ CHUNK_SZ (ch_buffer ch)") auto
  obtain result w1 where rd: "async_read_some recv (ch_left ch) CHUNK_SZ w = (result, w1)" by (rule prod.exhaust)
  have "y = Some ex"
  proof (cases result)
    case (Inl err)
    obtain hs e'' where "run_handlers call (Inl err) [h] (w1, enqueue_event fd flags_error b, x) = (Some ex, hs, e'')"
      using run by blast
    with l(1) Inl acq rd assms(3) show ?thesis by (simp add: left_read_def e)
  next
    case (Inr res)
    obtain rfd bs where res: "res = (rfd, bs)" by (cases res)
    with l(1) Inr acq rd obtain q1 where q1: "write_release BUFF_SZ (length bs) (bip_fill off bs q) = Some q1"
      by (cases "write_release BUFF_SZ (length bs) (bip_fill off bs q)") (simp_all add: left_read_def e)
    obtain hs e'' where
      "run_handlers call (Inr (rfd, ptr_next (bip_data q1) off, length bs)) [h] (w1, b, x) = (Some ex, hs, e'')"
      using run by blast
    with l(1) Inr res acq rd q1 assms(3) show ?thesis by (simp add: left_read_def e)
  qed
  with l assms(1) show ?thesis by (simp add: handle_left_io_event_def)
qed

theorem handler_exception_delays_witness:
  "\<exists>ch1 e1 got. handle_left_io_event (async_read_some recv_example) (async_write_some send_example)
      (\<lambda>arg h e. (Some Unknown_Exception, h, e)) 7 flags_in (add_handler () chan_example) env_example =
      Some (Some Unknown_Exception, ch1, e1, got, []) \<and>
    ch_pending ch1 = ch_pending (add_handler () chan_example) @ got"
proof (rule handler_exception_delays)
  show "channel_inv (add_handler () chan_example)"
    using channel_new_inv(1) [of "\<lambda>_. 0" left_example right_example]
    by (simp add: chan_example_def add_handler_def channel_inv_def)
  show "fst (write_acquire BUFF_SZ CHUNK_SZ (ch_buffer (add_handler () chan_example))) \<noteq> None"
    by (simp add: add_handler_def chan_example_def channel_new_def bip_new_def bip_ops szt_sub_def SIZE_T_def channel_sizes)
qed (simp_all add: flags_test_def flags_in_def add_handler_def chan_example_def channel_new_def)


definition full_example :: "byte bip" where
  "full_example = \<lparr>bip_data = (\<lambda>_. 0), write_wrapped = False, read_wrapped = False,
     bip_r = 10, bip_w = 65550, bip_i = 65550\<rparr>"


text \<open>A write in which the right object takes everything it is given.\<close>

lemma right_write_all:
  assumes "channel_inv ch" and "\<And>bs w. \<exists>fd w'. wr (ch_right ch) bs w = (Inr (fd, length bs), w')"
  shows "\<exists>ch1 e1 sent. right_write wr fd ch e = Some (ch1, e1, sent) \<and> channel_inv ch1 \<and> ch_right ch1 = ch_right ch \<and>
    ch_pending ch = sent @ ch_pending ch1 \<and> bip_linear (ch_buffer ch1) \<and>
    (bip_linear (ch_buffer ch) \<longrightarrow> ch_pending ch1 = [])"
proof -
  obtain w b x where e: "e = (w, b, x)" by (cases e)
  let ?q = "ch_buffer ch"
  from assms(1) have inv: "bip_inv BUFF_SZ ?q" and ready: "bip_ready BUFF_SZ CHUNK_SZ ?q"
    by (simp_all add: channel_inv_def)
  obtain p len q where acq: "read_acquire ?q = ((p, len), q)" by (metis surj_pair)
  show ?thesis
  proof (cases p)
    case None
    with read_acquire_None [OF inv] acq have "q = ?q" "bip_contents ?q = []" by auto
    moreover have "bip_linear ?q"
      using None acq unfolding read_acquire_eq [OF inv] by (auto simp: bip_linear_def split: if_splits)
    ultimately show ?thesis
      using None acq assms(1) by (simp add: right_write_def e channel_inv_def ch_pending_def)
  next
    case (Some off)
    note facts = read_acquire_Some [OF inv acq [unfolded Some]]
    have acq': "bip_acquired off len q" and inv': "bip_inv BUFF_SZ q" using facts by simp_all
    note view = bip_acquired_view [OF inv' acq']
    show ?thesis
    proof (cases "len = 0")
      case True
      moreover have "bip_linear q"
        using acq' True bip_invD [OF inv'] by (auto simp: bip_acquired_def bip_linear_def split: if_splits)
      ultimately show ?thesis
        using Some acq facts view(3) ready by (simp add: right_write_def e channel_inv_def ch_pending_def bip_ready_def)
    next
      case False
      obtain wfd w1 where r: "wr (ch_right ch) (bip_view q off len) w = (Inr (wfd, len), w1)"
        using assms(2) [of "bip_view q off len" w] by auto
      obtain q1 where q1: "read_release BUFF_SZ len q = Some q1" "bip_inv BUFF_SZ q1"
        "bip_contents q1 = drop len (bip_contents ?q)" "write_wrapped q1 = write_wrapped q" "bip_w q1 = bip_w q"
        using read_release_acquired [OF inv' acq', of len] facts by auto
      have "bip_linear q1" by (rule read_release_linear [OF inv' acq' q1(1)])
      moreover have "len = length (bip_contents ?q)" if "bip_linear ?q"
        using read_acquire_linear [OF inv that acq] .
      moreover have "bip_ready BUFF_SZ CHUNK_SZ q1"
        using ready facts q1(4,5) by (simp add: bip_ready_def)
      moreover have "bip_contents ?q = bip_view q off len @ drop len (bip_contents ?q)" using view(1) facts by simp
      ultimately show ?thesis
        using False Some acq r q1(1-3) by (simp add: right_write_def e channel_inv_def ch_pending_def)
    qed
  qed
qed

text \<open>
  C22. No byte is stuck: two events for writing in which the kernel takes what it is given send everything
  that was in the buffer, also when it wraps around; one event may leave the part before the wrap.
\<close>

theorem channel_drains:
  fixes ch :: "(socket, 'h) channel"
  assumes "channel_inv ch" and "sock_fd (ch_right ch) \<noteq> -1"
    and "\<And>fd bs w. fst (send fd bs w) = Some (length bs)" and "flags_test m flags_out" and "flags_test m' flags_out"
  shows "\<exists>ch' e'. channel_run (async_read_some recv) (async_write_some send) call
      [(On_Right, fd, m, outside), (On_Right, fd', m', outside')] ch e = Some (ch', e', [], ch_pending ch) \<and>
    ch_pending ch' = []"
proof -
  let ?wr = "async_write_some send"
  have all: "\<exists>fd w'. ?wr s bs w = (Inr (fd, length bs), w')" if "sock_fd s \<noteq> -1" for s bs w
    using that assms(3) [of "sock_fd s" bs "w\<lparr>errno := 0\<rparr>"]
    by (cases "send (sock_fd s) bs (w\<lparr>errno := 0\<rparr>)") (simp add: async_write_some_def)
  obtain ch1 e1 sent where 1: "right_write ?wr fd ch (outside e) = Some (ch1, e1, sent)" "channel_inv ch1"
    "ch_right ch1 = ch_right ch" "ch_pending ch = sent @ ch_pending ch1" "bip_linear (ch_buffer ch1)"
    using right_write_all [OF assms(1), of ?wr] all assms(2) by blast
  obtain ch2 e2 sent2 where 2: "right_write ?wr fd' ch1 (outside' e1) = Some (ch2, e2, sent2)"
    "ch_pending ch1 = sent2 @ ch_pending ch2" "ch_pending ch2 = []"
    using right_write_all [OF 1(2), of ?wr] all 1(3,5) assms(2) by metis
  show ?thesis
    using 1 2 assms(4,5) by (simp add: handle_right_io_event_def)
qed

text \<open>A buffer that wraps around, with the bytes 1, 2 behind the wrap and 3 before it.\<close>

definition wrapped_buffer :: "byte bip" where
  "wrapped_buffer =
     \<lparr>bip_data = (\<lambda>_. 0)(100 := 1, 101 := 2, 0 := 3), write_wrapped = False, read_wrapped = False,
      bip_r = 100, bip_w = 1, bip_i = 102\<rparr>"

theorem channel_drains_witness:
  "\<exists>ch' e'. channel_run (async_read_some recv_example) (async_write_some (\<lambda>fd bs w. (Some (length bs), w))) no_handler
      [(On_Right, 8, flags_out, id), (On_Right, 8, flags_out, id)] (chan_example\<lparr>ch_buffer := wrapped_buffer\<rparr>) env_example =
      Some (ch', e', [], [1, 2, 3]) \<and> ch_pending ch' = []"
proof -
  let ?ch = "chan_example\<lparr>ch_buffer := wrapped_buffer\<rparr>"
  have "ch_pending ?ch = [1, 2, 3]"
    by (simp add: ch_pending_def bip_contents_def wrapped_buffer_def mem_range_def upt_rec)
  moreover have "channel_inv ?ch"
    by (simp add: channel_inv_def bip_inv_def bip_ready_def wrapped_buffer_def channel_sizes SIZE_T_def)
  moreover have "sock_fd (ch_right ?ch) \<noteq> -1" by (simp add: chan_example_def channel_new_def right_example_def)
  ultimately show ?thesis
    using channel_drains [of ?ch "\<lambda>fd bs w. (Some (length bs), w)" flags_out flags_out recv_example no_handler 8 id 8 id env_example]
    by (simp add: flags_test_def flags_out_def)
qed

end
