(* ===== verification/Acceptor.thy ===== *)
theory Acceptor
  imports Addr Epoll Endian
begin

text \<open>
  \<^verbatim>\<open>src/io/acceptor_base.cpp\<close> and \<^verbatim>\<open>src/io/acceptor.cpp\<close>: the listening socket, the
  callback that accepts one connection per event and asks for another attempt, and the address it
  reports.  The system calls are arguments; the byte order of the machine is one as well, since the
  code reads the port of a \<^verbatim>\<open>sockaddr\<close> as it lies in memory.
\<close>

section \<open>State\<close>

record 'c acceptor =
  acc_fd :: fd
  acc_callbacks :: "'c list"

text \<open>A \<^verbatim>\<open>sockaddr_in\<close>: the family, and the address and port as they lie in memory.\<close>

record sockaddr =
  sin_family :: int
  sin_addr :: u32
  sin_port :: "byte list"

definition AF_INET :: int where "AF_INET = 2"
definition IPPROTO_TCP :: int where "IPPROTO_TCP = 6"
definition INET_ADDRSTRLEN :: nat where "INET_ADDRSTRLEN = 16"

text \<open>
  \<^verbatim>\<open>inet_addr\<close> and \<^verbatim>\<open>inet_ntop\<close>; the latter gives \<open>None\<close> for a family it does not
  know and otherwise the text, which fits the buffer with its NUL.
\<close>

type_synonym inet_addr = "string \<Rightarrow> u32"
type_synonym inet_ntop = "int \<Rightarrow> u32 \<Rightarrow> string option"

section \<open>Addresses\<close>

definition get_sockaddr_in :: "inet_addr \<Rightarrow> v4 \<Rightarrow> sockaddr" where
  "get_sockaddr_in inet_addr address =
     \<lparr>sin_family = AF_INET, sin_addr = inet_addr (v4_host address),
      sin_port = encode_uint16 BE (v4_port address)\<rparr>"

text \<open>\<^verbatim>\<open>sin_port\<close> read as an integer of the machine.\<close>

definition get_in_port :: "endianness \<Rightarrow> sockaddr \<Rightarrow> u16" where
  "get_in_port native sa = decode_uint16 (list_ptr (\<lambda>_. 0) (sin_port sa)) native"

definition make_v4 :: "endianness \<Rightarrow> inet_ntop \<Rightarrow> sockaddr \<Rightarrow> exn + v4" where
  "make_v4 native inet_ntop sa =
     (let txt = (case inet_ntop (sin_family sa) (sin_addr sa) of None \<Rightarrow> [] | Some t \<Rightarrow> take (INET_ADDRSTRLEN - 1) t);
          host = txt @ replicate (INET_ADDRSTRLEN - length txt) (CHR 0x00)
      in v4_new host (to_string (unat (get_in_port native sa))))"

section \<open>Construction and closing\<close>

text \<open>
  The four calls that make the new socket listen, each given the descriptor, with the text of the
  exception its failure throws.
\<close>

fun listen_steps :: "(string \<times> (fd \<Rightarrow> ('k, int) syscall)) list \<Rightarrow> fd \<Rightarrow> ('k, exn option) syscall" where
  "listen_steps [] fd w = (None, w)"
| "listen_steps ((txt, f) # fs) fd w =
     (let (r, w1) = f fd w
      in if r < 0 then (Some (Io_Error (mk_error txt fd (errno w1))), w1) else listen_steps fs fd w1)"

definition listen_calls ::
  "(fd \<Rightarrow> ('k, int) syscall) \<Rightarrow> (fd \<Rightarrow> ('k, int) syscall) \<Rightarrow> (fd \<Rightarrow> sockaddr \<Rightarrow> ('k, int) syscall) \<Rightarrow>
   (fd \<Rightarrow> int \<Rightarrow> ('k, int) syscall) \<Rightarrow> sockaddr \<Rightarrow> int \<Rightarrow> (string \<times> (fd \<Rightarrow> ('k, int) syscall)) list" where
  "listen_calls reuseaddr reuseport bind listen sa backlog =
     [(''failed to reuse acceptor address'', reuseaddr),
      (''failed to reuse acceptor port'', reuseport),
      (''failed to bind address to acceptor'', \<lambda>fd. bind fd sa),
      (''failed to listen acceptor'', \<lambda>fd. listen fd backlog)]"

text \<open>\<open>_close\<close> of the base class.\<close>

definition acceptor_close ::
  "(fd \<Rightarrow> ('k, 'cb) action) \<Rightarrow> 'c acceptor \<Rightarrow> ('k, 'cb) state \<Rightarrow> exn option \<times> 'c acceptor \<times> ('k, 'cb) state" where
  "acceptor_close del acc st =
     (if acc_fd acc \<noteq> -1 then
        (case del (acc_fd acc) st of
           (Some ex, st1) \<Rightarrow> (Some ex, acc, st1)
         | (None, st1) \<Rightarrow> (None, acc\<lparr>acc_fd := -1\<rparr>, st1))
      else (None, acc, st))"

text \<open>The base class: its constructor registers the callback of the new acceptor.\<close>

definition acceptor_base_new ::
  "(fd \<Rightarrow> ('k, 'cb) action) \<Rightarrow> fd \<Rightarrow> ('k, 'cb) state \<Rightarrow> (exn + 'c acceptor) \<times> ('k, 'cb) state" where
  "acceptor_base_new add fd st =
     (case add fd st of
        (Some ex, st1) \<Rightarrow> (Inl ex, st1)
      | (None, st1) \<Rightarrow> (Inr \<lparr>acc_fd = fd, acc_callbacks = []\<rparr>, st1))"

definition add_callback :: "'c option \<Rightarrow> 'c acceptor \<Rightarrow> 'c acceptor" where
  "add_callback callback acc =
     (case callback of None \<Rightarrow> acc | Some c \<Rightarrow> acc\<lparr>acc_callbacks := acc_callbacks acc @ [c]\<rparr>)"

lemma add_callback_None [simp]: "add_callback None acc = acc"
  by (simp add: add_callback_def)

text \<open>The socket to listen on.\<close>

definition open_acceptor_socket :: "'k sys_socket \<Rightarrow> ('k, exn + fd) syscall" where
  "open_acceptor_socket sock w =
     (let (sfd, w1) = sock AF_INET (SOCK_STREAM OR SOCK_NONBLOCK) IPPROTO_TCP w
      in if sfd = -1 then (Inl (Io_Error (mk_error ''failed to open acceptor socket'' sfd (errno w1))), w1)
         else (Inr sfd, w1))"

text \<open>
  A scope guard holds what is to be done on the way out: its destructor does it unless the guard has
  been reset.
\<close>

type_synonym 's scope_guard = "('s \<Rightarrow> 's) option"

definition guard_reset :: "'s scope_guard \<Rightarrow> 's scope_guard" where
  "guard_reset g = None"

definition guard_destroy :: "'s scope_guard \<Rightarrow> 's \<Rightarrow> 's" where
  "guard_destroy g s = (case g of None \<Rightarrow> s | Some cb \<Rightarrow> cb s)"

text \<open>The constructor's guard: the descriptor is taken out of the bus and, unless that throws, closed.\<close>

definition acceptor_guard ::
  "(fd \<Rightarrow> ('k, 'cb) action) \<Rightarrow> 'k sys_close \<Rightarrow> ('c acceptor \<times> ('k, 'cb) state) scope_guard" where
  "acceptor_guard del cls = Some (\<lambda>(acc, st).
     (case acceptor_close del acc st of
        (Some ex, acc1, st1) \<Rightarrow> (acc1, st1)
      | (None, acc1, w1, b1) \<Rightarrow> (let (r, w2) = cls (acc_fd acc) w1 in (acc1, w2, b1))))"

text \<open>
  The constructor.  When one of the calls fails, the guard is destroyed and then the base class,
  whose destructor closes what is not closed yet.  The guard does not exist yet when the
  registration fails: then nothing is closed.
\<close>

definition acceptor_new ::
  "'k sys_socket \<Rightarrow> (fd \<Rightarrow> ('k, 'cb) action) \<Rightarrow> (fd \<Rightarrow> ('k, 'cb) action) \<Rightarrow> 'k sys_close \<Rightarrow>
   (string \<times> (fd \<Rightarrow> ('k, int) syscall)) list \<Rightarrow> 'c option \<Rightarrow> ('k, 'cb) state \<Rightarrow>
   (exn + 'c acceptor) \<times> ('k, 'cb) state" where
  "acceptor_new sock add del cls calls callback = (\<lambda>(w, b).
     (case open_acceptor_socket sock w of
        (Inl ex, w1) \<Rightarrow> (Inl ex, w1, b)
      | (Inr sfd, w1) \<Rightarrow>
          (case acceptor_base_new add sfd (w1, b) of
             (Inl ex, st2) \<Rightarrow> (Inl ex, st2)
           | (Inr acc, w2, b2) \<Rightarrow>
               (let guard = acceptor_guard del cls; (x, w3) = listen_steps calls (acc_fd acc) w2
                in case x of
                     Some ex \<Rightarrow>
                       (let (acc1, st4) = guard_destroy guard (acc, w3, b2); (y, acc2, st5) = acceptor_close del acc1 st4
                        in (Inl ex, st5))
                   | None \<Rightarrow>
                       (let (acc1, st4) = guard_destroy (guard_reset guard) (add_callback callback acc, w3, b2)
                        in (Inr acc1, st4))))))"

text \<open>What the guard and the base class do together: two attempts to take the descriptor out, the second after a failure only.\<close>

lemma acceptor_new_eq:
  "acceptor_new sock add del cls calls callback (w, b) =
     (let (sfd, w1) = sock AF_INET (SOCK_STREAM OR SOCK_NONBLOCK) IPPROTO_TCP w
      in if sfd = -1
         then (Inl (Io_Error (mk_error ''failed to open acceptor socket'' sfd (errno w1))), w1, b)
         else
           (case add sfd (w1, b) of
              (Some ex, st2) \<Rightarrow> (Inl ex, st2)
            | (None, w2, b2) \<Rightarrow>
                (let acc = \<lparr>acc_fd = sfd, acc_callbacks = []\<rparr>; (x, w3) = listen_steps calls sfd w2
                 in case x of
                      None \<Rightarrow> (Inr (add_callback callback acc), w3, b2)
                    | Some ex \<Rightarrow>
                        (case del sfd (w3, b2) of
                           (None, w4, b4) \<Rightarrow> (let (r, w5) = cls sfd w4 in (Inl ex, w5, b4))
                         | (Some ex', st4) \<Rightarrow> (Inl ex, snd (del sfd st4))))))"
  by (auto simp: acceptor_new_def open_acceptor_socket_def acceptor_base_new_def acceptor_guard_def guard_destroy_def
      guard_reset_def acceptor_close_def Let_def split: prod.splits option.splits sum.splits)

text \<open>
  The destructor: of the acceptor, which prints what \<open>_close\<close> throws, then of its base class, which
  tries again what has failed.  The end of the process is the only place where it runs.
\<close>

definition acceptor_destroy ::
  "(fd \<Rightarrow> ('k, 'cb) action) \<Rightarrow> (fd \<Rightarrow> ('k, int) syscall) \<Rightarrow> 'k sys_close \<Rightarrow> 'c acceptor \<Rightarrow>
   ('k, 'cb) state \<Rightarrow> ('k, 'cb) state" where
  "acceptor_destroy del shutdown cls acc st =
     (let (acc1, st1) =
        (case acceptor_close del acc st of
           (Some ex, acc1, st1) \<Rightarrow> (acc1, st1)
         | (None, acc1, w1, b1) \<Rightarrow>
             (let (r, w2) = shutdown (acc_fd acc) w1; (r', w3) = cls (acc_fd acc) w2 in (acc1, w3, b1)));
          (ex, acc2, st2) = acceptor_close del acc1 st1
      in st2)"

section \<open>Accepting\<close>

text \<open>\<^verbatim>\<open>accept\<close> also fills the address; on failure it stays what was in memory.\<close>

type_synonym 'k sys_accept = "fd \<Rightarrow> ('k, int \<times> sockaddr) syscall"

definition accept_new_client ::
  "endianness \<Rightarrow> inet_ntop \<Rightarrow> 'k sys_accept \<Rightarrow> 'c acceptor \<Rightarrow> fd \<Rightarrow> flags \<Rightarrow> ('k, 'cb) state \<Rightarrow>
   (exn + (fd \<times> v4)) \<times> ('k, 'cb) state" where
  "accept_new_client native ntop accept acc fd m = (\<lambda>(w, b).
     (if flags_test m flags_error
      then (Inl (Io_Error (mk_error ''failed to accept'' fd (errno w))), w, b)
      else
        (let ((conn, clients), w1) = accept (acc_fd acc) w;
             address = (case make_v4 native ntop clients of Inl ex \<Rightarrow> Inl ex | Inr a \<Rightarrow> Inr (conn, a))
         in if conn = -1 then
              (if would_block (errno w1) then (address, w1, enqueue_event fd flags_in b)
               else (Inl (Io_Error (mk_error ''failed to accept'' (acc_fd acc) (errno w1))), w1, b))
            else (address, w1, enqueue_event fd flags_in b))))"

text \<open>The loop over the acceptor's callbacks and the bus callback of the base class.\<close>

fun report_connection :: "('c \<Rightarrow> fd \<Rightarrow> v4 \<Rightarrow> ('k, 'cb) action) \<Rightarrow> fd \<Rightarrow> v4 \<Rightarrow> 'c list \<Rightarrow> ('k, 'cb) action" where
  "report_connection call conn address [] st = (None, st)"
| "report_connection call conn address (c # cs) st =
     (case call c conn address st of
        (Some ex, st1) \<Rightarrow> (Some ex, st1)
      | (None, st1) \<Rightarrow> report_connection call conn address cs st1)"

definition acceptor_event ::
  "endianness \<Rightarrow> inet_ntop \<Rightarrow> 'k sys_accept \<Rightarrow> ('c \<Rightarrow> fd \<Rightarrow> v4 \<Rightarrow> ('k, 'cb) action) \<Rightarrow> 'c acceptor \<Rightarrow>
   fd \<Rightarrow> flags \<Rightarrow> ('k, 'cb) action" where
  "acceptor_event native ntop accept call acc fd m st =
     (case accept_new_client native ntop accept acc fd m st of
        (Inl ex, st1) \<Rightarrow> (Some ex, st1)
      | (Inr (conn, address), st1) \<Rightarrow>
          if 0 < conn then report_connection call conn address (acc_callbacks acc) st1 else (None, st1))"

section \<open>Rounds of an acceptor\<close>

text \<open>The address reported for a peer: making it never throws.\<close>

definition peer_address :: "endianness \<Rightarrow> inet_ntop \<Rightarrow> sockaddr \<Rightarrow> v4" where
  "peer_address native ntop sa =
     (let txt = (case ntop (sin_family sa) (sin_addr sa) of None \<Rightarrow> [] | Some t \<Rightarrow> take (INET_ADDRSTRLEN - 1) t)
      in \<lparr>v4_host = txt @ replicate (INET_ADDRSTRLEN - length txt) (CHR 0x00), v4_port = get_in_port native sa\<rparr>)"

lemma make_v4_eq: "make_v4 native ntop sa = Inr (peer_address native ntop sa)"
  by (simp add: make_v4_def peer_address_def Let_def)

text \<open>
  What \<^verbatim>\<open>accept\<close> is documented to do with the connections waiting on the socket, and a
  callback that takes note of what it is told.
\<close>

definition accept_documented :: "'k sys_accept \<Rightarrow> ('k world \<Rightarrow> (fd \<times> sockaddr) list) \<Rightarrow> ('k world \<Rightarrow> 'n) \<Rightarrow> bool" where
  "accept_documented accept waiting noted \<longleftrightarrow>
     (\<forall>fd w. noted (snd (accept fd w)) = noted w \<and>
        (case waiting w of
           [] \<Rightarrow> fst (fst (accept fd w)) = -1 \<and> would_block (errno (snd (accept fd w))) \<and> waiting (snd (accept fd w)) = []
         | c # cs \<Rightarrow> fst (accept fd w) = c \<and> waiting (snd (accept fd w)) = cs))"

definition notes_call ::
  "('c \<Rightarrow> fd \<Rightarrow> v4 \<Rightarrow> ('k, 'cb) action) \<Rightarrow> ('k world \<Rightarrow> (fd \<times> sockaddr) list) \<Rightarrow> ('k world \<Rightarrow> (fd \<times> v4) list) \<Rightarrow> bool" where
  "notes_call call waiting noted \<longleftrightarrow>
     (\<forall>c conn a w b. \<exists>w'. call c conn a (w, b) = (None, w', b) \<and> waiting w' = waiting w \<and> noted w' = noted w @ [(conn, a)])"

definition quiet_round :: "('k, 'cb) destroy \<Rightarrow> ('k, 'cb) invoke \<Rightarrow> ('k, 'cb) reporter option \<Rightarrow> ('k, 'cb) state \<Rightarrow> ('k, 'cb) state" where
  "quiet_round destroy invoke report st = snd (wait_events (\<lambda>cb st. (None, st)) destroy invoke report st)"

text \<open>The bus as it is while nothing but the acceptor is active.\<close>

definition listening :: "fd \<Rightarrow> 'cb \<Rightarrow> 'cb bus \<Rightarrow> bool" where
  "listening lfd cb b \<longleftrightarrow> callback_map b lfd = Some [cb] \<and> callbacks_to_remove b = {} \<and> events b = [(lfd, flags_in)]"

lemma accept_round:
  assumes "accept_documented accept waiting noted" and "notes_call call waiting noted"
    and "listening lfd cb b" and "acc_callbacks acc = [c]"
    and pos: "\<forall>(conn, sa) \<in> set (waiting w). 0 < conn"
    and inv: "invoke cb = acceptor_event native ntop accept call acc"
  shows "\<exists>w'. quiet_round destroy invoke report (w, b) = (w', b) \<and> waiting w' = drop 1 (waiting w) \<and>
    noted w' = noted w @ map (\<lambda>(conn, sa). (conn, peer_address native ntop sa)) (take 1 (waiting w))"
proof -
  let ?b0 = "b\<lparr>events := []\<rparr>"
  have b: "callback_map b lfd = Some [cb]" "callbacks_to_remove b = {}" "events b = [(lfd, flags_in)]"
    using assms(3) by (simp_all add: listening_def)
  have queue: "enqueue_event lfd flags_in ?b0 = b" using b(3) by (cases b) (simp add: enqueue_event_def)
  have no_error: "\<not> flags_test flags_in flags_error"
    by (simp add: flags_test_def flags_in_def flags_error_def)
  obtain conn sa w1 where acc: "accept (acc_fd acc) w = ((conn, sa), w1)" by (metis surj_pair)
  note doc = assms(1) [unfolded accept_documented_def, rule_format, of "acc_fd acc" w, unfolded acc fst_conv snd_conv]
  have "\<exists>w'. acceptor_event native ntop accept call acc lfd flags_in (w, ?b0) = (None, w', b) \<and>
      waiting w' = drop 1 (waiting w) \<and>
      noted w' = noted w @ map (\<lambda>(conn, sa). (conn, peer_address native ntop sa)) (take 1 (waiting w))"
  proof (cases "waiting w")
    case Nil
    with doc have "conn = -1" "would_block (errno w1)" "waiting w1 = []" "noted w1 = noted w" by auto
    with Nil no_error acc queue show ?thesis
      by (simp add: acceptor_event_def accept_new_client_def make_v4_eq)
  next
    case (Cons p ps)
    with doc have 1: "p = (conn, sa)" "waiting w1 = ps" "noted w1 = noted w" by auto
    with pos Cons have "0 < conn" by simp
    obtain w2 where "call c conn (peer_address native ntop sa) (w1, b) = (None, w2, b)"
      "waiting w2 = ps" "noted w2 = noted w @ [(conn, peer_address native ntop sa)]"
      using assms(2) 1 unfolding notes_call_def by metis
    with 1 Cons no_error acc queue \<open>0 < conn\<close> assms(4) show ?thesis
      by (simp add: acceptor_event_def accept_new_client_def make_v4_eq)
  qed
  then show ?thesis
    using b by (auto simp: quiet_round_def wait_events_def dispatch_def inv remove_pending_id)
qed

section \<open>Properties\<close>


text \<open>A kernel whose state is the waiting connections and what has been noted.\<close>

definition accept_example :: "((fd \<times> sockaddr) list \<times> (fd \<times> v4) list) sys_accept" where
  "accept_example fd w =
     (case fst (kernel w) of
        [] \<Rightarrow> ((-1, \<lparr>sin_family = 0, sin_addr = 0, sin_port = [0, 0]\<rparr>), w\<lparr>errno := EAGAIN\<rparr>)
      | c # cs \<Rightarrow> (c, w\<lparr>kernel := (cs, snd (kernel w))\<rparr>))"

definition note_example :: "unit \<Rightarrow> fd \<Rightarrow> v4 \<Rightarrow> ((fd \<times> sockaddr) list \<times> (fd \<times> v4) list, unit) action" where
  "note_example c conn a = (\<lambda>(w, b). (None, w\<lparr>kernel := (fst (kernel w), snd (kernel w) @ [(conn, a)])\<rparr>, b))"

definition peer_example :: sockaddr where
  "peer_example = \<lparr>sin_family = AF_INET, sin_addr = 0x7F000001, sin_port = [0, 80]\<rparr>"


text \<open>
  The reported port is the one of the peer on a big-endian machine only: on a little-endian one
  its bytes are swapped (80 is reported as 20480), and the reported host always has 16 characters,
  the address text followed by NULs.
\<close>

theorem reported_address:
  "get_in_port BE (get_sockaddr_in ia a) = v4_port a \<and>
   get_in_port LE (get_sockaddr_in ia a) = decode_uint16 (list_ptr (\<lambda>_. 0) (rev (encode_uint16 BE (v4_port a)))) BE \<and>
   v4_port (peer_address LE ntop peer_example) = 20480 \<and>
   length (v4_host (peer_address native ntop sa)) = 16"
proof -
  have "get_in_port BE (get_sockaddr_in ia a) = v4_port a"
    using decode_encode_uint16 [of "\<lambda>_. 0" BE "v4_port a" "[]"]
    by (simp add: get_in_port_def get_sockaddr_in_def)
  then show ?thesis
    by (simp add: get_in_port_def get_sockaddr_in_def decode_defs list_ptr_def encode_uint16_def
        peer_address_def peer_example_def INET_ADDRSTRLEN_def Let_def split: option.splits)
qed

text \<open>
  A failing constructor closes its socket if it has been registered: the descriptor is taken out
  of the bus and closed, and the exception of the failing call is thrown.  If the registration
  itself fails the descriptor is never closed.
\<close>

theorem acceptor_new_failure:
  assumes "sock AF_INET (SOCK_STREAM OR SOCK_NONBLOCK) IPPROTO_TCP w = (sfd, w1)" and "sfd \<noteq> -1"
  shows "(add sfd (w1, b) = (Some ex, st2) \<longrightarrow> acceptor_new sock add del cls calls cb (w, b) = (Inl ex, st2)) \<and>
    (add sfd (w1, b) = (None, w2, b2) \<longrightarrow> listen_steps calls sfd w2 = (Some ex, w3) \<longrightarrow>
     del sfd (w3, b2) = (None, w4, b4) \<longrightarrow>
       acceptor_new sock add del cls calls cb (w, b) = (Inl ex, snd (cls sfd w4), b4))"
  using assms by (simp add: acceptor_new_eq split: prod.splits)

theorem acceptor_new_failure_witness:
  "let w = \<lparr>errno = 0, kernel = {}\<rparr>; w1 = \<lparr>errno = 0, kernel = {4 :: fd}\<rparr>; b = bus_new :: unit bus;
       e = mk_error ''failed to bind address to acceptor'' 4 0;
       cls = (\<lambda>fd w. (0, w\<lparr>kernel := kernel w - {fd}\<rparr>));
       calls = [(''failed to bind address to acceptor'', \<lambda>_ w. (-1, w))]
   in acceptor_new sys_socket_example (\<lambda>fd st. (None, st)) (\<lambda>fd st. (None, st)) cls calls (None :: unit option) (w, b) =
      (Inl (Io_Error e), snd (cls 4 w1), b)"
proof -
  let ?w = "\<lparr>errno = 0, kernel = {}\<rparr>" and ?w1 = "\<lparr>errno = 0, kernel = {4 :: fd}\<rparr>"
  have 1: "sys_socket_example AF_INET (SOCK_STREAM OR SOCK_NONBLOCK) IPPROTO_TCP ?w = (4, ?w1)"
    by (simp add: sys_socket_example_def)
  show ?thesis
    using acceptor_new_failure [where sock = sys_socket_example and sfd = 4 and w = ?w and ?w1.0 = ?w1 and
        ?w2.0 = ?w1 and ?w3.0 = ?w1 and ?w4.0 = ?w1 and ?b2.0 = "bus_new :: unit bus" and ?b4.0 = bus_new and
        b = bus_new and add = "\<lambda>fd st. (None, st)" and del = "\<lambda>fd st. (None, st)" and
        cls = "\<lambda>fd w. (0, w\<lparr>kernel := kernel w - {fd}\<rparr>)" and cb = "None :: unit option" and
        ex = "Io_Error (mk_error ''failed to bind address to acceptor'' 4 0)" and
        calls = "[(''failed to bind address to acceptor'', \<lambda>_ w. (-1, w))]", OF 1]
    by simp
qed

end
