(* ===== verification/Session.thy ===== *)
theory Session
  imports Channel Addr
begin

text \<open>
  \<^verbatim>\<open>src/io/session_base.cpp\<close>, \<^verbatim>\<open>src/io/session_manager.cpp\<close> and the sessions
  and servers of the three programs: what a new session registers with the bus, and how an error
  event ends it.
\<close>

section \<open>Callbacks\<close>

text \<open>
  The callbacks the programs register: one of the two of a channel (channels are numbered), that of
  a session, which knows the session's descriptors, and that of the acceptor.
\<close>

datatype callback =
    Channel_Callback side nat
  | Session_Callback "fd list"
  | Acceptor_Callback

text \<open>Registrations in sequence; the first one that throws ends it.\<close>

fun register_all :: "(fd \<Rightarrow> callback option \<Rightarrow> ('k, callback) action) \<Rightarrow> (fd \<times> callback) list \<Rightarrow> ('k, callback) action" where
  "register_all add [] st = (None, st)"
| "register_all add ((fd, cb) # rest) st =
     (case add fd (Some cb) st of
        (Some ex, st1) \<Rightarrow> (Some ex, st1)
      | (None, st1) \<Rightarrow> register_all add rest st1)"

section \<open>Sessions\<close>

record session =
  sess_fds :: "fd list"
  sess_lr :: nat
  sess_rl :: nat

text \<open>
  The session constructors: the two channels between two sockets, numbered \<open>lr\<close> and \<open>rl\<close>, register
  themselves.  An echo session has one socket on both sides.
\<close>

definition channel_registrations :: "fd \<Rightarrow> fd \<Rightarrow> nat \<Rightarrow> (fd \<times> callback) list" where
  "channel_registrations left right i =
     [(left, Channel_Callback On_Left i), (right, Channel_Callback On_Right i)]"

definition proxy_session_new ::
  "(fd \<Rightarrow> callback option \<Rightarrow> ('k, callback) action) \<Rightarrow> socket \<Rightarrow> socket \<Rightarrow> nat \<Rightarrow> nat \<Rightarrow> ('k, callback) state \<Rightarrow>
   (exn + session) \<times> ('k, callback) state" where
  "proxy_session_new add from to lr rl st =
     (case register_all add (channel_registrations (sock_fd from) (sock_fd to) lr @
                             channel_registrations (sock_fd to) (sock_fd from) rl) st of
        (Some ex, st1) \<Rightarrow> (Inl ex, st1)
      | (None, st1) \<Rightarrow> (Inr \<lparr>sess_fds = [sock_fd from, sock_fd to], sess_lr = lr, sess_rl = rl\<rparr>, st1))"

definition echo_session_new ::
  "(fd \<Rightarrow> callback option \<Rightarrow> ('k, callback) action) \<Rightarrow> socket \<Rightarrow> nat \<Rightarrow> nat \<Rightarrow> ('k, callback) state \<Rightarrow>
   (exn + session) \<times> ('k, callback) state" where
  "echo_session_new add s lr rl st =
     (case register_all add (channel_registrations (sock_fd s) (sock_fd s) lr @
                             channel_registrations (sock_fd s) (sock_fd s) rl) st of
        (Some ex, st1) \<Rightarrow> (Inl ex, st1)
      | (None, st1) \<Rightarrow> (Inr \<lparr>sess_fds = [sock_fd s], sess_lr = lr, sess_rl = rl\<rparr>, st1))"

definition session_start ::
  "(fd \<Rightarrow> callback option \<Rightarrow> ('k, callback) action) \<Rightarrow> session \<Rightarrow> ('k, callback) action" where
  "session_start add s = register_all add (map (\<lambda>fd. (fd, Session_Callback (sess_fds s))) (sess_fds s))"

text \<open>The callback of a session.\<close>

definition session_event :: "fd list \<Rightarrow> fd \<Rightarrow> flags \<Rightarrow> ('k, callback) action" where
  "session_event fds fd m = (\<lambda>(w, b).
     (if flags_test m flags_error then (None, w, fold del_fd_callbacks fds b) else (None, w, b)))"

section \<open>Servers\<close>

text \<open>
  \<open>_make_new_session\<close> of the proxies, and \<open>start\<close>, as the callback of the session manager calls
  them.  \<open>finish\<close> is the rest of the session's constructor: the PostgreSQL session adds its handler
  to the first channel.  When the target cannot be reached, or a registration fails, the exception
  leaves the function; \<open>unwind\<close> is what the destructors of its local objects do then.
\<close>

definition proxy_new_connection ::
  "('k, exn + fd) syscall \<Rightarrow> ('k, callback) destroy \<Rightarrow> (session \<Rightarrow> 'k world \<Rightarrow> 'k world) \<Rightarrow>
   (fd \<Rightarrow> callback option \<Rightarrow> ('k, callback) action) \<Rightarrow> nat \<Rightarrow> nat \<Rightarrow> fd \<Rightarrow> ('k, callback) state \<Rightarrow>
   (exn + session) \<times> ('k, callback) state" where
  "proxy_new_connection connect unwind finish add lr rl fd = (\<lambda>(w, b).
     (let from = \<lparr>sock_fd = fd\<rparr>; (r, w1) = connect w
      in case r of
           Inl ex \<Rightarrow> (Inl ex, unwind (w1, b))
         | Inr tfd \<Rightarrow>
             (case proxy_session_new add from \<lparr>sock_fd = tfd\<rparr> lr rl (w1, b) of
                (Inl ex, st) \<Rightarrow> (Inl ex, unwind st)
              | (Inr s, w2, b2) \<Rightarrow>
                  (case session_start add s (finish s w2, b2) of
                     (Some ex, st1) \<Rightarrow> (Inl ex, unwind st1)
                   | (None, st1) \<Rightarrow> (Inr s, st1)))))"

definition echo_new_connection ::
  "('k, callback) destroy \<Rightarrow> (fd \<Rightarrow> callback option \<Rightarrow> ('k, callback) action) \<Rightarrow> nat \<Rightarrow> nat \<Rightarrow> fd \<Rightarrow>
   ('k, callback) state \<Rightarrow> (exn + session) \<times> ('k, callback) state" where
  "echo_new_connection unwind add lr rl fd st =
     (case echo_session_new add \<lparr>sock_fd = fd\<rparr> lr rl st of
        (Inl ex, st1) \<Rightarrow> (Inl ex, unwind st1)
      | (Inr s, st1) \<Rightarrow>
          (case session_start add s st1 of
             (Some ex, st2) \<Rightarrow> (Inl ex, unwind st2)
           | (None, st2) \<Rightarrow> (Inr s, st2)))"

section \<open>Facts about registrations and removals\<close>

text \<open>The registrations of a channel are what its \<^verbatim>\<open>_start\<close> does.\<close>

lemma register_all_append:
  "register_all add (xs @ ys) st =
     (case register_all add xs st of (Some ex, st1) \<Rightarrow> (Some ex, st1) | (None, st1) \<Rightarrow> register_all add ys st1)"
  by (induction xs arbitrary: st) (auto split: prod.split option.split)

lemma channel_start_registrations:
  "channel_start (add_bus_callback add sock_fd) (Channel_Callback On_Left i) (Channel_Callback On_Right i) ch st =
   register_all add (channel_registrations (sock_fd (ch_left ch)) (sock_fd (ch_right ch)) i) st"
  by (simp add: channel_start_def add_bus_callback_def channel_registrations_def split: prod.split option.split)

text \<open>So a session starts its two channels one after the other.\<close>

lemma proxy_session_starts_channels:
  assumes "ch_left up = c" and "ch_right up = t" and "ch_left down = t" and "ch_right down = c"
  shows "proxy_session_new add c t i j st =
    (case channel_start (add_bus_callback add sock_fd) (Channel_Callback On_Left i) (Channel_Callback On_Right i) up st of
       (Some ex, st1) \<Rightarrow> (Inl ex, st1)
     | (None, st1) \<Rightarrow>
         (case channel_start (add_bus_callback add sock_fd) (Channel_Callback On_Left j) (Channel_Callback On_Right j) down st1 of
            (Some ex, st2) \<Rightarrow> (Inl ex, st2)
          | (None, st2) \<Rightarrow> (Inr \<lparr>sess_fds = [sock_fd c, sock_fd t], sess_lr = i, sess_rl = j\<rparr>, st2)))"
  using assms
  by (simp add: proxy_session_new_def register_all_append channel_start_registrations split: prod.split option.split)

lemma register_all_ok:
  assumes "\<And>fd w. fst (sys_add fd w) = None"
  shows "\<exists>w' b'. register_all (add_fd sys_add) regs (w, b) = (None, w', b') \<and>
    (\<forall>fd. callbacks_of b' fd = callbacks_of b fd @ map snd (filter (\<lambda>r. fst r = fd) regs)) \<and>
    callbacks_to_remove b' = callbacks_to_remove b \<and> events b' = events b"
proof (induction regs arbitrary: w b)
  case (Cons r regs)
  obtain fd cb where r: "r = (fd, cb)" by (cases r)
  obtain w1 where sys: "sys_add fd w = (None, w1)" using assms [of fd w] by (cases "sys_add fd w") simp
  define b1 where "b1 = b\<lparr>callback_map := (callback_map b)(fd \<mapsto> callbacks_of b fd @ [cb])\<rparr>"
  obtain w2 where add: "add_fd sys_add fd (Some cb) (w, b) = (None, w2, b1)"
    using sys by (cases "callback_map b fd") (simp_all add: add_fd_def b1_def callbacks_of_def)
  obtain w' b' where "register_all (add_fd sys_add) regs (w2, b1) = (None, w', b')"
    "\<forall>fd. callbacks_of b' fd = callbacks_of b1 fd @ map snd (filter (\<lambda>r. fst r = fd) regs)"
    "callbacks_to_remove b' = callbacks_to_remove b1" "events b' = events b1"
    using Cons.IH [of w2 b1] by blast
  with add show ?case
    by (intro exI [of _ w'] exI [of _ b']) (simp add: r b1_def callbacks_of_def)
qed simp

lemma fold_del_fd_callbacks [simp]:
  "callbacks_to_remove (fold del_fd_callbacks fds b) = set fds \<union> callbacks_to_remove b"
  "callback_map (fold del_fd_callbacks fds b) = callback_map b"
  by (induction fds arbitrary: b) (auto simp: del_fd_callbacks_def)

text \<open>Channel callbacks leave the callbacks of the bus alone; the session callback is as modelled.\<close>

definition session_invoke :: "('k, callback) invoke \<Rightarrow> bool" where
  "session_invoke invoke \<longleftrightarrow>
     (\<forall>fds. invoke (Session_Callback fds) = session_event fds) \<and>
     (\<forall>s i fd m st. fst (invoke (Channel_Callback s i) fd m st) = None \<and>
        callback_map (snd (snd (invoke (Channel_Callback s i) fd m st))) = callback_map (snd st) \<and>
        callbacks_to_remove (snd (snd (invoke (Channel_Callback s i) fd m st))) = callbacks_to_remove (snd st))"

lemma run_session_callbacks:
  assumes "session_invoke invoke" and "flags_test m flags_error" and "Session_Callback fds \<in> set cbs"
    and "\<forall>cb\<in>set cbs. cb \<in> range (\<lambda>(s, i). Channel_Callback s i) \<union> {Session_Callback fds}"
    and "fd \<in> set fds" and "fd \<notin> callbacks_to_remove (snd st)"
  shows "\<exists>st'. run_callbacks invoke report fd m cbs st = (None, st') \<and>
    callback_map (snd st') = callback_map (snd st) \<and>
    callbacks_to_remove (snd st') = set fds \<union> callbacks_to_remove (snd st)"
  using assms(3,4,6)
proof (induction cbs arbitrary: st)
  case (Cons cb cbs)
  obtain w b where st: "st = (w, b)" by (cases st)
  show ?case
  proof (cases "cb = Session_Callback fds")
    case True
    let ?b = "fold del_fd_callbacks fds b"
    have "invoke cb fd m st = (None, w, ?b)"
      using assms(1,2) True st by (simp add: session_invoke_def session_event_def)
    moreover have "run_callbacks invoke report fd m cbs (w, ?b) = (None, w, ?b)"
      using assms(5) by (intro run_callbacks_removed) simp
    ultimately show ?thesis using Cons.prems(3) st by (intro exI [of _ "(w, ?b)"]) simp
  next
    case False
    with Cons.prems(2) obtain s i where cb: "cb = Channel_Callback s i" by auto
    obtain x st1 where inv: "invoke cb fd m st = (x, st1)" by (cases "invoke cb fd m st")
    have 1: "x = None" "callback_map (snd st1) = callback_map (snd st)"
      "callbacks_to_remove (snd st1) = callbacks_to_remove (snd st)"
      using assms(1) inv cb unfolding session_invoke_def by (metis fst_conv snd_conv)+
    with Cons.IH [of st1] Cons.prems False obtain st' where
      "run_callbacks invoke report fd m cbs st1 = (None, st')"
      "callback_map (snd st') = callback_map (snd st)"
      "callbacks_to_remove (snd st') = set fds \<union> callbacks_to_remove (snd st)" by auto
    with inv 1 Cons.prems(3) show ?thesis by (intro exI [of _ st']) simp
  qed
qed simp

section \<open>Properties\<close>

text \<open>
  A new proxy session registers, on descriptors that have no callbacks and as long as the kernel
  accepts them, exactly three callbacks on each of its two descriptors: the reading side of one
  channel, the writing side of the other, and last the callback that ends the session.
\<close>

theorem session_registers:
  assumes "\<And>fd w. fst (sys_add fd w) = None" and "connect w = (Inr tfd, w1)" and "fd \<noteq> tfd"
    and "callback_map b fd = None" and "callback_map b tfd = None"
  shows "\<exists>s w' b'. proxy_new_connection connect unwind finish (add_fd sys_add) lr rl fd (w, b) = (Inr s, w', b') \<and>
    callbacks_of b' fd = [Channel_Callback On_Left lr, Channel_Callback On_Right rl, Session_Callback [fd, tfd]] \<and>
    callbacks_of b' tfd = [Channel_Callback On_Right lr, Channel_Callback On_Left rl, Session_Callback [fd, tfd]] \<and>
    (\<forall>other. other \<noteq> fd \<longrightarrow> other \<noteq> tfd \<longrightarrow> callbacks_of b' other = callbacks_of b other)"
proof -
  let ?regs = "channel_registrations fd tfd lr @ channel_registrations tfd fd rl"
  let ?s = "\<lparr>sess_fds = [fd, tfd], sess_lr = lr, sess_rl = rl\<rparr>"
  obtain w2 b2 where 1: "register_all (add_fd sys_add) ?regs (w1, b) = (None, w2, b2)"
    "\<forall>f. callbacks_of b2 f = callbacks_of b f @ map snd (filter (\<lambda>r. fst r = f) ?regs)"
    using register_all_ok [of sys_add, OF assms(1), where regs = ?regs and w = w1 and b = b] by blast
  obtain w3 b3 where 2: "session_start (add_fd sys_add) ?s (finish ?s w2, b2) = (None, w3, b3)"
    "\<forall>f. callbacks_of b3 f = callbacks_of b2 f @
       map snd (filter (\<lambda>r. fst r = f) (map (\<lambda>fd. (fd, Session_Callback (sess_fds ?s))) (sess_fds ?s)))"
    using register_all_ok [of sys_add, OF assms(1), where w = "finish ?s w2" and b = b2 and
        regs = "map (\<lambda>fd. (fd, Session_Callback (sess_fds ?s))) (sess_fds ?s)"]
    unfolding session_start_def by blast
  have "proxy_new_connection connect unwind finish (add_fd sys_add) lr rl fd (w, b) = (Inr ?s, w3, b3)"
    using assms(2) 1(1) 2(1) by (simp add: proxy_new_connection_def proxy_session_new_def)
  moreover have "callbacks_of b fd = []" "callbacks_of b tfd = []" using assms(4,5) by (simp_all add: callbacks_of_def)
  ultimately show ?thesis
    using 1(2) 2(2) assms(3)
    by (intro exI [of _ ?s] exI [of _ w3] exI [of _ b3]) (auto simp: channel_registrations_def)
qed

theorem session_registers_witness:
  "\<exists>s w' b'. proxy_new_connection (\<lambda>w. (Inr 9, w)) id (\<lambda>s w. w) (add_fd (\<lambda>fd w. (None, w))) 0 1 8
      (\<lparr>errno = 0, kernel = ()\<rparr>, bus_new) = (Inr s, w', b') \<and>
    callbacks_of b' 8 = [Channel_Callback On_Left 0, Channel_Callback On_Right 1, Session_Callback [8, 9]] \<and>
    callbacks_of b' 9 = [Channel_Callback On_Right 0, Channel_Callback On_Left 1, Session_Callback [8, 9]] \<and>
    (\<forall>other. other \<noteq> 8 \<longrightarrow> other \<noteq> 9 \<longrightarrow> callbacks_of b' other = callbacks_of bus_new other)"
  by (rule session_registers) (simp_all add: bus_new_def)

text \<open>
  An error event on either descriptor of a session removes the callbacks of both, so both
  directions end together and later events of either reach nobody; other descriptors are untouched.
\<close>

theorem error_event_ends_session:
  assumes "session_invoke invoke" and "flags_test m flags_error"
    and "callback_map b fd = Some cbs" and "Session_Callback fds \<in> set cbs" and "fd \<in> set fds"
    and "\<forall>cb\<in>set cbs. cb \<in> range (\<lambda>(s, i). Channel_Callback s i) \<union> {Session_Callback fds}"
    and "callbacks_to_remove b = {}"
    and "\<And>st. callback_map (snd (destroy st)) = callback_map (snd st)"
  shows "\<exists>w' b'. dispatch destroy invoke report fd m (w, b) = (None, w', b') \<and>
    callback_map b' = callback_map b |` (- set fds) \<and> callbacks_to_remove b' = {}"
proof -
  obtain st' where "run_callbacks invoke report fd m cbs (w, b) = (None, st')"
    "callback_map (snd st') = callback_map b" "callbacks_to_remove (snd st') = set fds"
    using run_session_callbacks [OF assms(1,2,4,6,5), of "(w, b)" report] assms(7) by auto
  moreover obtain w2 b2 where c: "clean_up destroy st' = (w2, b2)" by (rule prod.exhaust)
  moreover from c have "callbacks_to_remove b2 = {}" using clean_up_removes [of destroy st'] by simp
  ultimately show ?thesis
    using assms(3) clean_up_map [OF assms(8), of "fst st'" "snd st'"]
    by (intro exI [of _ w2] exI [of _ b2]) (simp add: dispatch_def)
qed

definition invoke_example :: "(unit, callback) invoke" where
  "invoke_example cb fd m st =
     (case cb of Session_Callback fds \<Rightarrow> session_event fds fd m st | _ \<Rightarrow> (None, st))"

theorem error_event_ends_session_witness:
  "\<exists>w' b'. dispatch id invoke_example None 8 flags_error (\<lparr>errno = 0, kernel = ()\<rparr>,
      bus_new\<lparr>callback_map := [8 \<mapsto> [Channel_Callback On_Left 0, Session_Callback [8, 9]], 9 \<mapsto> [Session_Callback [8, 9]],
        5 \<mapsto> [Acceptor_Callback]]\<rparr>) = (None, w', b') \<and>
    callback_map b' = callback_map (bus_new\<lparr>callback_map :=
      [8 \<mapsto> [Channel_Callback On_Left 0, Session_Callback [8, 9]], 9 \<mapsto> [Session_Callback [8, 9]],
        5 \<mapsto> [Acceptor_Callback]]\<rparr>) |` (- set [8, 9]) \<and> callbacks_to_remove b' = {}"
proof (rule error_event_ends_session)
  show "session_invoke invoke_example"
    unfolding session_invoke_def by (auto simp: invoke_example_def fun_eq_iff)
qed (auto simp: bus_new_def flags_test_def flags_error_def image_iff)



end
