(* ===== verification/Proxy.thy ===== *)
theory Proxy
  imports Session Handler QueryProcessor
begin

text \<open>
  \<^verbatim>\<open>src/psql_proxy/session.cpp\<close>: the channel from the client to the target with the message
  handler attached, working on the query log and the bus.  This is where the channel, the handler
  and the log meet: the bytes that are forwarded are the bytes that are parsed and logged.
\<close>

section \<open>The handler on the channel\<close>

text \<open>
  What a call of the handler does: a message goes to the log, an event to the bus.  Adding a message
  never trips an assertion while the invariant of the log holds; the other branch keeps the log.
\<close>

type_synonym ('k, 'cb) penv = "('k, 'cb, query_processor) env"

definition log_message :: "byte list \<Rightarrow> query_processor \<Rightarrow> query_processor" where
  "log_message m q = (case add_message m q of None \<Rightarrow> q | Some q' \<Rightarrow> q')"

fun perform :: "call \<Rightarrow> ('k, 'cb) penv \<Rightarrow> ('k, 'cb) penv" where
  "perform (Add_Message m) (w, b, q) = (w, b, log_message m q)"
| "perform (Enqueue_Event fd fl) (w, b, q) = (w\<lparr>errno := 0\<rparr>, enqueue_event fd fl b, q)"

text \<open>
  The handler as a channel calls it; \<open>heap\<close> is the memory behind the vector it may build.
\<close>

definition psql_call :: "ptr \<Rightarrow> (handler, ('k, 'cb) penv) call_handler" where
  "psql_call heap arg h e =
     (case handler_call heap (case arg of Inl err \<Rightarrow> Inl err | Inr (rfd, p, len) \<Rightarrow> Inr (p, len)) h of
        (ex, h', calls) \<Rightarrow> (ex, h', fold perform calls e))"

definition psql_channel :: "(nat \<Rightarrow> byte) \<Rightarrow> socket \<Rightarrow> socket \<Rightarrow> (socket, handler) channel" where
  "psql_channel mem client target = add_handler (handler_new (sock_fd client)) (channel_new mem client target)"

section \<open>The handler sees the received bytes\<close>

lemma fold_perform_log: "snd (snd (fold perform calls (w, b, q))) =
    fold log_message (concat (map (\<lambda>c. case c of Add_Message m \<Rightarrow> [m] | Enqueue_Event _ _ \<Rightarrow> []) calls)) q"
proof (induction calls arbitrary: w b q)
  case (Cons c calls)
  then show ?case by (cases c) simp_all
qed simp

abbreviation messages :: "call list \<Rightarrow> byte list list" where
  "messages calls \<equiv> concat (map (\<lambda>c. case c of Add_Message m \<Rightarrow> [m] | Enqueue_Event _ _ \<Rightarrow> []) calls)"

lemma messages_append: "messages (xs @ ys) = messages xs @ messages ys"
  by simp

text \<open>
  One reading block: the state of the handler advances by the received bytes, and the log by the
  messages found in them.
\<close>

lemma left_read_psql:
  assumes "left_read rd (psql_call heap) fd ch (w, b, q) = Some (x, ch1, (w1, b1, q1), got)"
    and "ch_handlers ch = [h]"
    and "drain (h_fd h) (first_msg_handled h) (h_buffer h @ got) = (None, f, r, cs)"
    and "drain (h_fd h) (first_msg_handled h) (h_buffer h) = (None, first_msg_handled h, h_buffer h, [])"
  shows "ch_handlers ch1 = [h\<lparr>first_msg_handled := f, h_buffer := r\<rparr>] \<and> x = None \<and>
    q1 = fold log_message (messages cs) q"
proof -
  obtain p bq where acq: "write_acquire Channel.BUFF_SZ Channel.CHUNK_SZ (ch_buffer ch) = (p, bq)"
    by (rule prod.exhaust)
  show ?thesis
  proof (cases p)
    case None
    with assms acq show ?thesis by (auto simp: left_read_def)
  next
    case (Some off)
    obtain result w2 where rd: "rd (ch_left ch) Channel.CHUNK_SZ w = (result, w2)" by (rule prod.exhaust)
    show ?thesis
    proof (cases result)
      case (Inl err)
      with assms acq Some rd show ?thesis
        by (auto simp: left_read_def psql_call_def handler_call_def)
    next
      case (Inr res)
      obtain rfd bs where res: "res = (rfd, bs)" by (cases res)
      then obtain q2 where rel: "write_release Channel.BUFF_SZ (length bs) (bip_fill off bs bq) = Some q2"
        using assms(1) acq Some rd Inr
        by (cases "write_release Channel.BUFF_SZ (length bs) (bip_fill off bs bq)") (simp_all add: left_read_def)
      have "bip_data q2 = bip_data (bip_fill off bs bq)"
        using rel by (auto simp: write_release_def Let_def split: if_splits)
      then have bytes: "mem_range (ptr_next (bip_data q2) off) 0 (length bs) = bs"
        by (simp add: mem_range_shift mem_range_fill_same)
      obtain hx hh hc where call: "handler_call heap (Inr (ptr_next (bip_data q2) off, length bs)) h = (hx, hh, hc)"
        by (rule prod_cases3)
      have run: "run_handlers (psql_call heap) (Inr (rfd, ptr_next (bip_data q2) off, length bs)) [h] (w2, b, q) =
          (hx, [hh], fold perform hc (w2, b, q))"
        using call by (cases hx) (simp_all add: psql_call_def)
      from assms(1,2) acq Some rd Inr res rel run
      have eq: "x = hx" "ch_handlers ch1 = [hh]" "(w1, b1, q1) = fold perform hc (w2, b, q)" "got = bs"
        by (auto simp: left_read_def)
      with call bytes assms(3)
      have "hx = None" "hh = h\<lparr>first_msg_handled := f, h_buffer := r\<rparr>" "hc = cs"
        by (auto simp: handler_call_drain drain_result_def)
      with eq fold_perform_log [of hc w2 b q] show ?thesis by (metis snd_conv)
    qed
  qed
qed

lemma right_write_handlers:
  "right_write wr fd ch (w, b, q) = Some (ch1, (w1, b1, q1), sent) \<Longrightarrow>
   ch_handlers ch1 = ch_handlers ch \<and> q1 = q"
  by (auto simp: right_write_def Let_def split: prod.splits option.splits sum.splits if_splits)

text \<open>The same for a whole history, if nothing outside the channel touches the log.\<close>

definition log_untouched :: "(side \<times> fd \<times> flags \<times> (('k, 'cb) penv \<Rightarrow> ('k, 'cb) penv)) list \<Rightarrow> bool" where
  "log_untouched evs \<longleftrightarrow> (\<forall>(s, fd, m, outside) \<in> set evs. \<forall>e. snd (snd (outside e)) = snd (snd e))"

lemma drain_prefix:
  assumes "drain fd first (a @ b) = (None, f, r, cs)"
  obtains f1 r1 cs1 cs2 where "drain fd first a = (None, f1, r1, cs1)" "drain fd f1 (r1 @ b) = (None, f, r, cs2)"
    "cs = cs1 @ cs2"
proof -
  obtain x f1 r1 cs1 where a: "drain fd first a = (x, f1, r1, cs1)" by (cases "drain fd first a")
  obtain x2 f2 r2 cs2 where b: "drain fd f1 (r1 @ b) = (x2, f2, r2, cs2)" by (cases "drain fd f1 (r1 @ b)")
  from drain_append [OF a, of b] assms b have "x = None" "x2 = None" "f2 = f" "r2 = r" "cs = cs1 @ cs2"
    by (auto split: if_splits)
  with a b that show thesis by blast
qed

lemma channel_run_psql:
  assumes "channel_run rd wr (psql_call heap) evs ch (w, b, q) = Some (ch', (w', b', q'), got, sent)"
    and "log_untouched evs" and "ch_handlers ch = [h]"
    and "drain (h_fd h) (first_msg_handled h) (h_buffer h) = (None, first_msg_handled h, h_buffer h, [])"
    and "drain (h_fd h) (first_msg_handled h) (h_buffer h @ got) = (None, f, r, cs)"
  shows "ch_handlers ch' = [h\<lparr>first_msg_handled := f, h_buffer := r\<rparr>] \<and>
    q' = fold log_message (messages cs) q"
  using assms
proof (induction evs arbitrary: ch w b q h got sent cs)
  case Nil
  then show ?case by auto
next
  case (Cons ev evs)
  obtain s fd m outside where ev: "ev = (s, fd, m, outside)" by (metis surj_pair)
  obtain w0 b0 where out: "outside (w, b, q) = (w0, b0, q)"
  proof -
    have "snd (snd (outside (w, b, q))) = snd (snd (w, b, q))"
      using Cons.prems(2) ev by (auto simp: log_untouched_def)
    then show thesis using that by (metis prod.collapse snd_conv)
  qed
  let ?step = "if s = On_Left then handle_left_io_event rd wr (psql_call heap) fd m ch (w0, b0, q)
    else handle_right_io_event wr fd m ch (w0, b0, q)"
  note run = Cons.prems(1) [unfolded ev channel_run.simps out]
  then obtain x ch1 e1 got1 sent1 where step': "?step = Some (x, ch1, e1, got1, sent1)"
    by (cases ?step) auto
  obtain w1 b1 q1 where e1: "e1 = (w1, b1, q1)" by (cases e1)
  note step = step' [unfolded e1]
  obtain got2 sent2 where rest: "channel_run rd wr (psql_call heap) evs ch1 (w1, b1, q1) =
      Some (ch', (w', b', q'), got2, sent2)" "got = got1 @ got2"
    using run by (cases "channel_run rd wr (psql_call heap) evs ch1 (w1, b1, q1)") (auto simp: step)
  have whole: "drain (h_fd h) (first_msg_handled h) ((h_buffer h @ got1) @ got2) = (None, f, r, cs)"
    using Cons.prems(5) rest(2) by simp
  obtain f1 r1 cs1 cs2 where d: "drain (h_fd h) (first_msg_handled h) (h_buffer h @ got1) = (None, f1, r1, cs1)"
    "drain (h_fd h) f1 (r1 @ got2) = (None, f, r, cs2)" "cs = cs1 @ cs2"
    by (rule drain_prefix [OF whole])
  let ?h1 = "h\<lparr>first_msg_handled := f1, h_buffer := r1\<rparr>"
  have one: "ch_handlers ch1 = [?h1] \<and> q1 = fold log_message (messages cs1) q"
  proof (cases "s = On_Left \<and> flags_test m flags_in")
    case True
    then obtain y ch2 w2 b2 q2 where l: "left_read rd (psql_call heap) fd ch (w0, b0, q) = Some (y, ch2, (w2, b2, q2), got1)"
      "y = None \<longrightarrow> right_write wr fd ch2 (w2, b2, q2) = Some (ch1, (w1, b1, q1), sent1)"
      using step by (auto simp: handle_left_io_event_def split: option.splits)
    note lr = left_read_psql [OF l(1) Cons.prems(3) d(1) Cons.prems(4)]
    then have "right_write wr fd ch2 (w2, b2, q2) = Some (ch1, (w1, b1, q1), sent1)" using l(2) by simp
    from right_write_handlers [OF this] lr show ?thesis by simp
  next
    case False
    have "ch_handlers ch1 = ch_handlers ch \<and> q1 = q \<and> got1 = []"
    proof (cases "s = On_Left")
      case True
      with step False show ?thesis by (simp add: handle_left_io_event_def)
    next
      case right: False
      show ?thesis
      proof (cases "flags_test m flags_out")
        case True
        have w: "right_write wr fd ch (w0, b0, q) = Some (ch1, (w1, b1, q1), sent1)" and "got1 = []"
          using step right True by (auto simp: handle_right_io_event_def split: option.splits)
        then show ?thesis using right_write_handlers [OF w] by simp
      next
        case no: False
        with step right show ?thesis by (simp add: handle_right_io_event_def)
      qed
    qed
    moreover from this d(1) Cons.prems(4) have "f1 = first_msg_handled h" "r1 = h_buffer h" "cs1 = []" by auto
    ultimately show ?thesis using Cons.prems(3) by simp
  qed
  have "log_untouched evs" using Cons.prems(2) by (auto simp: log_untouched_def)
  moreover have "drain (h_fd ?h1) (first_msg_handled ?h1) (h_buffer ?h1) =
      (None, first_msg_handled ?h1, h_buffer ?h1, [])" using drain_stable [OF d(1)] by simp
  ultimately have "ch_handlers ch' = [?h1\<lparr>first_msg_handled := f, h_buffer := r\<rparr>] \<and>
      q' = fold log_message (messages cs2) q1"
    using Cons.IH [OF rest(1), of ?h1 cs2] one d(2) by simp
  with one d(3) show ?case by simp
qed

section \<open>Properties\<close>

text \<open>Messages added one after the other, when no assertion can fail.\<close>

lemma log_message_ok:
  "qp_inv q \<Longrightarrow> qp_inv (log_message m q) \<and> add_message m q = Some (log_message m q)"
  using add_message_log [of q m] by (auto simp: log_message_def)

lemma fold_log_message:
  "qp_inv q \<Longrightarrow> add_messages ms q = Some (fold log_message ms q) \<and> qp_inv (fold log_message ms q)"
proof (induction ms arbitrary: q)
  case (Cons m ms)
  from log_message_ok [OF Cons.prems, of m] Cons.IH [of "log_message m q"] show ?case by simp
qed simp

lemma psql_channel_log:
  assumes "qp_inv q" and "log_untouched evs"
    and "channel_run (async_read_some recv) (async_write_some send) (psql_call heap) evs
           (psql_channel mem client target) (w, b, q) = Some (ch', (w', b', q'), got, sent)"
    and "drain (sock_fd client) False got = (None, f, r, cs)"
  shows "add_messages (messages cs) q = Some q' \<and> got = sent @ ch_pending ch'"
proof -
  let ?ch = "psql_channel mem client target"
  have h: "ch_handlers ?ch = [handler_new (sock_fd client)]"
    by (simp add: psql_channel_def add_handler_def channel_new_def)
  have "q' = fold log_message (messages cs) q"
    using channel_run_psql [OF assms(3,2) h, of f r cs] assms(4) by simp
  moreover have "channel_inv ?ch" "ch_pending ?ch = []"
    using channel_new_inv [of mem client target]
    by (simp_all add: psql_channel_def add_handler_def channel_inv_def ch_pending_def)
  ultimately show ?thesis
    using fold_log_message [OF assms(1), of "messages cs"] assms(3)
      sock.channel_run_fifo [of ?ch recv send "psql_call heap" evs "(w, b, q)"] by auto
qed

text \<open>A history of one read, for the witnesses.\<close>

lemma one_read:
  assumes "G \<noteq> []" and "length G \<le> Channel.CHUNK_SZ" and "sock_fd client \<noteq> -1"
  shows "\<exists>ch' w' b' q' sent. channel_run (async_read_some (\<lambda>fd n w. (Some G, w))) (async_write_some send)
      (psql_call heap) [(On_Left, sock_fd client, flags_in, id)] (psql_channel mem client target) (w, b, q) =
    Some (ch', (w', b', q'), G, sent)"
proof -
  let ?rd = "async_read_some (\<lambda>fd n w. (Some G, w))" and ?ch = "psql_channel mem client target"
  have inv: "channel_inv ?ch" using channel_new_inv(1) [of mem client target]
    by (simp add: psql_channel_def add_handler_def channel_inv_def)
  then have binv: "bip_inv Channel.BUFF_SZ (ch_buffer ?ch)" "bip_ready Channel.BUFF_SZ Channel.CHUNK_SZ (ch_buffer ?ch)"
    by (simp_all add: channel_inv_def)
  have acq: "write_acquire Channel.BUFF_SZ Channel.CHUNK_SZ (ch_buffer ?ch) = (Some 0, ch_buffer ?ch)"
    by (simp add: psql_channel_def add_handler_def channel_new_def bip_new_def bip_ops szt_sub_def SIZE_T_def
        channel_sizes)
  have rd: "?rd (ch_left ?ch) Channel.CHUNK_SZ w = (Inr (sock_fd client, G), w\<lparr>errno := 0\<rparr>)"
    using assms by (cases G)
      (simp_all add: async_read_some_def psql_channel_def add_handler_def channel_new_def)
  obtain q1 where rel: "write_release Channel.BUFF_SZ (length G) (bip_fill 0 G (ch_buffer ?ch)) = Some q1"
    using bip.commit [OF binv acq assms(2)] by blast
  obtain x hs e1 where run: "run_handlers (psql_call heap)
      (Inr (sock_fd client, ptr_next (bip_data q1) 0, length G)) (ch_handlers ?ch) (w\<lparr>errno := 0\<rparr>, b, q) = (x, hs, e1)"
    by (rule prod_cases3)
  obtain ch1 where l: "left_read ?rd (psql_call heap) (sock_fd client) ?ch (w, b, q) = Some (x, ch1, e1, G)"
    using acq rd rel run by (simp add: left_read_def)
  have in_in: "flags_test flags_in flags_in" by (simp add: flags_test_def flags_in_def)
  obtain y ch2 e2 got sent where h: "handle_left_io_event ?rd (async_write_some send) (psql_call heap)
      (sock_fd client) flags_in ?ch (w, b, q) = Some (y, ch2, e2, got, sent)"
    using sock.handle_left_ok [OF inv] by blast
  then have "got = G" using l in_in
    by (cases x) (auto simp: handle_left_io_event_def split: option.splits)
  with h show ?thesis by (cases e2) auto
qed

text \<open>
  What is forwarded is what is logged: in every history of the client-to-target channel of the
  PostgreSQL proxy in which nothing else writes to the log, if the bytes received from the client
  read as packets without an exception, the log is the result of adding exactly the queries among
  them, in order; and the same bytes are sent to the target or still in the buffer.
\<close>

theorem proxy_logs_forwarded_queries:
  assumes "qp_inv q" and "log_untouched evs"
    and "channel_run (async_read_some recv) (async_write_some send) (psql_call heap) evs
           (psql_channel mem client target) (w, b, q) = Some (ch', (w', b', q'), got, sent)"
    and "drain (sock_fd client) False got = (None, f, r, cs)"
  shows "add_messages (messages cs) q = Some q' \<and> got = sent @ ch_pending ch'"
  using assms by (rule psql_channel_log)

definition client_example :: socket where "client_example = \<lparr>sock_fd = 7\<rparr>"
definition target_example :: socket where "target_example = \<lparr>sock_fd = 8\<rparr>"

lemma client_fd: "sock_fd client_example = 7"
  by (simp add: client_example_def)

theorem proxy_logs_forwarded_queries_witness:
  "\<exists>ch' w' b' q' sent. channel_run (async_read_some (\<lambda>fd n w. (Some [0, 0], w))) (async_write_some (\<lambda>fd bs w. (Some 1, w)))
      (psql_call (\<lambda>_. 0)) [(On_Left, 7, flags_in, id)] (psql_channel (\<lambda>_. 0) client_example target_example)
      (\<lparr>errno = 0, kernel = ()\<rparr>, bus_new :: unit bus, query_processor_new (\<lambda>_. 0) 10) = Some (ch', (w', b', q'), [0, 0], sent) \<and>
    add_messages (messages []) (query_processor_new (\<lambda>_. 0) 10) = Some q' \<and> [0, 0] = sent @ ch_pending ch'"
proof -
  let ?q = "query_processor_new (\<lambda>_. 0) 10"
  let ?run = "channel_run (async_read_some (\<lambda>fd n w. (Some [0, 0], w))) (async_write_some (\<lambda>fd bs w. (Some 1, w)))
      (psql_call (\<lambda>_. 0)) [(On_Left, 7, flags_in, id)] (psql_channel (\<lambda>_. 0) client_example target_example)
      (\<lparr>errno = 0, kernel = ()\<rparr>, bus_new :: unit bus, ?q)"
  have small: "[0, 0 :: byte] \<noteq> []" "length [0, 0 :: byte] \<le> Channel.CHUNK_SZ" "7 \<noteq> (-1 :: int)"
    by (simp_all add: channel_sizes)
  obtain ch' w' b' q' sent where run: "?run = Some (ch', (w', b', q'), [0, 0], sent)"
    using one_read [of "[0, 0]" client_example "\<lambda>fd bs w. (Some 1, w)" "\<lambda>_. 0" "\<lambda>_. 0" target_example
        "\<lparr>errno = 0, kernel = ()\<rparr>" bus_new ?q, unfolded client_fd] small by blast
  have "drain (sock_fd client_example) False [0, 0] = (None, False, [0, 0], [])"
    by (simp add: drain.simps next_frame_def)
  from proxy_logs_forwarded_queries [OF _ _ run this] run show ?thesis
    by (auto simp: log_untouched_def)
qed

text \<open>
  C5. The proxied session of a protocol client: if the bytes received are a startup packet, queries
  and perhaps a terminate packet, the log is the result of adding those queries in order.
\<close>

theorem proxy_logs_client_queries:
  assumes "qp_inv q" and "log_untouched evs"
    and "channel_run (async_read_some recv) (async_write_some send) (psql_call heap) evs
           (psql_channel mem client target) (w, b, q) = Some (ch', (w', b', q'), got, sent)"
    and "4 \<le> length start" and "length start + 4 < 65536" and "\<forall>m\<in>set qs. length m + 5 < 65536"
    and "got = encode_packet [] e start @ encode_queries e qs @
           (if terminated then encode_packet [Terminate_CODE] e [] else [])"
  shows "add_messages qs q = Some q' \<and> got = sent @ ch_pending ch'"
proof -
  let ?calls = "map Add_Message qs @ (if terminated then [Enqueue_Event (sock_fd client) flags_error] else [])"
  have d: "drain (sock_fd client) False got = (None, True, [], ?calls)"
    unfolding assms(7) by (rule drain_client_stream [OF assms(4-6)])
  have "messages (map Add_Message qs) = qs" by (induction qs) simp_all
  then have "messages ?calls = qs" by simp
  with psql_channel_log [OF assms(1-3) d] show ?thesis by simp
qed

theorem proxy_logs_client_queries_witness:
  "let G = encode_packet [] BE [0, 3, 0, 0] @ encode_queries BE [[65], [66]]
   in \<exists>ch' w' b' q' sent. channel_run (async_read_some (\<lambda>fd n w. (Some G, w))) (async_write_some (\<lambda>fd bs w. (Some 1, w)))
      (psql_call (\<lambda>_. 0)) [(On_Left, 7, flags_in, id)] (psql_channel (\<lambda>_. 0) client_example target_example)
      (\<lparr>errno = 0, kernel = ()\<rparr>, bus_new :: unit bus, query_processor_new (\<lambda>_. 0) 10) = Some (ch', (w', b', q'), G, sent) \<and>
    add_messages [[65], [66]] (query_processor_new (\<lambda>_. 0) 10) = Some q' \<and> G = sent @ ch_pending ch'"
proof -
  let ?q = "query_processor_new (\<lambda>_. 0) 10"
  let ?G = "encode_packet [] BE [0, 3, 0, 0] @ encode_queries BE [[65], [66]]"
  let ?run = "channel_run (async_read_some (\<lambda>fd n w. (Some ?G, w))) (async_write_some (\<lambda>fd bs w. (Some 1, w)))
      (psql_call (\<lambda>_. 0)) [(On_Left, 7, flags_in, id)] (psql_channel (\<lambda>_. 0) client_example target_example)
      (\<lparr>errno = 0, kernel = ()\<rparr>, bus_new :: unit bus, ?q)"
  have small: "?G \<noteq> []" "length ?G \<le> Channel.CHUNK_SZ" "7 \<noteq> (-1 :: int)"
    by (simp_all add: encode_packet_def encode_queries_def channel_sizes)
  obtain ch' w' b' q' sent where run: "?run = Some (ch', (w', b', q'), ?G, sent)"
    using one_read [of ?G client_example "\<lambda>fd bs w. (Some 1, w)" "\<lambda>_. 0" "\<lambda>_. 0" target_example
        "\<lparr>errno = 0, kernel = ()\<rparr>" bus_new ?q, unfolded client_fd] small by blast
  have "add_messages [[65], [66]] ?q = Some q' \<and> ?G = sent @ ch_pending ch'"
    by (rule proxy_logs_client_queries [OF _ _ run, where terminated = False and start = "[0, 3, 0, 0]" and e = BE])
      (simp_all add: log_untouched_def)
  with run show ?thesis unfolding Let_def by blast
qed

end
