(* ===== verification/Bus_Client.thy ===== *)
theory Bus_Client
  imports Context
begin

text \<open>
  What the users of the bus rely on: a property of the whole state that every registered callback, every
  report of an error and every clean-up keeps is kept by the dispatch of an event, by a round of the bus
  and by the reactor loop of \<^verbatim>\<open>src/io/context.cpp\<close>.  Callbacks and reports only add registrations.  The locale \<open>bus_client\<close> is about the bus of
  \<^verbatim>\<open>src/io/bus.cpp\<close> alone, \<open>epoll_client\<close> about the bus on epoll.
\<close>

locale bus_client =
  fixes keeps :: "('k, 'cb) state \<Rightarrow> bool"
    and destroy :: "('k, 'cb) destroy"
    and invoke :: "('k, 'cb) invoke"
    and report :: "('k, 'cb) reporter option"
  assumes keeps_invoke: "keeps st \<Longrightarrow> cb \<in> set (callbacks_of (snd st) fd) \<Longrightarrow> keeps (snd (invoke cb fd fl st))"
    and registers_invoke: "set (callbacks_of (snd st) g) \<subseteq> set (callbacks_of (snd (snd (invoke cb fd fl st))) g)"
    and registers_report: "set (callbacks_of (snd st) g) \<subseteq> set (callbacks_of (snd (snd (report_error report fd ex st))) g)"
    and keeps_report: "keeps st \<Longrightarrow> keeps (snd (report_error report fd ex st))"
    and keeps_clean_up: "keeps st \<Longrightarrow> keeps (clean_up destroy st)"
    and keeps_events: "keeps (w, b) \<Longrightarrow> keeps (w, b\<lparr>events := []\<rparr>)"
begin

lemma keeps_run_callbacks:
  "keeps st \<Longrightarrow> set cbs \<subseteq> set (callbacks_of (snd st) fd) \<Longrightarrow> keeps (snd (run_callbacks invoke report fd fl cbs st))"
proof (induction cbs arbitrary: st)
  case (Cons cb cbs)
  obtain x st1 where i: "invoke cb fd fl st = (x, st1)" by (rule prod.exhaust)
  with Cons.prems keeps_invoke [of st cb fd fl] registers_invoke [of st fd cb fd fl]
  have 1: "keeps st1" "set cbs \<subseteq> set (callbacks_of (snd st1) fd)" by auto
  show ?case
  proof (cases x)
    case None
    with i 1 Cons show ?thesis by simp
  next
    case (Some ex)
    obtain y st2 where r: "report_error report fd ex st1 = (y, st2)" by (rule prod.exhaust)
    with 1 keeps_report [of st1 fd ex] registers_report [of st1 fd fd ex]
    have "keeps st2" "set cbs \<subseteq> set (callbacks_of (snd st2) fd)" by auto
    with i r Some Cons show ?thesis by (cases y) simp_all
  qed
qed simp

lemma keeps_dispatch:
  assumes "keeps st" shows "keeps (snd (dispatch destroy invoke report fd fl st))"
proof (cases "callback_map (snd st) fd")
  case None
  with keeps_clean_up [OF assms] show ?thesis by (simp add: dispatch_def)
next
  case (Some cbs)
  obtain x st1 where r: "run_callbacks invoke report fd fl cbs st = (x, st1)" by (rule prod.exhaust)
  with keeps_run_callbacks [OF assms, of cbs fd fl] Some have "keeps st1" by (simp add: callbacks_of_def)
  with Some r keeps_clean_up [of st1] show ?thesis by (cases x) (simp_all add: dispatch_def)
qed

lemma keeps_run_events:
  assumes "\<And>fd fl st. keeps st \<Longrightarrow> keeps (snd (cb fd fl st))"
  shows "keeps st \<Longrightarrow> keeps (snd (run_events cb es st))"
proof (induction es arbitrary: st)
  case (Cons e es)
  obtain fd fl x st1 where e: "e = (fd, fl)" "cb fd fl st = (x, st1)" by (metis surj_pair)
  with assms [OF Cons.prems, of fd fl] have "keeps st1" by simp
  with e Cons.IH show ?case by (cases x) simp_all
qed simp

lemma keeps_wait_events:
  assumes "keeps st"
    and "\<And>cb st. (\<And>fd fl st. keeps st \<Longrightarrow> keeps (snd (cb fd fl st))) \<Longrightarrow> keeps st \<Longrightarrow> keeps (snd (sys_wait cb st))"
  shows "keeps (snd (wait_events sys_wait destroy invoke report st))"
proof -
  let ?cb = "dispatch destroy invoke report"
  have cb: "keeps (snd (?cb fd fl st))" if "keeps st" for fd fl st by (rule keeps_dispatch [OF that])
  obtain x w b where s: "sys_wait ?cb st = (x, w, b)" by (metis surj_pair)
  with assms(2) [of ?cb st, OF _ assms(1)] cb have 1: "keeps (w, b)" by simp
  obtain y st2 where r: "run_events ?cb (events b) (w, b\<lparr>events := []\<rparr>) = (y, st2)" by (rule prod.exhaust)
  with keeps_run_events [of ?cb, OF cb keeps_events [OF 1], of "events b"] have 2: "keeps st2" by simp
  show ?thesis
    using keeps_report [OF 1] keeps_report [OF 2] 2
    by (cases x; cases y) (simp_all add: wait_events_def s r)
qed

end

locale epoll_client = bus_client +
  fixes epoll_wait :: "'a epoll_wait"
  assumes keeps_wait: "keeps (w, b) \<Longrightarrow> keeps (snd (epoll_wait e n t (w\<lparr>errno := 0\<rparr>)), b)"
begin

lemma keeps_run_epoll_events:
  assumes "\<And>fd fl st. keeps st \<Longrightarrow> keeps (snd (cb fd fl st))"
  shows "keeps st \<Longrightarrow> keeps (snd (run_epoll_events None (Some cb) evs st))"
proof (induction evs arbitrary: st)
  case (Cons ev evs)
  obtain x st1 where c: "cb (ev_fd ev) (epoll_mask_to_io_flags (ev_events ev)) st = (x, st1)" by (rule prod.exhaust)
  with assms [OF Cons.prems, of "ev_fd ev" "epoll_mask_to_io_flags (ev_events ev)"] have "keeps st1" by simp
  with c Cons.IH show ?case by (cases x) simp_all
qed simp

lemma keeps_round:
  assumes "native_callback ep = None" and "keeps st"
  shows "keeps (snd (epoll_bus_wait epoll_wait ep t n destroy invoke report st))"
  unfolding epoll_bus_wait_def
proof (rule keeps_wait_events [OF assms(2)])
  fix cb :: "fd \<Rightarrow> flags \<Rightarrow> ('a, 'b) action" and st
  assume cb: "\<And>fd fl st. keeps st \<Longrightarrow> keeps (snd (cb fd fl st))" and st: "keeps st"
  obtain w b where wb: "st = (w, b)" by (cases st)
  obtain ret buff w1 where e: "epoll_wait (epfd ep) n t (w\<lparr>errno := 0\<rparr>) = ((ret, buff), w1)" by (metis surj_pair)
  with keeps_wait [of w b "epfd ep" n t] st wb have 1: "keeps (w1, b)" by simp
  with e wb assms(1) keeps_run_epoll_events [of cb "(w1, b)" "take (nat ret) buff", OF cb 1]
  show "keeps (snd (epoll_wait_events epoll_wait ep t n (Some cb) st))"
    by (simp add: epoll_wait_events_def)
qed

lemma keeps_rounds:
  assumes "native_callback ep = None" and "keeps st"
  shows "keeps ((next_state (\<lambda>t n. epoll_bus_wait epoll_wait ep t n destroy invoke report) c ^^ k) st)"
  using assms(2)
proof (induction k)
  case (Suc k)
  then show ?case using keeps_round [OF assms(1)] by (simp add: next_state_def)
qed simp

end

end
