(* ===== verification/Program.thy ===== *)
theory Program
  imports Proxy Acceptor Bus_Client
begin

text \<open>
  The three programs as a whole, \<^verbatim>\<open>src/echo\<close>, \<^verbatim>\<open>src/tcp_proxy\<close> and
  \<^verbatim>\<open>src/psql_proxy\<close>: the callbacks that acceptor, sessions and channels register work on the
  objects of the program, which live as long as a callback refers to them.  The bus of
  \<open>Bus\<close> calls them; the writer thread runs between two calls.
\<close>

section \<open>The objects of a program\<close>

datatype program = Echo | Tcp_Proxy | Psql_Proxy

text \<open>
  The state beside the bus: the operating system, the descriptors of the sockets that exist, the
  channels by number, the writer thread with the query log, and whether an assertion has failed.
  The last two fields collect what each channel has received and sent, for the statements below.
  A channel whose last callback is gone keeps its entry, which nothing uses any more.
\<close>

record 'os machine =
  os :: 'os
  sockets :: "fd list"
  channels :: "nat \<rightharpoonup> (socket, handler) channel"
  next_channel :: nat
  writer :: file_writer
  failed_assert :: bool
  got_bytes :: "nat \<Rightarrow> byte list"
  put_bytes :: "nat \<Rightarrow> byte list"

text \<open>The system calls, and what is fixed when the program has started.\<close>

record 'os sys =
  s_recv :: "'os recv"
  s_send :: "'os send"
  s_ctl :: "'os epoll_ctl"
  s_wait :: "'os epoll_wait"
  s_accept :: "'os sys_accept"
  s_socket :: "'os sys_socket"
  s_connect :: "'os sys_connect"
  s_shutdown :: "fd \<Rightarrow> ('os, int) syscall"
  s_close :: "'os sys_close"
  s_getaddrinfo :: "'os getaddrinfo"
  s_ntop :: inet_ntop

record 'os settings =
  su_program :: program
  su_listen :: fd
  su_epoll :: "('os machine, callback) epoll"
  su_target :: v4
  su_native :: endianness
  su_heap :: ptr
  su_mem :: "nat \<Rightarrow> byte"

text \<open>A system call of the operating system on the state of the program.\<close>

definition os_world :: "'os machine world \<Rightarrow> 'os world" where
  "os_world w = \<lparr>errno = errno w, kernel = os (kernel w)\<rparr>"

definition with_os :: "'os world \<Rightarrow> 'os machine world \<Rightarrow> 'os machine world" where
  "with_os w' w = w\<lparr>errno := errno w', kernel := (kernel w)\<lparr>os := kernel w'\<rparr>\<rparr>"

definition lift_sys :: "('os, 'a) syscall \<Rightarrow> ('os machine, 'a) syscall" where
  "lift_sys f w = (let (r, w') = f (os_world w) in (r, with_os w' w))"

abbreviation bus_ctl :: "'os sys \<Rightarrow> 'os machine epoll_ctl" where
  "bus_ctl sys \<equiv> \<lambda>e ctl fd ev. lift_sys (s_ctl sys e ctl fd ev)"

abbreviation bus_add :: "'os sys \<Rightarrow> 'os settings \<Rightarrow> fd \<Rightarrow> callback option \<Rightarrow> ('os machine, callback) action" where
  "bus_add sys su \<equiv> epoll_bus_add (bus_ctl sys) (su_epoll su)"

abbreviation bus_del :: "'os sys \<Rightarrow> 'os settings \<Rightarrow> fd \<Rightarrow> ('os machine, callback) action" where
  "bus_del sys su \<equiv> epoll_bus_del (bus_ctl sys) (su_epoll su)"

section \<open>Lifetimes\<close>

text \<open>
  A callback of a channel holds the channel, which holds its two sockets; a callback of a session
  holds the session, which holds its channels.  A socket whose last callback has been erased is
  destroyed, and its destructor closes it, that of the target before that of the client: a channel
  destroys its right object first, and a server its local objects in reverse order.
\<close>

definition owns :: "(nat \<rightharpoonup> (socket, handler) channel) \<Rightarrow> callback \<Rightarrow> fd \<Rightarrow> bool" where
  "owns chs cb fd =
     (case cb of
        Channel_Callback s i \<Rightarrow>
          (case chs i of None \<Rightarrow> False
           | Some ch \<Rightarrow> fd = sock_fd (ch_left ch) \<or> fd = sock_fd (ch_right ch))
      | Session_Callback fds \<Rightarrow> fd \<in> set fds
      | Acceptor_Callback \<Rightarrow> False)"

definition referenced :: "'os machine \<Rightarrow> callback bus \<Rightarrow> fd \<Rightarrow> bool" where
  "referenced k b fd \<longleftrightarrow>
     (\<exists>g\<in>set (sockets k). \<exists>cb\<in>set (callbacks_of b g). owns (channels k) cb fd)"

definition close_socket :: "'os sys \<Rightarrow> 'os settings \<Rightarrow> fd \<Rightarrow> ('os machine, callback) destroy" where
  "close_socket sys su fd st =
     (let (s, w1, b1) =
        close_connection_noexcept (bus_del sys su) (\<lambda>fd. lift_sys (s_shutdown sys fd))
          (\<lambda>fd. lift_sys (s_close sys fd)) \<lparr>sock_fd = fd\<rparr> st
      in (w1\<lparr>kernel := (kernel w1)\<lparr>sockets := filter (\<lambda>g. g \<noteq> fd) (sockets (kernel w1))\<rparr>\<rparr>, b1))"

definition destroy_objects :: "'os sys \<Rightarrow> 'os settings \<Rightarrow> ('os machine, callback) destroy" where
  "destroy_objects sys su = (\<lambda>(w, b).
     fold (close_socket sys su) (filter (\<lambda>fd. \<not> referenced (kernel w) b fd) (rev (sockets (kernel w)))) (w, b))"

section \<open>New connections\<close>

definition make_socket :: "fd \<Rightarrow> 'os machine world \<Rightarrow> 'os machine world" where
  "make_socket fd w = w\<lparr>kernel := (kernel w)\<lparr>sockets := sockets (kernel w) @ [fd]\<rparr>\<rparr>"

text \<open>The two channels of a session, between its sockets \<open>l\<close> and \<open>r\<close>.\<close>

definition make_channels :: "'os settings \<Rightarrow> fd \<Rightarrow> fd \<Rightarrow> 'os machine world \<Rightarrow> 'os machine world" where
  "make_channels su l r w =
     (let k = kernel w; n = next_channel k
      in w\<lparr>kernel := k\<lparr>channels := (channels k)(n \<mapsto> channel_new (su_mem su) \<lparr>sock_fd = l\<rparr> \<lparr>sock_fd = r\<rparr>,
                                               n + 1 \<mapsto> channel_new (su_mem su) \<lparr>sock_fd = r\<rparr> \<lparr>sock_fd = l\<rparr>),
                       next_channel := n + 2\<rparr>\<rparr>)"

definition connect_target :: "'os sys \<Rightarrow> 'os settings \<Rightarrow> fd \<Rightarrow> ('os machine, exn + fd) syscall" where
  "connect_target sys su fd w =
     (case lift_sys (socket_connect (s_getaddrinfo sys) (s_socket sys) (s_connect sys) (s_close sys) (su_target su)) w of
        (Inl ex, w1) \<Rightarrow> (Inl ex, w1)
      | (Inr tfd, w1) \<Rightarrow> (Inr tfd, make_channels su fd tfd (make_socket tfd w1)))"

text \<open>The end of the constructor of a PostgreSQL session.\<close>

definition attach_handler :: "session \<Rightarrow> 'os machine world \<Rightarrow> 'os machine world" where
  "attach_handler s w =
     (let k = kernel w; i = sess_lr s
      in case channels k i of
           None \<Rightarrow> w
         | Some ch \<Rightarrow>
             w\<lparr>kernel := k\<lparr>channels := (channels k)(i \<mapsto> add_handler (handler_new (sock_fd (ch_left ch))) ch)\<rparr>\<rparr>)"

text \<open>The callback that the session manager adds to the acceptor.\<close>

definition new_session :: "'os sys \<Rightarrow> 'os settings \<Rightarrow> fd \<Rightarrow> v4 \<Rightarrow> ('os machine, callback) action" where
  "new_session sys su fd address = (\<lambda>(w, b).
     (let w0 = make_socket fd w; n = next_channel (kernel w);
          unwind = destroy_objects sys su;
          (r, st) =
            (case su_program su of
               Echo \<Rightarrow> echo_new_connection unwind (bus_add sys su) n (n + 1) fd (make_channels su fd fd w0, b)
             | Tcp_Proxy \<Rightarrow>
                 proxy_new_connection (connect_target sys su fd) unwind (\<lambda>s w. w) (bus_add sys su) n (n + 1) fd (w0, b)
             | Psql_Proxy \<Rightarrow>
                 proxy_new_connection (connect_target sys su fd) unwind attach_handler (bus_add sys su) n (n + 1) fd (w0, b))
      in (case r of Inl ex \<Rightarrow> Some ex | Inr s \<Rightarrow> None, st)))"

section \<open>Callbacks\<close>

text \<open>
  A callback of channel \<open>i\<close>: the channel reads and writes through its sockets, and its handlers
  work on the query log.  A failed assertion ends the process.
\<close>

definition channel_event ::
  "'os sys \<Rightarrow> 'os settings \<Rightarrow> side \<Rightarrow> nat \<Rightarrow> fd \<Rightarrow> flags \<Rightarrow> ('os machine, callback) action" where
  "channel_event sys su s i fd m = (\<lambda>(w, b).
     (let k = kernel w; rd = async_read_some (s_recv sys); wr = async_write_some (s_send sys);
          call = psql_call (su_heap su); e = (os_world w, b, fw_processor (writer k))
      in case channels k i of
           None \<Rightarrow> (None, w, b)
         | Some ch \<Rightarrow>
             (case (if s = On_Left then handle_left_io_event rd wr call fd m ch e
                    else handle_right_io_event wr fd m ch e) of
                None \<Rightarrow> (None, w\<lparr>kernel := k\<lparr>failed_assert := True\<rparr>\<rparr>, b)
              | Some (ex, ch1, (w1, b1, q1), got, away) \<Rightarrow>
                  (ex, (with_os w1 w)\<lparr>kernel := (kernel (with_os w1 w))
                     \<lparr>channels := (channels k)(i \<mapsto> ch1),
                      writer := (writer k)\<lparr>fw_processor := q1\<rparr>,
                      got_bytes := (got_bytes k)(i := got_bytes k i @ got),
                      put_bytes := (put_bytes k)(i := put_bytes k i @ away)\<rparr>\<rparr>, b1))))"

definition program_invoke :: "'os sys \<Rightarrow> 'os settings \<Rightarrow> ('os machine, callback) invoke" where
  "program_invoke sys su cb fd m =
     (case cb of
        Channel_Callback s i \<Rightarrow> channel_event sys su s i fd m
      | Session_Callback fds \<Rightarrow> session_event fds fd m
      | Acceptor_Callback \<Rightarrow>
          acceptor_event (su_native su) (s_ntop sys) (\<lambda>fd. lift_sys (s_accept sys fd))
            (\<lambda>_. new_session sys su) \<lparr>acc_fd = su_listen su, acc_callbacks = [()]\<rparr> fd m)"

text \<open>The error handler of all three programs only prints.\<close>

definition print_error :: "('k, 'cb) reporter" where
  "print_error e st = (None, st)"

definition program_round ::
  "'os sys \<Rightarrow> 'os settings \<Rightarrow> int \<Rightarrow> nat \<Rightarrow> ('os machine, callback) action" where
  "program_round sys su timeout n =
     epoll_bus_wait (\<lambda>e n t. lift_sys (s_wait sys e n t)) (su_epoll su) timeout n
       (destroy_objects sys su) (program_invoke sys su) (Some print_error)"

section \<open>Steps\<close>

text \<open>
  What may happen next: a callback is called with the descriptor it is registered for, the callbacks of
  removed descriptors are erased, the queue of events is taken, the kernel is asked for events, or the
  writer thread runs its loop body.
\<close>

inductive program_step :: "'os sys \<Rightarrow> 'os settings \<Rightarrow> ('os machine, callback) state \<Rightarrow> ('os machine, callback) state \<Rightarrow> bool"
  for sys su where
  step_call: "cb \<in> set (callbacks_of (snd st) fd) \<Longrightarrow> program_step sys su st (snd (program_invoke sys su cb fd m st))"
| step_clean: "program_step sys su st (clean_up (destroy_objects sys su) st)"
| step_queue: "program_step sys su (w, b) (w, b\<lparr>events := []\<rparr>)"
| step_wait: "program_step sys su (w, b) (snd (lift_sys (s_wait sys e n t) (w\<lparr>errno := 0\<rparr>)), b)"
| step_writer: "writer_body rd (writer (kernel w)) = Some fw \<Longrightarrow>
     program_step sys su (w, b) (w\<lparr>kernel := (kernel w)\<lparr>writer := fw\<rparr>\<rparr>, b)"
| step_writer_assert: "writer_body rd (writer (kernel w)) = None \<Longrightarrow>
     program_step sys su (w, b) (w\<lparr>kernel := (kernel w)\<lparr>failed_assert := True\<rparr>\<rparr>, b)"

text \<open>The state in which the reactor loop starts.\<close>

definition program_init :: "'os settings \<Rightarrow> query_processor \<Rightarrow> ('os machine, callback) state \<Rightarrow> bool" where
  "program_init su q st \<longleftrightarrow>
     (let k = kernel (fst st); b = snd st
      in sockets k = [] \<and> channels k = Map.empty \<and> next_channel k = 0 \<and> writer k = fw_new q \<and>
         \<not> failed_assert k \<and> got_bytes k = (\<lambda>_. []) \<and> put_bytes k = (\<lambda>_. []) \<and>
         callback_map b = [su_listen su \<mapsto> [Acceptor_Callback]] \<and> callbacks_to_remove b = {} \<and> events b = [])"

definition program_reachable :: "'os sys \<Rightarrow> 'os settings \<Rightarrow> query_processor \<Rightarrow> ('os machine, callback) state \<Rightarrow> bool" where
  "program_reachable sys su q st \<longleftrightarrow> (\<exists>st0. program_init su q st0 \<and> (program_step sys su)\<^sup>*\<^sup>* st0 st)"

end
