(* ===== verification/Program_Safe.thy ===== *)
theory Program_Safe
  imports Program
begin

text \<open>
  What holds of a program in every state it can reach, whatever the kernel does: no assertion fails,
  every channel forwards its bytes in order, and the callbacks on the bus fit the objects they refer
  to.
\<close>

section \<open>What the operations leave alone\<close>

text \<open>
  The objects of the program other than its sockets; system calls, registrations and the closing of
  sockets do not touch them.
\<close>

definition objects :: "'os machine world \<Rightarrow>
   (nat \<rightharpoonup> (socket, handler) channel) \<times> nat \<times> file_writer \<times> bool \<times> (nat \<Rightarrow> byte list) \<times> (nat \<Rightarrow> byte list)" where
  "objects w = (channels (kernel w), next_channel (kernel w), writer (kernel w), failed_assert (kernel w),
     got_bytes (kernel w), put_bytes (kernel w))"

lemma objects_lift_sys [simp]: "objects (snd (lift_sys f w)) = objects w"
  by (simp add: lift_sys_def objects_def with_os_def split: prod.split)

lemma sockets_lift_sys [simp]: "sockets (kernel (snd (lift_sys f w))) = sockets (kernel w)"
  by (simp add: lift_sys_def with_os_def split: prod.split)

lemma objects_errno [simp]: "objects (w\<lparr>errno := e\<rparr>) = objects w"
  by (simp add: objects_def)

lemma objects_sockets [simp]: "objects (w\<lparr>kernel := (kernel w)\<lparr>sockets := s\<rparr>\<rparr>) = objects w"
  by (simp add: objects_def)

lemma objects_make_socket [simp]: "objects (make_socket fd w) = objects w"
  by (simp add: make_socket_def)

lemma epoll_add_fd_keeps:
  assumes "\<And>e c fd ev w. g (snd (ctl e c fd ev w)) = g w"
  shows "g (snd (epoll_add_fd ctl ep fd w)) = g w"
  using assms by (simp add: epoll_add_fd_def split: prod.split) (metis snd_conv)

lemma epoll_del_fd_keeps:
  assumes "\<And>e c fd ev w. g (snd (ctl e c fd ev w)) = g w"
  shows "g (snd (epoll_del_fd ctl ep fd w)) = g w"
  using assms by (simp add: epoll_del_fd_def split: prod.split) (metis snd_conv)

lemma add_fd_keeps:
  assumes "\<And>fd w. g (snd (sys_add fd w)) = g w"
  shows "g (fst (snd (add_fd sys_add fd cb st))) = g (fst st)"
proof -
  obtain w b where st: "st = (w, b)" by (cases st)
  obtain x w1 where a: "sys_add fd w = (x, w1)" by (rule prod.exhaust)
  with assms [of fd w] have "g w1 = g w" by simp
  with a st show ?thesis
    by (cases "callback_map b fd"; cases x; cases cb) (simp_all add: add_fd_def)
qed

lemma del_fd_keeps:
  assumes "\<And>fd w. g (snd (sys_del fd w)) = g w"
  shows "g (fst (snd (del_fd sys_del fd st))) = g (fst st)"
  using assms by (simp add: del_fd_def split: prod.split) (metis snd_conv)

lemma close_connection_keeps:
  assumes "\<And>fd st. g (fst (snd (del fd st))) = g (fst st)"
    and "\<And>fd w. g (snd (sys_shutdown fd w)) = g w" and "\<And>fd w. g (snd (sys_close fd w)) = g w"
  shows "g (fst (snd (close_connection_noexcept del sys_shutdown sys_close s st))) = g (fst st)"
proof -
  obtain x w1 b1 where d: "del (sock_fd s) st = (x, w1, b1)" by (rule prod_cases3)
  obtain r2 w2 where s2: "sys_shutdown (sock_fd s) w1 = (r2, w2)" by (rule prod.exhaust)
  obtain r3 w3 where s3: "sys_close (sock_fd s) w2 = (r3, w3)" by (rule prod.exhaust)
  have "g w1 = g (fst st)" "g w2 = g w1" "g w3 = g w2"
    using assms(1) [of "sock_fd s" st] assms(2) [of "sock_fd s" w1] assms(3) [of "sock_fd s" w2] d s2 s3 by simp_all
  with d s2 s3 show ?thesis
    by (cases x) (simp_all add: close_connection_noexcept_def close_connection_def Let_def)
qed

lemma register_all_keeps:
  assumes "\<And>fd cb st. g (fst (snd (add fd cb st))) = g (fst st)"
  shows "g (fst (snd (register_all add regs st))) = g (fst st)"
proof (induction regs arbitrary: st)
  case (Cons r regs)
  obtain fd cb where r: "r = (fd, cb)" by (cases r)
  obtain x st1 where a: "add fd (Some cb) st = (x, st1)" by (rule prod.exhaust)
  with assms [of fd "Some cb" st] have "g (fst st1) = g (fst st)" by simp
  with r a Cons [of st1] show ?case by (cases x) simp_all
qed simp

lemma objects_bus_add [simp]: "objects (fst (snd (bus_add sys su fd cb st))) = objects (fst st)"
  unfolding epoll_bus_add_def by (rule add_fd_keeps, rule epoll_add_fd_keeps) simp

lemma objects_bus_del [simp]: "objects (fst (snd (bus_del sys su fd st))) = objects (fst st)"
  unfolding epoll_bus_del_def by (rule del_fd_keeps, rule epoll_del_fd_keeps) simp

lemma objects_register_all [simp]: "objects (fst (snd (register_all (bus_add sys su) regs st))) = objects (fst st)"
  by (rule register_all_keeps) simp

lemma objects_close_socket [simp]: "objects (fst (close_socket sys su fd st)) = objects (fst st)"
proof -
  have "objects (fst (snd (close_connection_noexcept (bus_del sys su) (\<lambda>fd. lift_sys (s_shutdown sys fd))
      (\<lambda>fd. lift_sys (s_close sys fd)) s st))) = objects (fst st)" for s
    by (rule close_connection_keeps) simp_all
  then show ?thesis by (simp add: close_socket_def split: prod.split) (metis fst_conv snd_conv)
qed

lemma objects_destroy [simp]: "objects (fst (destroy_objects sys su st)) = objects (fst st)"
proof -
  have "objects (fst (fold (close_socket sys su) fds st)) = objects (fst st)" for fds st
    by (induction fds arbitrary: st) simp_all
  then show ?thesis by (simp add: destroy_objects_def split: prod.split)
qed

lemma objects_clean_up [simp]: "objects (fst (clean_up (destroy_objects sys su) st)) = objects (fst st)"
proof -
  obtain w b where st: "st = (w, b)" by (cases st)
  let ?st = "(w, b\<lparr>callback_map := callback_map b |` (- callbacks_to_remove b)\<rparr>)"
  obtain w1 b1 where d: "destroy_objects sys su ?st = (w1, b1)" by (rule prod.exhaust)
  with objects_destroy [of sys su ?st] have "objects w1 = objects w" by simp
  with st d show ?thesis by (simp add: clean_up_def)
qed

section \<open>One callback of a channel\<close>

lemma psql_call_log:
  assumes "psql_call heap arg h (w, b, q) = (x, h1, (w1, b1, q1))"
  shows "\<exists>ms. q1 = fold log_message ms q" and "h_fd h1 = h_fd h"
proof -
  let ?res = "case arg of Inl err \<Rightarrow> Inl err | Inr (rfd, p, len) \<Rightarrow> Inr (p, len)"
  obtain ex h' cs where c: "handler_call heap ?res h = (ex, h', cs)" by (rule prod_cases3)
  with assms have e: "h1 = h'" "(w1, b1, q1) = fold perform cs (w, b, q)" by (simp_all add: psql_call_def)
  from arg_cong [where f = "\<lambda>e. snd (snd e)", OF e(2)] show "\<exists>ms. q1 = fold log_message ms q"
    by (auto simp: fold_perform_log)
  show "h_fd h1 = h_fd h"
  proof (cases arg)
    case (Inl err)
    with c e show ?thesis by (simp add: handler_call_def)
  next
    case (Inr res)
    with c e show ?thesis by (cases res) (auto simp: handler_call_drain drain_result_def split: prod.splits)
  qed
qed

lemma run_handlers_log:
  assumes "run_handlers (psql_call heap) arg hs (w, b, q) = (x, hs1, (w1, b1, q1))"
  shows "(\<exists>ms. q1 = fold log_message ms q \<and> (hs = [] \<longrightarrow> ms = [])) \<and> map h_fd hs1 = map h_fd hs"
  using assms
proof (induction hs arbitrary: w b q hs1)
  case (Cons h hs)
  obtain y h2 w2 b2 q2 where c: "psql_call heap arg h (w, b, q) = (y, h2, w2, b2, q2)" by (metis surj_pair)
  obtain ms where ms: "q2 = fold log_message ms q" using psql_call_log(1) [OF c] by blast
  note fd = psql_call_log(2) [OF c]
  show ?case
  proof (cases y)
    case None
    obtain z hs3 e3 where r: "run_handlers (psql_call heap) arg hs (w2, b2, q2) = (z, hs3, e3)" by (rule prod_cases3)
    with Cons.prems c None have 1: "z = x" "e3 = (w1, b1, q1)" "hs1 = h2 # hs3" by simp_all
    with r Cons.IH [of w2 b2 q2 hs3] obtain ms2 where 2: "q1 = fold log_message ms2 q2" "map h_fd hs3 = map h_fd hs"
      by blast
    with ms have "q1 = fold log_message (ms @ ms2) q" by simp
    moreover have "map h_fd hs1 = map h_fd (h # hs)" using fd 1(3) 2(2) by simp
    ultimately show ?thesis by blast
  next
    case (Some ex)
    with Cons.prems c ms fd show ?thesis by auto
  qed
qed auto

text \<open>
  What a callback does to the log is to add messages; the sockets of the channel and the descriptors
  its handlers know stay.
\<close>

definition log_step :: "query_processor \<Rightarrow> (socket, handler) channel \<Rightarrow> query_processor \<Rightarrow> (socket, handler) channel \<Rightarrow> bool" where
  "log_step q ch q1 ch1 \<longleftrightarrow>
     (\<exists>ms. q1 = fold log_message ms q \<and> (ch_handlers ch = [] \<longrightarrow> ms = [])) \<and>
     map h_fd (ch_handlers ch1) = map h_fd (ch_handlers ch) \<and> ch_left ch1 = ch_left ch \<and> ch_right ch1 = ch_right ch"

lemma log_step_refl: "log_step q ch q (ch\<lparr>ch_buffer := bq\<rparr>)"
  unfolding log_step_def by (auto intro: exI [of _ "[]"])

lemma left_read_log:
  assumes "left_read rd (psql_call heap) fd ch (w, b, q) = Some (x, ch1, (w1, b1, q1), got)"
  shows "log_step q ch q1 ch1"
proof -
  obtain p bq where acq: "write_acquire Channel.BUFF_SZ Channel.CHUNK_SZ (ch_buffer ch) = (p, bq)"
    by (rule prod.exhaust)
  show ?thesis
  proof (cases p)
    case None
    have "q1 = q" "ch1 = ch\<lparr>ch_buffer := bq\<rparr>"
      using assms acq None by (simp_all add: left_read_def)
    then show ?thesis by (simp add: log_step_refl)
  next
    case (Some off)
    obtain result w2 where rd: "rd (ch_left ch) Channel.CHUNK_SZ w = (result, w2)" by (rule prod.exhaust)
    obtain arg q2 b2 hs where h:
      "run_handlers (psql_call heap) arg (ch_handlers ch) (w2, b2, q) = (x, hs, (w1, b1, q1))"
      "ch1 = ch\<lparr>ch_buffer := q2, ch_handlers := hs\<rparr>"
    proof (cases result)
      case (Inl err)
      with assms acq Some rd that show ?thesis by (auto simp: left_read_def split: prod.splits)
    next
      case (Inr res)
      with assms acq Some rd that show ?thesis
        by (cases res) (auto simp: left_read_def split: prod.splits option.splits)
    qed
    from run_handlers_log [OF h(1)] h(2) show ?thesis by (simp add: log_step_def)
  qed
qed

lemma right_write_log:
  "right_write wr fd ch (w, b, q) = Some (ch1, (w1, b1, q1), away) \<Longrightarrow> q1 = q \<and> (\<exists>bq. ch1 = ch\<lparr>ch_buffer := bq\<rparr>)"
  by (auto simp: right_write_def Let_def split: prod.splits option.splits sum.splits if_splits)

abbreviation handle_event where
  "handle_event rd wr call s fd m ch e \<equiv>
     (if s = On_Left then handle_left_io_event rd wr call fd m ch e else handle_right_io_event wr fd m ch e)"

lemma handle_event_log:
  assumes "handle_event rd wr (psql_call heap) s fd m ch (w, b, q) = Some (x, ch1, (w1, b1, q1), got, away)"
  shows "log_step q ch q1 ch1"
proof (cases "s = On_Left \<and> flags_test m flags_in")
  case True
  then obtain y ch2 w2 b2 q2 got2 where l: "left_read rd (psql_call heap) fd ch (w, b, q) = Some (y, ch2, (w2, b2, q2), got2)"
    using assms by (auto simp: handle_left_io_event_def split: option.splits)
  have "q1 = q2 \<and> (\<exists>bq. ch1 = ch2\<lparr>ch_buffer := bq\<rparr>)"
  proof (cases y)
    case None
    with assms True l show ?thesis
      using right_write_log [of wr fd ch2 w2 b2 q2 ch1 w1 b1 q1 away]
      by (auto simp: handle_left_io_event_def split: option.splits)
  next
    case (Some ex)
    with assms True l have "q1 = q2" "ch1 = ch2\<lparr>ch_buffer := ch_buffer ch2\<rparr>"
      by (simp_all add: handle_left_io_event_def)
    then show ?thesis by blast
  qed
  with left_read_log [OF l] show ?thesis by (auto simp: log_step_def)
next
  case False
  have "q1 = q \<and> (\<exists>bq. ch1 = ch\<lparr>ch_buffer := bq\<rparr>)"
  proof (cases "s = On_Left \<or> \<not> flags_test m flags_out")
    case True
    with assms False have "q1 = q" "ch1 = ch\<lparr>ch_buffer := ch_buffer ch\<rparr>"
      by (auto simp: handle_left_io_event_def handle_right_io_event_def split: if_splits)
    then show ?thesis by blast
  next
    case out: False
    with assms right_write_log [of wr fd ch w b q ch1 w1 b1 q1 away] show ?thesis
      by (auto simp: handle_right_io_event_def split: option.splits)
  qed
  then show ?thesis using log_step_refl by blast
qed

section \<open>A new connection\<close>

lemma objects_make_channels:
  "objects w' = objects w \<Longrightarrow> objects (make_channels su l r w') = objects (make_channels su l r w)"
  by (simp add: objects_def make_channels_def Let_def)

lemma objects_attach_handler:
  "objects w' = objects w \<Longrightarrow> objects (attach_handler s w') = objects (attach_handler s w)"
  by (simp add: objects_def attach_handler_def Let_def split: option.split)

lemma connect_target_objects:
  assumes "connect_target sys su fd w = (r, w1)"
  shows "case r of Inl ex \<Rightarrow> objects w1 = objects w | Inr tfd \<Rightarrow> objects w1 = objects (make_channels su fd tfd w)"
proof -
  let ?f = "socket_connect (s_getaddrinfo sys) (s_socket sys) (s_connect sys) (s_close sys) (su_target su)"
  obtain r0 w0 where c: "lift_sys ?f w = (r0, w0)" by (rule prod.exhaust)
  with objects_lift_sys [of ?f w] have "objects w0 = objects w" by simp
  with c assms objects_make_channels [of "make_socket _ w0" w su fd] show ?thesis
    by (cases r0) (auto simp: connect_target_def)
qed

text \<open>
  A connection attempt leaves the objects as they are, or adds the two channels, or adds them and
  attaches a handler to the first one.
\<close>

definition connection_outcome :: "'os settings \<Rightarrow> 'os machine world \<Rightarrow> 'os machine world \<Rightarrow> bool" where
  "connection_outcome su w w' \<longleftrightarrow>
     objects w' = objects w \<or>
     (\<exists>l r. objects w' = objects (make_channels su l r w) \<or>
       (\<exists>s. sess_lr s = next_channel (kernel w) \<and> objects w' = objects (attach_handler s (make_channels su l r w))))"

text \<open>The registrations of a session between \<open>l\<close> and \<open>r\<close>, and how far a connection attempt can get.\<close>

abbreviation session_registrations :: "fd \<Rightarrow> fd \<Rightarrow> nat \<Rightarrow> nat \<Rightarrow> (fd \<times> callback) list" where
  "session_registrations l r i j \<equiv> channel_registrations l r i @ channel_registrations r l j"

abbreviation proxy_session :: "fd \<Rightarrow> fd \<Rightarrow> nat \<Rightarrow> nat \<Rightarrow> session" where
  "proxy_session l r i j \<equiv> \<lparr>sess_fds = [l, r], sess_lr = i, sess_rl = j\<rparr>"

abbreviation start_registrations :: "session \<Rightarrow> (fd \<times> callback) list" where
  "start_registrations s \<equiv> map (\<lambda>fd. (fd, Session_Callback (sess_fds s))) (sess_fds s)"

lemma proxy_new_connection_cases:
  assumes "proxy_new_connection connect unwind finish add i j fd (w, b) = (r, st)"
  obtains (refused) ex w1 where "connect w = (Inl ex, w1)" "st = unwind (w1, b)"
  | (partly) tfd w1 ex st1 where "connect w = (Inr tfd, w1)"
      "register_all add (session_registrations fd tfd i j) (w1, b) = (Some ex, st1)" "st = unwind st1"
  | (made) tfd w1 w2 b2 x st3 where "connect w = (Inr tfd, w1)"
      "register_all add (session_registrations fd tfd i j) (w1, b) = (None, w2, b2)"
      "register_all add (start_registrations (proxy_session fd tfd i j)) (finish (proxy_session fd tfd i j) w2, b2) = (x, st3)"
      "st = (case x of None \<Rightarrow> st3 | Some ex \<Rightarrow> unwind st3)"
proof -
  obtain c w1 where con: "connect w = (c, w1)" by (rule prod.exhaust)
  show thesis
  proof (cases c)
    case (Inl ex)
    with assms con refused show thesis by (simp add: proxy_new_connection_def)
  next
    case (Inr tfd)
    obtain x w2 b2 where reg: "register_all add (session_registrations fd tfd i j) (w1, b) = (x, w2, b2)" by (rule prod_cases3)
    let ?s = "proxy_session fd tfd i j"
    show thesis
    proof (cases x)
      case (Some ex)
      with assms con Inr reg partly show thesis by (simp add: proxy_new_connection_def proxy_session_new_def)
    next
      case None
      obtain y st3 where st3: "register_all add (start_registrations ?s) (finish ?s w2, b2) = (y, st3)" by (rule prod.exhaust)
      with assms con Inr reg None have "st = (case y of None \<Rightarrow> st3 | Some ex \<Rightarrow> unwind st3)"
        by (cases y) (simp_all add: proxy_new_connection_def proxy_session_new_def session_start_def)
      with made con Inr reg None st3 show thesis by simp
    qed
  qed
qed

lemma echo_new_connection_cases:
  assumes "echo_new_connection unwind add i j fd st0 = (r, st)"
  obtains (partly) ex st1 where "register_all add (session_registrations fd fd i j) st0 = (Some ex, st1)" "st = unwind st1"
  | (made) st2 x st3 where "register_all add (session_registrations fd fd i j) st0 = (None, st2)"
      "register_all add [(fd, Session_Callback [fd])] st2 = (x, st3)" "st = (case x of None \<Rightarrow> st3 | Some ex \<Rightarrow> unwind st3)"
proof -
  obtain x st2 where reg: "register_all add (session_registrations fd fd i j) st0 = (x, st2)" by (rule prod.exhaust)
  show thesis
  proof (cases x)
    case (Some ex)
    with assms reg partly show thesis by (simp add: echo_new_connection_def echo_session_new_def)
  next
    case None
    obtain y st3 where st3: "register_all add [(fd, Session_Callback [fd])] st2 = (y, st3)" by (rule prod.exhaust)
    then have "st = (case y of None \<Rightarrow> st3 | Some ex \<Rightarrow> unwind st3)"
      using assms reg None by (cases y) (simp_all add: echo_new_connection_def echo_session_new_def session_start_def)
    with made reg None st3 show thesis by simp
  qed
qed

lemma objects_unwind [simp]:
  "objects (fst (case x of None \<Rightarrow> st | Some ex \<Rightarrow> destroy_objects sys su st)) = objects (fst st)"
  by (cases x) simp_all

lemma proxy_new_connection_outcome:
  assumes "objects w0 = objects w" and "n = next_channel (kernel w)"
    and "\<And>s w. finish s w = w \<or> finish s w = attach_handler s w"
    and "proxy_new_connection (connect_target sys su fd) (destroy_objects sys su) finish (bus_add sys su) n n' fd (w0, b) = (r, st)"
  shows "connection_outcome su w (fst st)"
  using assms(4)
proof (cases rule: proxy_new_connection_cases)
  case (refused ex w1)
  with connect_target_objects [OF refused(1)] assms(1) show ?thesis by (simp add: connection_outcome_def)
next
  case (partly tfd w1 ex st1)
  have "objects w1 = objects (make_channels su fd tfd w)"
    using connect_target_objects [OF partly(1)] objects_make_channels [OF assms(1)] by simp
  then have "objects (fst st) = objects (make_channels su fd tfd w)"
    using objects_register_all [of sys su "session_registrations fd tfd n n'" "(w1, b)"] partly(2,3) by simp
  then show ?thesis unfolding connection_outcome_def by blast
next
  case (made tfd w1 w2 b2 x st3)
  let ?s = "proxy_session fd tfd n n'" and ?w = "make_channels su fd tfd w"
  have "objects w1 = objects ?w"
    using connect_target_objects [OF made(1)] objects_make_channels [OF assms(1)] by simp
  then have 2: "objects w2 = objects ?w"
    using objects_register_all [of sys su "session_registrations fd tfd n n'" "(w1, b)"] made(2) by simp
  have "objects (fst st) = objects (finish ?s w2)"
    using objects_register_all [of sys su "start_registrations ?s" "(finish ?s w2, b2)"] made(3,4) by simp
  then have "objects (fst st) = objects ?w \<or> objects (fst st) = objects (attach_handler ?s ?w)"
    using assms(3) [of ?s w2] objects_attach_handler [OF 2, of ?s] 2 by auto
  moreover have "sess_lr ?s = next_channel (kernel w)" using assms(2) by simp
  ultimately show ?thesis unfolding connection_outcome_def by blast
qed

lemma echo_new_connection_outcome:
  assumes "echo_new_connection (destroy_objects sys su) (bus_add sys su) n n' fd st0 = (r, st)"
  shows "objects (fst st) = objects (fst st0)"
  using assms
proof (cases rule: echo_new_connection_cases)
  case (partly ex st1)
  with objects_register_all [of sys su "session_registrations fd fd n n'" st0] show ?thesis by simp
next
  case (made st2 x st3)
  with objects_register_all [of sys su "session_registrations fd fd n n'" st0]
    objects_register_all [of sys su "[(fd, Session_Callback [fd])]" st2] show ?thesis by simp
qed

lemma new_session_outcome:
  assumes "new_session sys su fd a (w, b) = (x, w', b')"
  shows "connection_outcome su w w'"
proof -
  let ?w0 = "make_socket fd w" and ?n = "next_channel (kernel w)"
  have w0: "objects ?w0 = objects w" "next_channel (kernel ?w0) = ?n" by (simp_all add: make_socket_def)
  show ?thesis
  proof (cases "su_program su")
    case Echo
    obtain r st where e: "echo_new_connection (destroy_objects sys su) (bus_add sys su) ?n (?n + 1) fd
        (make_channels su fd fd ?w0, b) = (r, st)" by (rule prod.exhaust)
    with assms Echo w0 have "st = (w', b')" by (simp add: new_session_def Let_def)
    with e echo_new_connection_outcome [of sys su ?n "?n + 1" fd "(make_channels su fd fd ?w0, b)" r st]
    have "objects w' = objects (make_channels su fd fd w)" using objects_make_channels [OF w0(1)] by simp
    then show ?thesis unfolding connection_outcome_def by blast
  next
    case Tcp_Proxy
    obtain r st where e: "proxy_new_connection (connect_target sys su fd) (destroy_objects sys su) (\<lambda>s w. w)
        (bus_add sys su) ?n (?n + 1) fd (?w0, b) = (r, st)" by (rule prod.exhaust)
    with assms Tcp_Proxy w0 have "st = (w', b')" by (simp add: new_session_def Let_def)
    with e proxy_new_connection_outcome [OF w0(1) refl, of "\<lambda>s w. w" sys su fd "?n + 1" b r st] show ?thesis by simp
  next
    case Psql_Proxy
    obtain r st where e: "proxy_new_connection (connect_target sys su fd) (destroy_objects sys su) attach_handler
        (bus_add sys su) ?n (?n + 1) fd (?w0, b) = (r, st)" by (rule prod.exhaust)
    with assms Psql_Proxy w0 have "st = (w', b')" by (simp add: new_session_def Let_def)
    with e proxy_new_connection_outcome [OF w0(1) refl, of attach_handler sys su fd "?n + 1" b r st] show ?thesis by simp
  qed
qed

lemma connection_outcome_cong:
  assumes "objects w0 = objects w" and "connection_outcome su w0 w'"
  shows "connection_outcome su w w'"
proof -
  have "next_channel (kernel w0) = next_channel (kernel w)" using assms(1) by (simp add: objects_def)
  moreover have "objects (make_channels su l r w0) = objects (make_channels su l r w)" for l r
    by (rule objects_make_channels [OF assms(1)])
  moreover have "objects (attach_handler s (make_channels su l r w0)) = objects (attach_handler s (make_channels su l r w))"
    for s l r by (rule objects_attach_handler, rule objects_make_channels [OF assms(1)])
  ultimately show ?thesis using assms unfolding connection_outcome_def by simp
qed

lemma acceptor_event_outcome:
  assumes "acceptor_event native ntop (\<lambda>fd. lift_sys (s_accept sys fd)) (\<lambda>_. new_session sys su)
      \<lparr>acc_fd = lfd, acc_callbacks = [()]\<rparr> fd m (w, b) = (x, w', b')"
  shows "connection_outcome su w w'"
proof (cases "flags_test m flags_error")
  case True
  with assms show ?thesis by (simp add: acceptor_event_def accept_new_client_def connection_outcome_def)
next
  case False
  obtain conn sa w1 where acc: "lift_sys (s_accept sys lfd) w = ((conn, sa), w1)" by (metis surj_pair)
  with objects_lift_sys [of "s_accept sys lfd" w] have 1: "objects w1 = objects w" by simp
  let ?b = "enqueue_event fd flags_in b" and ?a = "peer_address native ntop sa"
  show ?thesis
  proof (cases "0 < conn")
    case pos: True
    obtain y w2 b2 where n: "new_session sys su conn ?a (w1, ?b) = (y, w2, b2)" by (rule prod_cases3)
    with assms False acc pos have "w' = w2"
      by (cases y) (simp_all add: acceptor_event_def accept_new_client_def make_v4_eq)
    with new_session_outcome [OF n] 1 show ?thesis by (blast intro: connection_outcome_cong)
  next
    case neg: False
    have "w' = w1"
      using assms False acc neg
      by (auto simp: acceptor_event_def accept_new_client_def make_v4_eq Let_def split: if_splits)
    with 1 show ?thesis by (simp add: connection_outcome_def)
  qed
qed

section \<open>Invariants of a program\<close>

text \<open>
  To show that a property of the objects holds in every reachable state it is enough to look at a new
  connection, a callback of a channel and the loop body of the writer thread.
\<close>

locale program_invariant =
  fixes sys :: "'os sys" and su :: "'os settings" and holds :: "'os machine world \<Rightarrow> bool"
  assumes cong: "objects w' = objects w \<Longrightarrow> holds w' = holds w"
    and connection: "holds w \<Longrightarrow> holds (make_channels su l r w)"
    and handler: "holds w \<Longrightarrow> sess_lr s = next_channel (kernel w) \<Longrightarrow> holds (attach_handler s (make_channels su l r w))"
    and channel: "holds w \<Longrightarrow> holds (fst (snd (channel_event sys su side i fd m (w, b))))"
    and writer_body: "holds w \<Longrightarrow> \<exists>fw. writer_body rd (writer (kernel w)) = Some fw \<and>
      holds (w\<lparr>kernel := (kernel w)\<lparr>writer := fw\<rparr>\<rparr>)"
begin

lemma outcome: "connection_outcome su w w' \<Longrightarrow> holds w \<Longrightarrow> holds w'"
  using cong connection handler unfolding connection_outcome_def by blast

lemma call: "holds (fst st) \<Longrightarrow> holds (fst (snd (program_invoke sys su cb fd m st)))"
proof -
  assume h: "holds (fst st)"
  obtain w b where st: "st = (w, b)" by (cases st)
  show ?thesis
  proof (cases cb)
    case (Channel_Callback s i)
    with channel h st show ?thesis by (simp add: program_invoke_def)
  next
    case (Session_Callback fds)
    with h st show ?thesis by (simp add: program_invoke_def session_event_def)
  next
    case Acceptor_Callback
    obtain x w' b' where r: "program_invoke sys su cb fd m (w, b) = (x, w', b')" by (rule prod_cases3)
    then have "connection_outcome su w w'"
      using Acceptor_Callback acceptor_event_outcome by (simp add: program_invoke_def)
    with outcome h st r show ?thesis by simp
  qed
qed

lemma step: "program_step sys su st st' \<Longrightarrow> holds (fst st) \<Longrightarrow> holds (fst st')"
proof (induction rule: program_step.induct)
  case (step_clean st)
  then show ?case using cong [OF objects_clean_up] by blast
next
  case (step_wait w b e n t)
  then show ?case using cong [of "snd (lift_sys (s_wait sys e n t) (w\<lparr>errno := 0\<rparr>))" w] by simp
next
  case (step_writer rd w fw b)
  then show ?case using writer_body [of w rd] by auto
next
  case (step_writer_assert rd w b)
  then show ?case using writer_body [of w rd] by auto
qed (simp_all add: call)

lemma steps: "(program_step sys su)\<^sup>*\<^sup>* st st' \<Longrightarrow> holds (fst st) \<Longrightarrow> holds (fst st')"
  by (induction rule: rtranclp_induct) (auto intro: step)

end

section \<open>Traffic\<close>

text \<open>
  No assertion has failed, the log is in order, and every channel has sent what it received, up to
  what it still holds; numbers not given out yet belong to no channel.
\<close>

definition channel_ok :: "'os machine \<Rightarrow> nat \<Rightarrow> bool" where
  "channel_ok k i \<longleftrightarrow>
     (channels k i = None \<longrightarrow> got_bytes k i = [] \<and> put_bytes k i = []) \<and>
     (\<forall>ch. channels k i = Some ch \<longrightarrow>
        i < next_channel k \<and> channel_inv ch \<and> got_bytes k i = put_bytes k i @ ch_pending ch)"

definition traffic_ok :: "'os machine world \<Rightarrow> bool" where
  "traffic_ok w \<longleftrightarrow> \<not> failed_assert (kernel w) \<and> qp_inv (fw_processor (writer (kernel w))) \<and>
     (\<forall>i. channel_ok (kernel w) i)"

lemma channel_ok_fresh:
  "channel_ok k i \<Longrightarrow> next_channel k \<le> i \<Longrightarrow> channels k i = None \<and> got_bytes k i = [] \<and> put_bytes k i = []"
  by (cases "channels k i") (simp_all add: channel_ok_def)

lemma traffic_cong: "objects w' = objects w \<Longrightarrow> traffic_ok w' = traffic_ok w"
  by (simp add: objects_def traffic_ok_def channel_ok_def)

lemma handle_event_ok:
  assumes "channel_inv ch"
  shows "\<exists>x ch1 e1 got away. handle_event (async_read_some recv) (async_write_some send) call s fd m ch e =
      Some (x, ch1, e1, got, away) \<and> channel_inv ch1 \<and> ch_pending ch @ got = away @ ch_pending ch1"
  using sock.handle_left_ok [OF assms, of recv send call fd m e]
    sock.handle_right_ok [OF assms, of send fd m e] by (cases "s = On_Left") fastforce+

lemma fold_log_message_inv: "qp_inv q \<Longrightarrow> qp_inv (fold log_message ms q)"
  using fold_log_message [of q ms] by simp

lemma traffic_make_channels:
  assumes "traffic_ok w" shows "traffic_ok (make_channels su l r w)"
proof -
  let ?n = "next_channel (kernel w)"
  have ok: "channel_ok (kernel w) i" for i using assms by (simp add: traffic_ok_def)
  note fresh = channel_ok_fresh [OF ok]
  have "channel_ok (kernel (make_channels su l r w)) i" for i
    using ok [of i] fresh [of ?n] fresh [of "?n + 1"]
    by (auto simp: channel_ok_def make_channels_def Let_def)
  with assms show ?thesis by (simp add: traffic_ok_def make_channels_def Let_def)
qed

lemma attach_handler_simps [simp]:
  "next_channel (kernel (attach_handler s w)) = next_channel (kernel w)"
  "writer (kernel (attach_handler s w)) = writer (kernel w)"
  "failed_assert (kernel (attach_handler s w)) = failed_assert (kernel w)"
  "got_bytes (kernel (attach_handler s w)) = got_bytes (kernel w)"
  "put_bytes (kernel (attach_handler s w)) = put_bytes (kernel w)"
  by (simp_all add: attach_handler_def Let_def split: option.split)

lemma channels_attach_handler:
  "channels (kernel (attach_handler s w)) i =
     (if i = sess_lr s then map_option (\<lambda>ch. add_handler (handler_new (sock_fd (ch_left ch))) ch) (channels (kernel w) i)
      else channels (kernel w) i)"
  by (auto simp: attach_handler_def Let_def split: option.split)

lemma add_handler_simps [simp]:
  "channel_inv (add_handler h ch) = channel_inv ch" "ch_pending (add_handler h ch) = ch_pending ch"
  "ch_handlers (add_handler h ch) = ch_handlers ch @ [h]"
  "ch_left (add_handler h ch) = ch_left ch" "ch_right (add_handler h ch) = ch_right ch"
  by (simp_all add: add_handler_def channel_inv_def ch_pending_def)

lemma traffic_attach_handler: "traffic_ok w \<Longrightarrow> traffic_ok (attach_handler s w)"
  by (auto simp: traffic_ok_def channel_ok_def channels_attach_handler split: if_splits)

lemma traffic_channel_event:
  assumes "traffic_ok w" shows "traffic_ok (fst (snd (channel_event sys su s i fd m (w, b))))"
proof (cases "channels (kernel w) i")
  case None
  with assms show ?thesis by (simp add: channel_event_def)
next
  case (Some ch)
  let ?e = "(os_world w, b, fw_processor (writer (kernel w)))"
  from assms have facts: "channel_inv ch" "got_bytes (kernel w) i = put_bytes (kernel w) i @ ch_pending ch"
    "i < next_channel (kernel w)" "qp_inv (fw_processor (writer (kernel w)))"
    using Some by (auto simp: traffic_ok_def channel_ok_def)
  obtain x ch1 e1 got away where ev: "handle_event (async_read_some (s_recv sys)) (async_write_some (s_send sys))
      (psql_call (su_heap su)) s fd m ch ?e = Some (x, ch1, e1, got, away)" "channel_inv ch1"
    "ch_pending ch @ got = away @ ch_pending ch1"
    using handle_event_ok [OF facts(1)] by blast
  obtain w1 b1 q1 where e1: "e1 = (w1, b1, q1)" by (rule prod_cases3)
  from handle_event_log [OF ev(1) [unfolded e1]] facts(4) have "qp_inv q1" by (auto simp: log_step_def intro: fold_log_message_inv)
  with assms ev(2) facts(3) Some ev(3) facts(2) show ?thesis
    by (simp add: channel_event_def e1 ev(1) [unfolded e1] traffic_ok_def channel_ok_def Let_def with_os_def)
qed

lemma traffic_writer_body:
  assumes "traffic_ok w"
  shows "\<exists>fw. writer_body rd (writer (kernel w)) = Some fw \<and> traffic_ok (w\<lparr>kernel := (kernel w)\<lparr>writer := fw\<rparr>\<rparr>)"
proof -
  have "qp_inv (fw_processor (writer (kernel w)))" using assms by (simp add: traffic_ok_def)
  from writer_body_output [OF this, of rd] assms show ?thesis by (auto simp: traffic_ok_def channel_ok_def)
qed

interpretation traffic: program_invariant sys su traffic_ok for sys su
proof
  show "traffic_ok w' = traffic_ok w" if "objects w' = objects w" for w w' :: "'a machine world"
    by (rule traffic_cong [OF that])
qed (auto intro: traffic_make_channels traffic_attach_handler traffic_channel_event traffic_writer_body)

end
