(* ===== verification/Program_Log.thy ===== *)
theory Program_Log
  imports Program_Safe
begin

text \<open>
  The query log of the whole program: with any number of sessions, and the writer thread running
  between their callbacks, the state of the log and the file is what adding messages and running the
  writer makes of the empty log, in some order in which the messages of each channel are the
  queries that its handler found in the stream of its client.
\<close>

section \<open>One callback of a channel with a handler\<close>

lemma handle_event_run:
  "handle_event rd wr call s fd m ch e = Some (x, ch1, e1, got, away) \<Longrightarrow>
   channel_run rd wr call [(s, fd, m, id)] ch e = Some (ch1, e1, got, away)"
  by (cases "s = On_Left") simp_all

lemma handle_event_psql:
  assumes "handle_event rd wr (psql_call heap) s fd m ch (w, b, q) = Some (x, ch1, (w1, b1, q1), got, away)"
    and "ch_handlers ch = [h]"
    and "drain (h_fd h) (first_msg_handled h) (h_buffer h) = (None, first_msg_handled h, h_buffer h, [])"
    and "drain (h_fd h) (first_msg_handled h) (h_buffer h @ got) = (None, f, r, cs)"
  shows "ch_handlers ch1 = [h\<lparr>first_msg_handled := f, h_buffer := r\<rparr>] \<and> q1 = fold log_message (messages cs) q"
  by (rule channel_run_psql [OF handle_event_run [OF assms(1)] _ assms(2-4)]) (simp add: log_untouched_def)

text \<open>
  The messages a channel has logged: none without a handler; with one, those of the calls found in
  the bytes received, unless reading them throws.
\<close>

definition logged_by :: "'os machine \<Rightarrow> nat \<Rightarrow> byte list list \<Rightarrow> bool" where
  "logged_by k i ms \<longleftrightarrow>
     (channels k i = None \<longrightarrow> ms = []) \<and>
     (\<forall>ch. channels k i = Some ch \<longrightarrow>
        (ch_handlers ch = [] \<and> ms = []) \<or>
        (\<exists>h. ch_handlers ch = [h] \<and>
           (\<forall>f r cs. drain (h_fd h) False (got_bytes k i) = (None, f, r, cs) \<longrightarrow>
              first_msg_handled h = f \<and> h_buffer h = r \<and> ms = messages cs)))"

lemma handle_event_logged:
  fixes ch :: "(socket, handler) channel"
  assumes "handle_event rd wr (psql_call heap) s fd m ch (w, b, q) = Some (x, ch1, (w1, b1, q1), got, away)"
    and "ch_handlers ch = [h]"
    and "\<And>f r cs. drain (h_fd h) False G = (None, f, r, cs) \<Longrightarrow> first_msg_handled h = f \<and> h_buffer h = r \<and> ms = messages cs"
  shows "\<exists>h1 new. ch_handlers ch1 = [h1] \<and> h_fd h1 = h_fd h \<and> q1 = fold log_message new q \<and>
    (\<forall>f r cs. drain (h_fd h) False (G @ got) = (None, f, r, cs) \<longrightarrow>
       first_msg_handled h1 = f \<and> h_buffer h1 = r \<and> ms @ new = messages cs)"
proof -
  note log = handle_event_log [OF assms(1), unfolded log_step_def assms(2)]
  then obtain h1 where h1: "ch_handlers ch1 = [h1]" "h_fd h1 = h_fd h" by (auto simp: map_eq_Cons_conv)
  obtain y f r cs where d: "drain (h_fd h) False (G @ got) = (y, f, r, cs)" by (metis surj_pair)
  show ?thesis
  proof (cases y)
    case (Some ex)
    with log d h1 show ?thesis by auto
  next
    case None
    obtain f1 r1 cs1 cs2 where p: "drain (h_fd h) False G = (None, f1, r1, cs1)"
      "drain (h_fd h) f1 (r1 @ got) = (None, f, r, cs2)" "cs = cs1 @ cs2"
      by (rule drain_prefix [OF d [unfolded None]])
    from assms(3) [OF p(1)] have h: "first_msg_handled h = f1" "h_buffer h = r1" "ms = messages cs1" by simp_all
    have "ch_handlers ch1 = [h\<lparr>first_msg_handled := f, h_buffer := r\<rparr>]" "q1 = fold log_message (messages cs2) q"
      using handle_event_psql [OF assms(1,2), of f r cs2] drain_stable [OF p(1)] p(2) h by simp_all
    with h1 h(3) d None p(3) show ?thesis
      by (intro exI [of _ "h\<lparr>first_msg_handled := f, h_buffer := r\<rparr>"] exI [of _ "messages cs2"]) simp
  qed
qed

section \<open>The log of the program\<close>

text \<open>What happens to the log: channel \<open>i\<close> adds a message, or the writer thread runs its loop body.\<close>

datatype log_action = Log nat "byte list" | Write writer_round

fun log_act :: "log_action \<Rightarrow> file_writer \<Rightarrow> file_writer" where
  "log_act (Log i m) fw = fw\<lparr>fw_processor := log_message m (fw_processor fw)\<rparr>"
| "log_act (Write rd) fw = (case writer_body rd fw of None \<Rightarrow> fw | Some fw' \<Rightarrow> fw')"

abbreviation log_run :: "log_action list \<Rightarrow> file_writer \<Rightarrow> file_writer" where
  "log_run acts \<equiv> fold log_act acts"

text \<open>The messages added by channel \<open>i\<close>, and by all channels.\<close>

fun messages_of :: "nat \<Rightarrow> log_action list \<Rightarrow> byte list list" where
  "messages_of i [] = []"
| "messages_of i (Log j m # acts) = (if j = i then m # messages_of i acts else messages_of i acts)"
| "messages_of i (Write rd # acts) = messages_of i acts"

fun all_messages :: "log_action list \<Rightarrow> byte list list" where
  "all_messages [] = []"
| "all_messages (Log j m # acts) = m # all_messages acts"
| "all_messages (Write rd # acts) = all_messages acts"

lemma messages_of_append [simp]: "messages_of i (a @ b) = messages_of i a @ messages_of i b"
  by (induction i a rule: messages_of.induct) simp_all

lemma messages_of_map_Log [simp]: "messages_of i (map (Log j) ms) = (if j = i then ms else [])"
  by (cases "j = i"; induction ms) simp_all

lemma log_run_map_Log:
  "log_run (map (Log i) ms) fw = fw\<lparr>fw_processor := fold log_message ms (fw_processor fw)\<rparr>"
  by (induction ms arbitrary: fw) simp_all

lemma log_pieces_append [simp]: "log_pieces sep (a @ b) = log_pieces sep a @ log_pieces sep b"
  by (simp add: log_pieces_def)

lemma log_message_output:
  assumes "qp_inv q"
  shows "\<exists>ps. subseq ps (log_pieces (separator q) [m]) \<and> qp_log (log_message m q) = qp_log q @ concat ps \<and>
    separator (log_message m q) = separator q"
  using add_messages_log [OF assms, of "[m]"] fold_log_message [OF assms, of "[m]"] by auto

text \<open>What is put out and still held is made of whole pieces of the messages, in their order.\<close>

lemma log_run_output:
  assumes "qp_inv (fw_processor fw)"
  shows "\<exists>ps. fw_output (log_run acts fw) = fw_output fw @ concat ps \<and>
    subseq ps (log_pieces (separator (fw_processor fw)) (all_messages acts))"
  using assms
proof (induction acts arbitrary: fw)
  case Nil
  show ?case by (intro exI [of _ "[]"]) simp
next
  case (Cons a acts)
  show ?case
  proof (cases a)
    case (Log i m)
    let ?q = "fw_processor fw" and ?fw = "log_act (Log i m) fw"
    have "qp_inv (log_message m ?q)" using fold_log_message_inv [OF Cons.prems, of "[m]"] by simp
    moreover obtain ps where ps: "subseq ps (log_pieces (separator ?q) [m])" "qp_log (log_message m ?q) = qp_log ?q @ concat ps"
      "separator (log_message m ?q) = separator ?q" using log_message_output [OF Cons.prems, of m] by blast
    moreover have "fw_processor ?fw = log_message m ?q" by simp
    ultimately obtain ps2 where "fw_output (log_run acts ?fw) = fw_output ?fw @ concat ps2"
      "subseq ps2 (log_pieces (separator ?q) (all_messages acts))" using Cons.IH [of ?fw] by metis
    moreover have "fw_output ?fw = fw_output fw @ concat ps" using ps(2) by (simp add: fw_output_def)
    moreover have "log_pieces (separator ?q) (all_messages (a # acts)) =
        log_pieces (separator ?q) [m] @ log_pieces (separator ?q) (all_messages acts)"
      unfolding Log by (simp add: log_pieces_def)
    moreover have "log_run (a # acts) fw = log_run acts ?fw" by (simp add: Log)
    ultimately have "fw_output (log_run (a # acts) fw) = fw_output fw @ concat (ps @ ps2)"
      "subseq (ps @ ps2) (log_pieces (separator ?q) (all_messages (a # acts)))"
      using list_emb_append_mono [OF ps(1), of ps2] by simp_all
    then show ?thesis by blast
  next
    case (Write rd)
    obtain fw' where fw': "writer_body rd fw = Some fw'" "qp_inv (fw_processor fw')"
      "separator (fw_processor fw') = separator (fw_processor fw)" "fw_output fw' = fw_output fw"
      using writer_body_output [OF Cons.prems, of rd] by blast
    with Cons.IH [of fw'] Write show ?thesis by simp
  qed
qed

text \<open>\<open>acts\<close> is what has happened to the log \<open>q\<close> of the start.\<close>

definition log_ok :: "query_processor \<Rightarrow> 'os machine world \<Rightarrow> bool" where
  "log_ok q w \<longleftrightarrow> traffic_ok w \<and>
     (\<exists>acts. writer (kernel w) = log_run acts (fw_new q) \<and> (\<forall>i. logged_by (kernel w) i (messages_of i acts)))"

lemma log_cong: "objects w' = objects w \<Longrightarrow> log_ok q w' = log_ok q w"
  using traffic_cong [of w' w] by (simp add: objects_def log_ok_def logged_by_def)

lemma logged_by_fresh:
  assumes "traffic_ok w" and "next_channel (kernel w) \<le> i" and "logged_by (kernel w) i ms" shows "ms = []"
  using channel_ok_fresh [of "kernel w" i] assms by (auto simp: traffic_ok_def logged_by_def)

lemma log_make_channels:
  assumes "log_ok q w" shows "log_ok q (make_channels su l r w)"
proof -
  let ?n = "next_channel (kernel w)" and ?k' = "kernel (make_channels su l r w)"
  from assms obtain acts where l: "traffic_ok w" "writer (kernel w) = log_run acts (fw_new q)"
    "\<And>i. logged_by (kernel w) i (messages_of i acts)" unfolding log_ok_def by blast
  have "logged_by ?k' i (messages_of i acts)" for i
  proof (cases "i = ?n \<or> i = ?n + 1")
    case True
    then have "messages_of i acts = []" using logged_by_fresh [OF l(1) _ l(3) [of i]] by auto
    with True show ?thesis by (auto simp: logged_by_def make_channels_def Let_def channel_new_def)
  next
    case False
    with l(3) [of i] show ?thesis by (simp add: logged_by_def make_channels_def Let_def)
  qed
  moreover have "writer ?k' = writer (kernel w)" by (simp add: make_channels_def Let_def)
  ultimately show ?thesis
    using l(2) traffic_make_channels [OF l(1)] unfolding log_ok_def by auto
qed

lemma log_attach_handler:
  assumes "log_ok q w" and "sess_lr s = next_channel (kernel w)"
  shows "log_ok q (attach_handler s (make_channels su l r w))"
proof -
  let ?n = "next_channel (kernel w)" and ?w1 = "make_channels su l r w"
  let ?k' = "kernel (attach_handler s ?w1)"
  from log_make_channels [OF assms(1)] obtain acts where
    l: "traffic_ok ?w1" "writer (kernel ?w1) = log_run acts (fw_new q)"
    "\<And>i. logged_by (kernel ?w1) i (messages_of i acts)" unfolding log_ok_def by blast
  have ch: "channels (kernel ?w1) ?n = Some (channel_new (su_mem su) \<lparr>sock_fd = l\<rparr> \<lparr>sock_fd = r\<rparr>)"
    by (simp add: make_channels_def Let_def)
  have got: "got_bytes (kernel ?w1) ?n = []"
    using channel_ok_fresh [of "kernel w" ?n] assms(1)
    by (simp add: make_channels_def Let_def log_ok_def traffic_ok_def)
  have "logged_by ?k' i (messages_of i acts)" for i
  proof (cases "i = ?n")
    case True
    with l(3) [of ?n] ch have "messages_of ?n acts = []" by (auto simp: logged_by_def channel_new_def)
    with True ch got assms(2) show ?thesis
      by (simp add: logged_by_def channels_attach_handler channel_new_def handler_new_def)
  next
    case False
    with l(3) [of i] assms(2) show ?thesis by (simp add: logged_by_def channels_attach_handler)
  qed
  with l(2) traffic_attach_handler [OF l(1), of s] show ?thesis unfolding log_ok_def by auto
qed

lemma log_channel_event:
  assumes "log_ok q w" shows "log_ok q (fst (snd (channel_event sys su s i fd m (w, b))))"
proof (cases "channels (kernel w) i")
  case None
  with assms show ?thesis by (simp add: channel_event_def)
next
  case (Some ch)
  let ?k = "kernel w"
  let ?q = "fw_processor (writer ?k)"
  from assms obtain acts where l: "traffic_ok w" "writer ?k = log_run acts (fw_new q)"
    "\<And>i. logged_by ?k i (messages_of i acts)" unfolding log_ok_def by blast
  have inv: "channel_inv ch" using l(1) Some by (auto simp: traffic_ok_def channel_ok_def)
  obtain x ch1 e1 got away where ev: "handle_event (async_read_some (s_recv sys)) (async_write_some (s_send sys))
      (psql_call (su_heap su)) s fd m ch (os_world w, b, ?q) = Some (x, ch1, e1, got, away)"
    using handle_event_ok [OF inv] by blast
  obtain w1 b1 q1 where e1: "e1 = (w1, b1, q1)" by (rule prod_cases3)
  note ev1 = ev [unfolded e1]
  have "\<exists>new. q1 = fold log_message new ?q \<and>
      ((ch_handlers ch1 = [] \<and> messages_of i acts @ new = []) \<or>
       (\<exists>h1. ch_handlers ch1 = [h1] \<and> (\<forall>f r cs. drain (h_fd h1) False (got_bytes ?k i @ got) = (None, f, r, cs) \<longrightarrow>
          first_msg_handled h1 = f \<and> h_buffer h1 = r \<and> messages_of i acts @ new = messages cs)))"
  proof (cases "ch_handlers ch = []")
    case True
    with l(3) [of i] Some have "messages_of i acts = []" by (auto simp: logged_by_def)
    with True handle_event_log [OF ev1] show ?thesis by (auto simp: log_step_def)
  next
    case False
    with l(3) [of i] Some obtain h where h: "ch_handlers ch = [h]"
      "\<And>f r cs. drain (h_fd h) False (got_bytes ?k i) = (None, f, r, cs) \<Longrightarrow>
         first_msg_handled h = f \<and> h_buffer h = r \<and> messages_of i acts = messages cs"
      by (auto simp: logged_by_def)
    obtain h1 new where 1: "ch_handlers ch1 = [h1]" "h_fd h1 = h_fd h" "q1 = fold log_message new ?q"
      "\<forall>f r cs. drain (h_fd h) False (got_bytes ?k i @ got) = (None, f, r, cs) \<longrightarrow>
         first_msg_handled h1 = f \<and> h_buffer h1 = r \<and> messages_of i acts @ new = messages cs"
      using handle_event_logged [OF ev1 h] by blast
    then show ?thesis by (intro exI [of _ new] conjI disjI2 exI [of _ h1]) simp_all
  qed
  then obtain new where new: "q1 = fold log_message new ?q"
    "(ch_handlers ch1 = [] \<and> messages_of i acts @ new = []) \<or>
       (\<exists>h1. ch_handlers ch1 = [h1] \<and> (\<forall>f r cs. drain (h_fd h1) False (got_bytes ?k i @ got) = (None, f, r, cs) \<longrightarrow>
          first_msg_handled h1 = f \<and> h_buffer h1 = r \<and> messages_of i acts @ new = messages cs))" by blast
  let ?acts = "acts @ map (Log i) new" and ?w' = "fst (snd (channel_event sys su s i fd m (w, b)))"
  have k': "writer (kernel ?w') = (writer ?k)\<lparr>fw_processor := q1\<rparr>" "channels (kernel ?w') = (channels ?k)(i \<mapsto> ch1)"
    "got_bytes (kernel ?w') = (got_bytes ?k)(i := got_bytes ?k i @ got)"
    using Some ev1 by (simp_all add: channel_event_def with_os_def e1 Let_def)
  have "writer (kernel ?w') = log_run ?acts (fw_new q)"
    using l(2) new(1) by (simp add: k' log_run_map_Log)
  moreover have "logged_by (kernel ?w') j (messages_of j ?acts)" for j
  proof (cases "j = i")
    case True
    with new(2) k' show ?thesis by (auto simp: logged_by_def)
  next
    case False
    with l(3) [of j] k' show ?thesis by (simp add: logged_by_def)
  qed
  ultimately show ?thesis
    using traffic_channel_event [OF l(1)] unfolding log_ok_def by blast
qed

lemma log_writer_body:
  assumes "log_ok q w"
  shows "\<exists>fw. writer_body rd (writer (kernel w)) = Some fw \<and> log_ok q (w\<lparr>kernel := (kernel w)\<lparr>writer := fw\<rparr>\<rparr>)"
proof -
  from assms obtain acts where l: "traffic_ok w" "writer (kernel w) = log_run acts (fw_new q)"
    "\<And>i. logged_by (kernel w) i (messages_of i acts)" unfolding log_ok_def by blast
  obtain fw where fw: "writer_body rd (writer (kernel w)) = Some fw" "traffic_ok (w\<lparr>kernel := (kernel w)\<lparr>writer := fw\<rparr>\<rparr>)"
    using traffic_writer_body [OF l(1), of rd] by blast
  moreover have "fw = log_run (acts @ [Write rd]) (fw_new q)" using fw(1) l(2) by simp
  moreover have "logged_by (kernel (w\<lparr>kernel := (kernel w)\<lparr>writer := fw\<rparr>\<rparr>)) i (messages_of i (acts @ [Write rd]))" for i
    using l(3) [of i] by (simp add: logged_by_def)
  ultimately show ?thesis
    unfolding log_ok_def by (intro exI [of _ fw] conjI exI [of _ "acts @ [Write rd]"]) simp_all
qed

interpretation log: program_invariant sys su "log_ok q" for sys su q
proof
  show "log_ok q w' = log_ok q w" if "objects w' = objects w" for w w' :: "'a machine world" and q
    by (rule log_cong [OF that])
qed (auto intro: log_make_channels log_attach_handler log_channel_event log_writer_body)

end
