(* ===== verification/Program_Types.thy ===== *)
theory Program_Types
  imports Program_Safe
begin

text \<open>
  The registrations of a program: callbacks of channels and handlers leave them alone, every
  callback fits the descriptor it is registered for, an event reaches only the objects registered
  for its descriptor, and an error event closes both sockets of a session.
\<close>

section \<open>Callbacks of channels keep the registrations\<close>

definition same_registrations :: "'cb bus \<Rightarrow> 'cb bus \<Rightarrow> bool" where
  "same_registrations b b1 \<longleftrightarrow>
     callback_map b1 = callback_map b \<and> callbacks_to_remove b1 = callbacks_to_remove b"

lemma same_registrations_simps [simp]:
  "same_registrations b b" "same_registrations b (enqueue_event fd fl b)"
  by (simp_all add: same_registrations_def enqueue_event_def)

lemma same_registrations_trans [trans]:
  "same_registrations a b \<Longrightarrow> same_registrations b c \<Longrightarrow> same_registrations a c"
  by (simp add: same_registrations_def)

lemma fold_perform_registrations:
  "fold perform cs (w, b, q) = (w1, b1, q1) \<Longrightarrow> same_registrations b b1"
proof (induction cs arbitrary: w b q)
  case (Cons c cs)
  then show ?case
    by (cases c) (auto intro: same_registrations_trans [OF same_registrations_simps(2)])
qed simp

lemma psql_call_registrations:
  assumes "psql_call heap arg h (w, b, q) = (x, h1, (w1, b1, q1))" shows "same_registrations b b1"
proof -
  let ?res = "case arg of Inl err \<Rightarrow> Inl err | Inr (rfd, p, len) \<Rightarrow> Inr (p, len)"
  obtain ex h' cs where c: "handler_call heap ?res h = (ex, h', cs)" by (rule prod_cases3)
  with assms have "fold perform cs (w, b, q) = (w1, b1, q1)" by (simp add: psql_call_def)
  then show ?thesis by (rule fold_perform_registrations)
qed

lemma run_handlers_registrations:
  "run_handlers (psql_call heap) arg hs (w, b, q) = (x, hs1, (w1, b1, q1)) \<Longrightarrow> same_registrations b b1"
proof (induction hs arbitrary: w b q hs1)
  case (Cons h hs)
  obtain y h2 w2 b2 q2 where c: "psql_call heap arg h (w, b, q) = (y, h2, w2, b2, q2)" by (metis surj_pair)
  note s = psql_call_registrations [OF c]
  obtain z hs3 w3 b3 q3 where r: "run_handlers (psql_call heap) arg hs (w2, b2, q2) = (z, hs3, (w3, b3, q3))"
    by (metis surj_pair)
  show ?case
  proof (cases y)
    case None
    with Cons.prems c r have "z = x" "b3 = b1" "(w3, b3, q3) = (w1, b1, q1)" by simp_all
    with Cons.IH [of w2 b2 q2 hs3] r s show ?thesis by (auto intro: same_registrations_trans)
  next
    case (Some ex)
    with Cons.prems c s show ?thesis by simp
  qed
qed simp

lemma left_read_registrations:
  assumes "left_read rd (psql_call heap) fd ch (w, b, q) = Some (x, ch1, (w1, b1, q1), got)"
  shows "same_registrations b b1"
proof -
  obtain p bq where acq: "write_acquire Channel.BUFF_SZ Channel.CHUNK_SZ (ch_buffer ch) = (p, bq)"
    by (rule prod.exhaust)
  show ?thesis
  proof (cases p)
    case None
    with assms acq show ?thesis by (simp add: left_read_def)
  next
    case (Some off)
    obtain result w2 where rd: "rd (ch_left ch) Channel.CHUNK_SZ w = (result, w2)" by (rule prod.exhaust)
    show ?thesis
    proof (cases result)
      case (Inl err)
      let ?b = "enqueue_event fd flags_error b"
      obtain y hs w3 b3 q3 where r: "run_handlers (psql_call heap) (Inl err) (ch_handlers ch) (w2, ?b, q) =
          (y, hs, (w3, b3, q3))" by (metis surj_pair)
      with assms acq Some rd Inl have "b3 = b1" by (simp add: left_read_def)
      with run_handlers_registrations [OF r] same_registrations_trans [OF same_registrations_simps(2)]
      show ?thesis by blast
    next
      case (Inr res)
      obtain rfd bs where res: "res = (rfd, bs)" by (cases res)
      then obtain q2 where rel: "write_release Channel.BUFF_SZ (length bs) (bip_fill off bs bq) = Some q2"
        using assms acq Some rd Inr
        by (cases "write_release Channel.BUFF_SZ (length bs) (bip_fill off bs bq)") (simp_all add: left_read_def)
      obtain y hs w3 b3 q3 where r: "run_handlers (psql_call heap) (Inr (rfd, ptr_next (bip_data q2) off, length bs))
          (ch_handlers ch) (w2, b, q) = (y, hs, (w3, b3, q3))" by (metis surj_pair)
      with assms acq Some rd Inr res rel have "b3 = b1" by (simp add: left_read_def)
      with run_handlers_registrations [OF r] show ?thesis by blast
    qed
  qed
qed

lemma right_write_registrations:
  "right_write wr fd ch (w, b, q) = Some (ch1, (w1, b1, q1), away) \<Longrightarrow> same_registrations b b1"
  by (auto simp: right_write_def Let_def split: prod.splits option.splits sum.splits if_splits)

lemma handle_event_registrations:
  assumes "handle_event rd wr (psql_call heap) s fd m ch (w, b, q) = Some (x, ch1, (w1, b1, q1), got, away)"
  shows "same_registrations b b1"
proof (cases "s = On_Left \<and> flags_test m flags_in")
  case True
  then obtain y ch2 w2 b2 q2 got2 where l: "left_read rd (psql_call heap) fd ch (w, b, q) = Some (y, ch2, (w2, b2, q2), got2)"
    using assms by (auto simp: handle_left_io_event_def split: option.splits)
  have "same_registrations b2 b1"
  proof (cases y)
    case None
    with assms True l show ?thesis
      using right_write_registrations [of wr fd ch2 w2 b2 q2 ch1 w1 b1 q1 away]
      by (auto simp: handle_left_io_event_def split: option.splits)
  next
    case (Some ex)
    with assms True l show ?thesis by (simp add: handle_left_io_event_def)
  qed
  with left_read_registrations [OF l] show ?thesis by (rule same_registrations_trans)
next
  case False
  with assms right_write_registrations [of wr fd ch w b q ch1 w1 b1 q1 away] show ?thesis
    by (auto simp: handle_left_io_event_def handle_right_io_event_def split: option.splits if_splits)
qed

section \<open>Well-typed registrations\<close>

text \<open>The two descriptors of a channel, and what a callback registered for \<open>fd\<close> has to be.\<close>

definition endpoints :: "'os machine world \<Rightarrow> nat \<Rightarrow> (fd \<times> fd) option" where
  "endpoints w i = map_option (\<lambda>ch. (sock_fd (ch_left ch), sock_fd (ch_right ch))) (channels (kernel w) i)"

definition fits :: "fd \<Rightarrow> (nat \<Rightarrow> (fd \<times> fd) option) \<Rightarrow> fd \<Rightarrow> callback \<Rightarrow> bool" where
  "fits lfd ends fd cb =
     (case cb of
        Channel_Callback s i \<Rightarrow>
          (case ends i of None \<Rightarrow> False | Some (l, r) \<Rightarrow> fd = (if s = On_Left then l else r))
      | Session_Callback fds \<Rightarrow> fd \<in> set fds
      | Acceptor_Callback \<Rightarrow> fd = lfd)"

definition well_typed :: "'os settings \<Rightarrow> ('os machine, callback) state \<Rightarrow> bool" where
  "well_typed su st \<longleftrightarrow>
     (\<forall>fd. \<forall>cb\<in>set (callbacks_of (snd st) fd). fits (su_listen su) (endpoints (fst st)) fd cb) \<and>
     (\<forall>i. next_channel (kernel (fst st)) \<le> i \<longrightarrow> channels (kernel (fst st)) i = None)"

lemma endpoints_cong: "objects w' = objects w \<Longrightarrow> endpoints w' = endpoints w"
  by (simp add: objects_def endpoints_def fun_eq_iff)

lemma fits_mono: "fits lfd ends fd cb \<Longrightarrow> ends \<subseteq>\<^sub>m ends' \<Longrightarrow> fits lfd ends' fd cb"
  by (auto simp: fits_def map_le_def dom_def split: callback.splits option.splits)

lemma well_typed_mono:
  assumes "well_typed su (w, b)" and "endpoints w \<subseteq>\<^sub>m endpoints w'"
    and "\<And>i. next_channel (kernel w') \<le> i \<Longrightarrow> channels (kernel w') i = None"
    and "\<And>fd cb. cb \<in> set (callbacks_of b' fd) \<Longrightarrow> cb \<in> set (callbacks_of b fd) \<or> fits (su_listen su) (endpoints w') fd cb"
  shows "well_typed su (w', b')"
  using assms fits_mono [OF _ assms(2)] unfolding well_typed_def by fastforce

lemma well_typed_cong:
  assumes "well_typed su (w, b)" and "objects w' = objects w"
    and "\<And>fd. set (callbacks_of b' fd) \<subseteq> set (callbacks_of b fd)"
  shows "well_typed su (w', b')"
  using assms endpoints_cong [OF assms(2)] by (auto simp: well_typed_def objects_def)

lemma callbacks_of_same: "callback_map b' = callback_map b \<Longrightarrow> callbacks_of b' = callbacks_of b"
  by (simp add: callbacks_of_def fun_eq_iff)

declare register_all.simps [simp del]

lemma bus_del_map [simp]: "callback_map (snd (snd (bus_del sys su fd st))) = callback_map (snd st)"
  by (simp add: epoll_bus_del_def del_fd_def del_fd_callbacks_def split: prod.split)

lemma close_socket_map [simp]: "callback_map (snd (close_socket sys su fd st)) = callback_map (snd st)"
proof -
  have "callback_map (snd (snd (close_connection_noexcept (bus_del sys su) sh cl s st))) = callback_map (snd st)" for sh cl s
  proof -
    obtain x w1 b1 where d: "bus_del sys su (sock_fd s) st = (x, w1, b1)" by (rule prod_cases3)
    with bus_del_map [of sys su "sock_fd s" st] show ?thesis
      by (cases x) (simp_all add: close_connection_noexcept_def close_connection_def Let_def split: prod.split)
  qed
  from this [where s = "\<lparr>sock_fd = fd\<rparr>"] show ?thesis
    by (simp add: close_socket_def split: prod.split) (metis snd_conv)
qed

lemma destroy_objects_map [simp]: "callback_map (snd (destroy_objects sys su st)) = callback_map (snd st)"
proof -
  have "callback_map (snd (fold (close_socket sys su) fds st)) = callback_map (snd st)" for fds st
    by (induction fds arbitrary: st) simp_all
  then show ?thesis by (simp add: destroy_objects_def split: prod.split)
qed

text \<open>A connection registers callbacks that fit the channels it makes.\<close>

lemma endpoints_make_channels:
  "endpoints (make_channels su l r w) =
     (endpoints w)(next_channel (kernel w) \<mapsto> (l, r), next_channel (kernel w) + 1 \<mapsto> (r, l))"
  by (simp add: endpoints_def make_channels_def Let_def channel_new_def fun_eq_iff)

lemma endpoints_attach_handler [simp]: "endpoints (attach_handler s w) = endpoints w"
  by (simp add: endpoints_def channels_attach_handler fun_eq_iff option.map_comp comp_def)

lemma objects_endpoints:
  assumes "objects w' = objects (make_channels su l r w)"
  shows "endpoints w' = endpoints (make_channels su l r w)" "next_channel (kernel w') = next_channel (kernel w) + 2"
proof -
  show "endpoints w' = endpoints (make_channels su l r w)" by (rule endpoints_cong [OF assms])
  show "next_channel (kernel w') = next_channel (kernel w) + 2"
    using assms by (simp add: objects_def make_channels_def Let_def)
qed

lemma unwind_map [simp]:
  "callback_map (snd (case x of None \<Rightarrow> st | Some ex \<Rightarrow> destroy_objects sys su st)) = callback_map (snd st)"
  by (cases x) simp_all

lemma well_typed_same:
  "well_typed su (w, b) \<Longrightarrow> objects w' = objects w \<Longrightarrow> callback_map b' = callback_map b \<Longrightarrow> well_typed su (w', b')"
  by (erule well_typed_cong) (simp_all add: callbacks_of_same [of b' b])

text \<open>
  What a connection attempt registers, up to the registration that fails if one does: the result is that
  of the last one.
\<close>

inductive registering :: "'os sys \<Rightarrow> 'os settings \<Rightarrow> (fd \<times> callback) set \<Rightarrow> ('os machine, callback) state \<Rightarrow>
    exn option \<Rightarrow> ('os machine, callback) state \<Rightarrow> bool" for sys su regs st0 where
  at_first: "registering sys su regs st0 None st0"
| attach: "registering sys su regs st0 None (w, b) \<Longrightarrow> registering sys su regs st0 None (attach_handler s w, b)"
| register: "registering sys su regs st0 None st \<Longrightarrow> (fd, cb) \<in> regs \<Longrightarrow> bus_add sys su fd (Some cb) st = (x, st') \<Longrightarrow>
    registering sys su regs st0 x st'"

lemma registering_all:
  "register_all (bus_add sys su) rs st = (x, st') \<Longrightarrow> registering sys su regs st0 None st \<Longrightarrow> set rs \<subseteq> regs \<Longrightarrow>
   registering sys su regs st0 x st'"
proof (induction rs arbitrary: st)
  case (Cons r rs)
  obtain fd cb where r: "r = (fd, cb)" by (cases r)
  obtain y st1 where a: "bus_add sys su fd (Some cb) st = (y, st1)" by (rule prod.exhaust)
  from Cons.prems r a have reg: "registering sys su regs st0 y st1" by (auto intro: register)
  show ?case
  proof (cases y)
    case None
    with Cons r a reg show ?thesis by (auto simp: register_all.simps)
  next
    case (Some ex)
    with Cons.prems(1) r a reg show ?thesis by (simp add: register_all.simps)
  qed
qed (simp add: register_all.simps)

lemma add_fd_callbacks:
  assumes "add_fd sys_add fd (Some cb) st = (x, st')"
  shows "set (callbacks_of (snd st') g) \<subseteq> set (callbacks_of (snd st) g) \<union> (if g = fd then {cb} else {})"
    and "set (callbacks_of (snd st) g) \<subseteq> set (callbacks_of (snd st') g)"
  using assms by (cases st, auto simp: add_fd_def callbacks_of_def Let_def split: option.splits prod.splits if_splits)+

lemma bus_add_callbacks:
  assumes "bus_add sys su fd (Some cb) st = (x, st')"
  shows "set (callbacks_of (snd st') g) \<subseteq> set (callbacks_of (snd st) g) \<union> (if g = fd then {cb} else {})"
    and "set (callbacks_of (snd st) g) \<subseteq> set (callbacks_of (snd st') g)"
  using assms unfolding epoll_bus_add_def by (rule add_fd_callbacks)+

lemma sockets_simps [simp]:
  "sockets (kernel (make_socket fd w)) = sockets (kernel w) @ [fd]"
  "sockets (kernel (make_channels su l r w)) = sockets (kernel w)"
  "sockets (kernel (attach_handler s w)) = sockets (kernel w)"
  by (simp_all add: make_socket_def make_channels_def attach_handler_def Let_def split: option.split)

lemma sockets_bus_add [simp]: "sockets (kernel (fst (snd (bus_add sys su fd cb st)))) = sockets (kernel (fst st))"
  unfolding epoll_bus_add_def
  by (rule add_fd_keeps [where g = "\<lambda>w. sockets (kernel w)"], rule epoll_add_fd_keeps [where g = "\<lambda>w. sockets (kernel w)"]) simp

lemma registering_frame:
  assumes "registering sys su regs st0 x st"
  shows "endpoints (fst st) = endpoints (fst st0)" and "next_channel (kernel (fst st)) = next_channel (kernel (fst st0))"
    and "sockets (kernel (fst st)) = sockets (kernel (fst st0))"
  using assms
proof (induction)
  case (register st fd cb x st')
  have "objects (fst st') = objects (fst st)" "sockets (kernel (fst st')) = sockets (kernel (fst st))"
    using arg_cong [where f = "\<lambda>p. (objects (fst (snd p)), sockets (kernel (fst (snd p))))", OF register.hyps(3)] by simp_all
  then show "endpoints (fst st') = endpoints (fst st0)" "next_channel (kernel (fst st')) = next_channel (kernel (fst st0))"
    "sockets (kernel (fst st')) = sockets (kernel (fst st0))"
    using register.IH endpoints_cong [of "fst st'" "fst st"] by (simp_all add: objects_def)
qed simp_all

lemma registering_callbacks:
  assumes "registering sys su regs st0 x st"
  shows "set (callbacks_of (snd st) g) \<subseteq> set (callbacks_of (snd st0) g) \<union> {cb. (g, cb) \<in> regs}"
    and "set (callbacks_of (snd st0) g) \<subseteq> set (callbacks_of (snd st) g)"
proof -
  have "set (callbacks_of (snd st) g) \<subseteq> set (callbacks_of (snd st0) g) \<union> {cb. (g, cb) \<in> regs} \<and>
    set (callbacks_of (snd st0) g) \<subseteq> set (callbacks_of (snd st) g)"
    using assms
  proof (induction)
    case (register st fd cb x st')
    with bus_add_callbacks [OF register.hyps(3), of g] show ?case by (auto split: if_splits)
  qed simp_all
  then show "set (callbacks_of (snd st) g) \<subseteq> set (callbacks_of (snd st0) g) \<union> {cb. (g, cb) \<in> regs}"
    and "set (callbacks_of (snd st0) g) \<subseteq> set (callbacks_of (snd st) g)" by simp_all
qed

text \<open>The callbacks of a session between \<open>l\<close> and \<open>r\<close>, its channels numbered from \<open>n\<close>.\<close>

definition session_callbacks :: "fd \<Rightarrow> fd \<Rightarrow> nat \<Rightarrow> (fd \<times> callback) set" where
  "session_callbacks l r n =
     set (session_registrations l r n (n + 1)) \<union> {(g, Session_Callback fds) | g fds. g \<in> set fds \<and> set fds = {l, r}}"

text \<open>The descriptor on the other side of a new connection: an echo session has one socket only.\<close>

definition reaches :: "'os sys \<Rightarrow> 'os settings \<Rightarrow> fd \<Rightarrow> 'os machine world \<Rightarrow> fd \<Rightarrow> 'os machine world \<Rightarrow> bool" where
  "reaches sys su fd w tfd w1 \<longleftrightarrow>
     (if su_program su = Echo then tfd = fd \<and> w1 = make_channels su fd fd (make_socket fd w)
      else connect_target sys su fd (make_socket fd w) = (Inr tfd, w1))"

lemma reaches_objects:
  assumes "reaches sys su fd w tfd w1" shows "objects w1 = objects (make_channels su fd tfd w)"
proof (cases "su_program su = Echo")
  case True
  with assms show ?thesis using objects_make_channels [OF objects_make_socket] by (simp add: reaches_def)
next
  case False
  with assms have "connect_target sys su fd (make_socket fd w) = (Inr tfd, w1)" by (simp add: reaches_def)
  from connect_target_objects [OF this] objects_make_channels [OF objects_make_socket] show ?thesis by simp
qed

lemma registered_all:
  "register_all (bus_add sys su) rs st = (None, st') \<Longrightarrow> (g, cb) \<in> set rs \<Longrightarrow> cb \<in> set (callbacks_of (snd st') g)"
proof (induction rs arbitrary: st)
  case (Cons r rs)
  obtain fd cb' where r: "r = (fd, cb')" by (cases r)
  obtain y st1 where a: "bus_add sys su fd (Some cb') st = (y, st1)" by (rule prod.exhaust)
  from Cons.prems(1) r a have y: "y = None" and rest: "register_all (bus_add sys su) rs st1 = (None, st')"
    by (simp_all add: register_all.simps split: option.splits)
  have "cb' \<in> set (callbacks_of (snd st1) fd)"
    using a y unfolding epoll_bus_add_def
    by (cases st) (auto simp: add_fd_def callbacks_of_def Let_def split: option.splits prod.splits)
  moreover have "registering sys su (set rs) st1 None st'" by (rule registering_all [OF rest at_first order_refl])
  ultimately show ?case
    using Cons.IH [OF rest] Cons.prems(2) r registering_callbacks(2) [of sys su "set rs" st1 None st' fd] by auto
qed simp

lemma proxy_connection_registers:
  assumes "proxy_new_connection connect unwind finish (bus_add sys su) n (n + 1) fd (w, b) = (r, st)"
    and "\<And>s w. finish s w = w \<or> finish s w = attach_handler s w"
  shows "(\<exists>ex w1. connect w = (Inl ex, w1) \<and> st = unwind (w1, b)) \<or>
    (\<exists>tfd w1 x st1. connect w = (Inr tfd, w1) \<and> registering sys su (session_callbacks fd tfd n) (w1, b) x st1 \<and>
       st = (case x of None \<Rightarrow> st1 | Some ex \<Rightarrow> unwind st1) \<and>
       (x = None \<longrightarrow> callbacks_of (snd st1) fd \<noteq> [] \<and> callbacks_of (snd st1) tfd \<noteq> []))"
  using assms(1)
proof (cases rule: proxy_new_connection_cases)
  case (refused ex w1)
  then show ?thesis by blast
next
  case (partly tfd w1 ex st1)
  have "registering sys su (session_callbacks fd tfd n) (w1, b) (Some ex) st1"
    by (rule registering_all [OF partly(2) at_first]) (simp add: session_callbacks_def)
  with partly(1,3) show ?thesis by (intro disjI2 exI [of _ tfd] exI [of _ w1] exI [of _ "Some ex"] exI [of _ st1]) simp
next
  case (made tfd w1 w2 b2 x st3)
  let ?s = "proxy_session fd tfd n (n + 1)" and ?regs = "session_callbacks fd tfd n"
  have "registering sys su ?regs (w1, b) None (w2, b2)"
    by (rule registering_all [OF made(2) at_first]) (simp add: session_callbacks_def)
  then have "registering sys su ?regs (w1, b) None (finish ?s w2, b2)"
    using assms(2) [of ?s w2] by (auto intro: attach)
  then have "registering sys su ?regs (w1, b) x st3"
    by (rule registering_all [OF made(3)]) (auto simp: session_callbacks_def)
  moreover have "callbacks_of (snd st3) g \<noteq> []" if "x = None" "g \<in> {fd, tfd}" for g
    using registered_all [OF made(3) [unfolded that(1)], of g] that(2) by fastforce
  ultimately show ?thesis using made(1,4) by blast
qed

lemma echo_connection_registers:
  assumes "echo_new_connection unwind (bus_add sys su) n (n + 1) fd st0 = (r, st)"
  shows "\<exists>x st1. registering sys su (session_callbacks fd fd n) st0 x st1 \<and>
    st = (case x of None \<Rightarrow> st1 | Some ex \<Rightarrow> unwind st1) \<and> (x = None \<longrightarrow> callbacks_of (snd st1) fd \<noteq> [])"
  using assms
proof (cases rule: echo_new_connection_cases)
  case (partly ex st1)
  have "registering sys su (session_callbacks fd fd n) st0 (Some ex) st1"
    by (rule registering_all [OF partly(1) at_first]) (simp add: session_callbacks_def)
  with partly(2) show ?thesis by (intro exI [of _ "Some ex"] exI [of _ st1]) simp
next
  case (made st2 x st3)
  have "registering sys su (session_callbacks fd fd n) st0 None st2"
    by (rule registering_all [OF made(1) at_first]) (simp add: session_callbacks_def)
  then have "registering sys su (session_callbacks fd fd n) st0 x st3"
    by (rule registering_all [OF made(2)]) (simp add: session_callbacks_def)
  moreover have "callbacks_of (snd st3) fd \<noteq> []" if "x = None"
    using registered_all [OF made(2) [unfolded that], of fd] by fastforce
  ultimately show ?thesis using made(3) by blast
qed

lemma new_session_cases:
  assumes "new_session sys su fd a (w, b) = (y, st)"
  obtains (refused) ex w1 where "connect_target sys su fd (make_socket fd w) = (Inl ex, w1)" "st = destroy_objects sys su (w1, b)"
  | (session) tfd w1 x st1 where "reaches sys su fd w tfd w1"
      "registering sys su (session_callbacks fd tfd (next_channel (kernel w))) (w1, b) x st1"
      "st = (case x of None \<Rightarrow> st1 | Some ex \<Rightarrow> destroy_objects sys su st1)"
      "x = None \<Longrightarrow> callbacks_of (snd st1) fd \<noteq> [] \<and> callbacks_of (snd st1) tfd \<noteq> []"
proof -
  let ?w = "make_socket fd w" and ?n = "next_channel (kernel w)"
  have n: "next_channel (kernel ?w) = ?n" by (simp add: make_socket_def)
  have proxy: thesis if "su_program su \<noteq> Echo" "\<And>s w. finish s w = w \<or> finish s w = attach_handler s w"
    "proxy_new_connection (connect_target sys su fd) (destroy_objects sys su) finish (bus_add sys su) ?n (?n + 1) fd (?w, b) = (r, st)"
    for finish r
    using proxy_connection_registers [OF that(3,2)]
  proof (elim disjE exE conjE)
    fix ex w1
    assume "connect_target sys su fd ?w = (Inl ex, w1)" "st = destroy_objects sys su (w1, b)"
    then show thesis by (rule refused)
  next
    fix tfd w1 x st1
    assume r: "connect_target sys su fd ?w = (Inr tfd, w1)" and x: "registering sys su (session_callbacks fd tfd ?n) (w1, b) x st1"
      "st = (case x of None \<Rightarrow> st1 | Some ex \<Rightarrow> destroy_objects sys su st1)"
      "x = None \<longrightarrow> callbacks_of (snd st1) fd \<noteq> [] \<and> callbacks_of (snd st1) tfd \<noteq> []"
    have "reaches sys su fd w tfd w1" using r that(1) by (simp add: reaches_def)
    then show thesis using x by (intro session) blast+
  qed
  show thesis
  proof (cases "su_program su")
    case Echo
    obtain r st' where e: "echo_new_connection (destroy_objects sys su) (bus_add sys su) ?n (?n + 1) fd (make_channels su fd fd ?w, b) = (r, st')"
      by (rule prod.exhaust)
    with assms Echo n have "st' = st" by (simp add: new_session_def Let_def)
    with echo_connection_registers [OF e] session Echo show thesis by (auto simp: reaches_def)
  next
    case Tcp_Proxy
    obtain r st' where e: "proxy_new_connection (connect_target sys su fd) (destroy_objects sys su) (\<lambda>s w. w) (bus_add sys su) ?n (?n + 1) fd (?w, b) = (r, st')"
      by (rule prod.exhaust)
    with assms Tcp_Proxy n have "st' = st" by (simp add: new_session_def Let_def)
    with e Tcp_Proxy show thesis by (intro proxy [of "\<lambda>s w. w" r]) simp_all
  next
    case Psql_Proxy
    obtain r st' where e: "proxy_new_connection (connect_target sys su fd) (destroy_objects sys su) attach_handler (bus_add sys su) ?n (?n + 1) fd (?w, b) = (r, st')"
      by (rule prod.exhaust)
    with assms Psql_Proxy n have "st' = st" by (simp add: new_session_def Let_def)
    with e Psql_Proxy show thesis by (intro proxy [of attach_handler r]) simp_all
  qed
qed

lemma well_typed_session:
  assumes "well_typed su (w, b)" and "reaches sys su fd w tfd w1"
    and "registering sys su (session_callbacks fd tfd (next_channel (kernel w))) (w1, b) x (w2, b2)"
  shows "well_typed su (w2, b2)"
proof (rule well_typed_mono [OF assms(1)])
  let ?n = "next_channel (kernel w)"
  note o = objects_endpoints [OF reaches_objects [OF assms(2)]]
  have ends: "endpoints w2 = endpoints (make_channels su fd tfd w)" and next2: "next_channel (kernel w2) = ?n + 2"
    using registering_frame(1,2) [OF assms(3)] o by simp_all
  have none: "endpoints w i = None" if "?n \<le> i" for i
    using assms(1) that by (simp add: well_typed_def endpoints_def)
  show "endpoints w \<subseteq>\<^sub>m endpoints w2"
    using none [of ?n] none [of "?n + 1"] by (auto simp: ends endpoints_make_channels map_le_def)
  show "channels (kernel w2) i = None" if "next_channel (kernel w2) \<le> i" for i
  proof -
    have "endpoints w2 i = None" using none [of i] that by (simp add: ends next2 endpoints_make_channels)
    then show ?thesis by (simp add: endpoints_def)
  qed
  show "cb \<in> set (callbacks_of b g) \<or> fits (su_listen su) (endpoints w2) g cb" if "cb \<in> set (callbacks_of b2 g)" for g cb
    using that registering_callbacks(1) [OF assms(3), of g]
    by (auto simp: session_callbacks_def channel_registrations_def fits_def ends endpoints_make_channels split: if_splits)
qed

lemma well_typed_new_session:
  assumes "well_typed su (w, b)" and "new_session sys su fd a (w, b) = (y, st)"
  shows "well_typed su st"
proof -
  obtain w' b' where st: "st = (w', b')" by (cases st)
  from assms(2) show ?thesis
  proof (cases rule: new_session_cases)
    case (refused ex w1)
    have "objects w' = objects w1" "callback_map b' = callback_map b"
      using arg_cong [where f = "\<lambda>st. (objects (fst st), callback_map (snd st))", OF refused(2)] st by simp_all
    with connect_target_objects [OF refused(1)] show ?thesis unfolding st by (intro well_typed_same [OF assms(1)]) simp_all
  next
    case (session tfd w1 x st1)
    obtain w2 b2 where st1: "st1 = (w2, b2)" by (cases st1)
    have "objects w' = objects w2" "callback_map b' = callback_map b2"
      using arg_cong [where f = "\<lambda>st. (objects (fst st), callback_map (snd st))", OF session(3)] st st1 by simp_all
    then show ?thesis unfolding st by (rule well_typed_same [OF well_typed_session [OF assms(1) session(1,2) [unfolded st1]]])
  qed
qed

lemma well_typed_acceptor_event:
  assumes "well_typed su (w, b)"
    and "acceptor_event native ntop (\<lambda>fd. lift_sys (s_accept sys fd)) (\<lambda>_. new_session sys su)
      \<lparr>acc_fd = lfd, acc_callbacks = [()]\<rparr> fd m (w, b) = (x, w', b')"
  shows "well_typed su (w', b')"
proof (cases "flags_test m flags_error")
  case True
  with assms show ?thesis by (simp add: acceptor_event_def accept_new_client_def)
next
  case False
  obtain conn sa w1 where acc: "lift_sys (s_accept sys lfd) w = ((conn, sa), w1)" by (metis surj_pair)
  with objects_lift_sys [of "s_accept sys lfd" w] have 1: "objects w1 = objects w" by simp
  let ?b = "enqueue_event fd flags_in b" and ?a = "peer_address native ntop sa"
  show ?thesis
  proof (cases "0 < conn")
    case pos: True
    obtain y w2 b2 where n: "new_session sys su conn ?a (w1, ?b) = (y, w2, b2)" by (rule prod_cases3)
    with assms(2) False acc pos have "w' = w2" "b' = b2"
      by (cases y; simp add: acceptor_event_def accept_new_client_def make_v4_eq)+
    moreover have "well_typed su (w1, ?b)"
      by (rule well_typed_same [OF assms(1) 1]) (simp add: enqueue_event_def)
    ultimately show ?thesis using well_typed_new_session n by blast
  next
    case neg: False
    have "w' = w1" "callback_map b' = callback_map b"
      using assms(2) False acc neg
      by (auto simp: acceptor_event_def accept_new_client_def make_v4_eq Let_def enqueue_event_def split: if_splits)
    with well_typed_same [OF assms(1) 1] show ?thesis by simp
  qed
qed

text \<open>A callback of a channel changes its channel, the log, the bytes it has moved and the queue.\<close>

lemma channel_event_frame:
  assumes "channel_event sys su s i fd m (w, b) = (x, w', b')"
  shows "same_registrations b b'" and "endpoints w' = endpoints w"
    and "next_channel (kernel w') = next_channel (kernel w)" and "sockets (kernel w') = sockets (kernel w)"
    and "j \<noteq> i \<Longrightarrow> channels (kernel w') j = channels (kernel w) j \<and>
      got_bytes (kernel w') j = got_bytes (kernel w) j \<and> put_bytes (kernel w') j = put_bytes (kernel w) j"
proof -
  let ?k = "kernel w"
  let ?res = "\<lambda>ch. handle_event (async_read_some (s_recv sys)) (async_write_some (s_send sys))
      (psql_call (su_heap su)) s fd m ch (os_world w, b, fw_processor (writer ?k))"
  consider "channels ?k i = None" | ch where "channels ?k i = Some ch" "?res ch = None"
    | ch x1 ch1 w1 b1 q1 got away where "channels ?k i = Some ch" "?res ch = Some (x1, ch1, (w1, b1, q1), got, away)"
    by (metis not_None_eq prod_cases3)
  then have "same_registrations b b' \<and> endpoints w' = endpoints w \<and> next_channel (kernel w') = next_channel ?k \<and>
      sockets (kernel w') = sockets ?k \<and> (j \<noteq> i \<longrightarrow> channels (kernel w') j = channels ?k j \<and>
      got_bytes (kernel w') j = got_bytes ?k j \<and> put_bytes (kernel w') j = put_bytes ?k j)"
  proof cases
    case 1
    with assms show ?thesis by (simp add: channel_event_def)
  next
    case 2
    with assms show ?thesis by (auto simp: channel_event_def Let_def endpoints_def)
  next
    case 3
    from handle_event_log [OF 3(2)] have "ch_left ch1 = ch_left ch" "ch_right ch1 = ch_right ch"
      by (simp_all add: log_step_def)
    with 3(1) have "map_option (\<lambda>ch. (sock_fd (ch_left ch), sock_fd (ch_right ch))) (((channels ?k)(i \<mapsto> ch1)) a) = endpoints w a" for a
      by (simp add: endpoints_def)
    moreover have "b' = b1" "w' = (with_os w1 w)\<lparr>kernel := (kernel (with_os w1 w))\<lparr>channels := (channels ?k)(i \<mapsto> ch1),
        writer := (writer ?k)\<lparr>fw_processor := q1\<rparr>, got_bytes := (got_bytes ?k)(i := got_bytes ?k i @ got),
        put_bytes := (put_bytes ?k)(i := put_bytes ?k i @ away)\<rparr>\<rparr>"
      using assms by (simp_all add: channel_event_def Let_def 3)
    ultimately show ?thesis
      using handle_event_registrations [OF 3(2)] by (simp add: endpoints_def with_os_def fun_eq_iff)
  qed
  then show "same_registrations b b'" "endpoints w' = endpoints w" "next_channel (kernel w') = next_channel ?k"
    "sockets (kernel w') = sockets ?k"
    "j \<noteq> i \<Longrightarrow> channels (kernel w') j = channels ?k j \<and>
      got_bytes (kernel w') j = got_bytes ?k j \<and> put_bytes (kernel w') j = put_bytes ?k j" by blast+
qed

lemma well_typed_invoke:
  assumes "well_typed su st" shows "well_typed su (snd (program_invoke sys su cb fd m st))"
proof -
  obtain w b where st: "st = (w, b)" by (cases st)
  obtain x w' b' where r: "program_invoke sys su cb fd m (w, b) = (x, w', b')" by (rule prod_cases3)
  have "well_typed su (w', b')"
  proof (cases cb)
    case (Channel_Callback s i)
    with r have e: "channel_event sys su s i fd m (w, b) = (x, w', b')" by (simp add: program_invoke_def)
    note frame = channel_event_frame(1,2,3) [OF e]
    have "channels (kernel w') j = None \<longleftrightarrow> channels (kernel w) j = None" for j
      using fun_cong [OF frame(2), of j]
      by (cases "channels (kernel w') j"; cases "channels (kernel w) j") (simp_all add: endpoints_def)
    moreover have "callbacks_of b' = callbacks_of b"
      using frame(1) by (intro callbacks_of_same) (simp add: same_registrations_def)
    ultimately show ?thesis using assms frame(2,3) unfolding st well_typed_def fst_conv snd_conv by simp
  next
    case (Session_Callback fds)
    with r have "w' = w" "callback_map b' = callback_map b"
      by (auto simp: program_invoke_def session_event_def split: if_splits)
    with well_typed_same [of su w b w' b'] assms st show ?thesis by simp
  next
    case Acceptor_Callback
    with r well_typed_acceptor_event assms st show ?thesis by (simp add: program_invoke_def) blast
  qed
  with r st show ?thesis by simp
qed

lemma well_typed_clean_up:
  assumes "well_typed su st" shows "well_typed su (clean_up (destroy_objects sys su) st)"
proof -
  obtain w b where st: "st = (w, b)" by (cases st)
  obtain w' b' where c: "clean_up (destroy_objects sys su) (w, b) = (w', b')" by (rule prod.exhaust)
  have objects: "objects w' = objects w" using objects_clean_up [of sys su "(w, b)"] c by simp
  have map: "callback_map b' = callback_map b |` (- callbacks_to_remove b)"
    using clean_up_map [where destroy = "destroy_objects sys su" and w = w and b = b] c by simp
  have subset: "set (callbacks_of b' fd) \<subseteq> set (callbacks_of b fd)" for fd
    by (cases "fd \<in> callbacks_to_remove b") (simp_all add: callbacks_of_def map)
  show ?thesis unfolding st c by (rule well_typed_cong [OF assms [unfolded st] objects subset])
qed

text \<open>A callback only adds registrations: entries are erased when it has returned.\<close>

lemma callbacks_of_unwind [simp]:
  "callbacks_of (snd (case x of None \<Rightarrow> st | Some ex \<Rightarrow> destroy_objects sys su st)) = callbacks_of (snd st)"
  "callbacks_of (snd (destroy_objects sys su st)) = callbacks_of (snd st)"
  by (rule callbacks_of_same, simp)+

lemma new_session_registers:
  "set (callbacks_of (snd st) g) \<subseteq> set (callbacks_of (snd (snd (new_session sys su fd a st))) g)"
proof -
  obtain w b y st' where st: "st = (w, b)" "new_session sys su fd a (w, b) = (y, st')" by (metis surj_pair)
  from st(2) have "set (callbacks_of b g) \<subseteq> set (callbacks_of (snd st') g)"
  proof (cases rule: new_session_cases)
    case (refused ex w1)
    then show ?thesis by simp
  next
    case (session tfd w1 x st1)
    with registering_callbacks(2) [OF session(2), of g] show ?thesis by simp
  qed
  with st show ?thesis by simp
qed

lemma program_invoke_registers:
  "set (callbacks_of (snd st) g) \<subseteq> set (callbacks_of (snd (snd (program_invoke sys su cb fd m st))) g)"
proof -
  obtain w b where st: "st = (w, b)" by (cases st)
  obtain x w' b' where r: "program_invoke sys su cb fd m (w, b) = (x, w', b')" by (rule prod_cases3)
  show ?thesis
  proof (cases cb)
    case (Channel_Callback s i)
    with r have "channel_event sys su s i fd m (w, b) = (x, w', b')" by (simp add: program_invoke_def)
    from channel_event_frame(1) [OF this] have "callbacks_of b' = callbacks_of b"
      by (intro callbacks_of_same) (simp add: same_registrations_def)
    with r st show ?thesis by simp
  next
    case (Session_Callback fds)
    with r have "callback_map b' = callback_map b" by (auto simp: program_invoke_def session_event_def split: if_splits)
    then have "callbacks_of b' = callbacks_of b" by (rule callbacks_of_same)
    with r st show ?thesis by simp
  next
    case Acceptor_Callback
    have queue: "callbacks_of (enqueue_event fd flags_in b) = callbacks_of b" by (rule callbacks_of_same) (simp add: enqueue_event_def)
    from Acceptor_Callback r have ev: "acceptor_event (su_native su) (s_ntop sys) (\<lambda>fd. lift_sys (s_accept sys fd))
      (\<lambda>_. new_session sys su) \<lparr>acc_fd = su_listen su, acc_callbacks = [()]\<rparr> fd m (w, b) = (x, w', b')"
      by (simp add: program_invoke_def)
    have "set (callbacks_of b g) \<subseteq> set (callbacks_of b' g)"
    proof (cases "flags_test m flags_error")
      case True
      with ev show ?thesis by (simp add: acceptor_event_def accept_new_client_def)
    next
      case False
      obtain conn sa w1 where acc: "lift_sys (s_accept sys (su_listen su)) w = ((conn, sa), w1)" by (metis surj_pair)
      let ?st = "(w1, enqueue_event fd flags_in b)" and ?a = "peer_address (su_native su) (s_ntop sys) sa"
      obtain y st2 where n: "new_session sys su conn ?a ?st = (y, st2)" by (rule prod.exhaust)
      from ev False acc n have "b' = b \<or> b' = enqueue_event fd flags_in b \<or> b' = snd st2"
        by (cases y) (auto simp: acceptor_event_def accept_new_client_def make_v4_eq Let_def split: if_splits)
      with new_session_registers [of ?st g sys su conn ?a] n queue show ?thesis by auto
    qed
    with r st show ?thesis by simp
  qed
qed

lemma endpoints_frame [simp]:
  "endpoints (w\<lparr>kernel := (kernel w)\<lparr>writer := fw\<rparr>\<rparr>) = endpoints w"
  "endpoints (w\<lparr>kernel := (kernel w)\<lparr>failed_assert := f\<rparr>\<rparr>) = endpoints w"
  by (simp_all add: endpoints_def fun_eq_iff)

lemma well_typed_step: "program_step sys su st st' \<Longrightarrow> well_typed su st \<Longrightarrow> well_typed su st'"
proof (induction rule: program_step.induct)
  case (step_queue w b)
  then show ?case by (rule well_typed_same) simp_all
next
  case (step_wait w b e n t)
  then show ?case by (rule well_typed_same) simp_all
next
  case (step_writer rd w fw b)
  then show ?case by (simp add: well_typed_def)
next
  case (step_writer_assert rd w b)
  then show ?case by (simp add: well_typed_def)
qed (rule well_typed_invoke well_typed_clean_up, assumption)+

lemma well_typed_init: "program_init su q st \<Longrightarrow> well_typed su st"
  by (auto simp: program_init_def well_typed_def callbacks_of_def fits_def Let_def split: if_splits)

lemma well_typed_reachable:
  assumes "program_reachable sys su q st" shows "well_typed su st"
proof -
  from assms obtain st0 where init: "program_init su q st0" and steps: "(program_step sys su)\<^sup>*\<^sup>* st0 st"
    unfolding program_reachable_def by blast
  from steps show ?thesis
    by (induction rule: rtranclp_induct) (auto intro: well_typed_step well_typed_init [OF init])
qed

end
