(* ===== verification/Program_Run.thy ===== *)
theory Program_Run
  imports Program_Log Program_Types
begin

text \<open>
  The reactor loop of the programs: its rounds are sequences of the steps of \<open>Program\<close>, so what holds
  in every reachable state holds after every round.  Then what holds in every reachable state: no
  assertion fails, every channel forwards its bytes in order, the log holds the queries of the
  clients, and every callback fits the descriptor it is registered for.
\<close>

section \<open>Rounds are steps\<close>

lemma os_world_lift_sys: "os_world (snd (lift_sys f w)) = snd (f (os_world w))" "fst (lift_sys f w) = fst (f (os_world w))"
  by (simp_all add: lift_sys_def with_os_def os_world_def split: prod.split)

lemma reachable_init: "program_init su q st \<Longrightarrow> program_reachable sys su q st"
  unfolding program_reachable_def by blast

lemma reachable_step:
  "program_reachable sys su q st \<Longrightarrow> program_step sys su st st' \<Longrightarrow> program_reachable sys su q st'"
  unfolding program_reachable_def by (meson rtranclp.rtrancl_into_rtrancl)

interpretation reactor: epoll_client "program_reachable sys su q" "destroy_objects sys su"
  "program_invoke sys su" "Some print_error" "\<lambda>e n t. lift_sys (s_wait sys e n t)" for sys su q
  by unfold_locales (simp_all add: report_error_def print_error_def program_invoke_registers
      reachable_step step_call step_clean step_queue step_wait)

text \<open>The writer thread between two rounds; a failed assertion ends the process.\<close>

fun writer_thread :: "writer_round list \<Rightarrow> ('os machine, callback) state \<Rightarrow> ('os machine, callback) state" where
  "writer_thread [] st = st"
| "writer_thread (rd # rds) (w, b) =
     (case writer_body rd (writer (kernel w)) of
        None \<Rightarrow> (w\<lparr>kernel := (kernel w)\<lparr>failed_assert := True\<rparr>\<rparr>, b)
      | Some fw \<Rightarrow> writer_thread rds (w\<lparr>kernel := (kernel w)\<lparr>writer := fw\<rparr>\<rparr>, b))"

lemma reachable_writer: "program_reachable sys su q st \<Longrightarrow> program_reachable sys su q (writer_thread rds st)"
proof (induction rds st rule: writer_thread.induct)
  case (2 rd rds w b)
  show ?case
  proof (cases "writer_body rd (writer (kernel w))")
    case None
    with 2(2) show ?thesis by (auto intro: reachable_step step_writer_assert)
  next
    case (Some fw)
    with 2 show ?thesis by (auto intro: reachable_step step_writer)
  qed
qed simp

text \<open>One turn of the loop with the rounds of the writer thread before it.\<close>

definition program_turn ::
  "'os sys \<Rightarrow> 'os settings \<Rightarrow> (('os machine, callback) state \<Rightarrow> writer_round list) \<Rightarrow> int \<Rightarrow> nat \<Rightarrow>
   ('os machine, callback) action" where
  "program_turn sys su turns timeout n st = program_round sys su timeout n (writer_thread (turns st) st)"

lemma reachable_turn:
  assumes "native_callback (su_epoll su) = None" and "program_reachable sys su q st"
  shows "program_reachable sys su q (snd (program_turn sys su turns t n st))"
  unfolding program_turn_def program_round_def
  by (rule reactor.keeps_round [OF assms(1)]) (rule reachable_writer [OF assms(2)])

lemma reachable_turns:
  assumes "native_callback (su_epoll su) = None" and "program_reachable sys su q st"
  shows "program_reachable sys su q ((next_state (program_turn sys su turns) c ^^ k) st)"
  by (induction k) (simp_all add: assms(2) next_state_def reachable_turn [OF assms(1)])

lemma print_error_never_throws: "never_throws print_error"
  by (simp add: never_throws_def print_error_def)

lemma program_turn_no_exception: "fst (program_turn sys su turns t n st) = None"
proof -
  have r: "fst (report_error (Some print_error) fd e st) = None" for fd e and st :: "('a machine, callback) state"
    by (simp add: report_error_def print_error_def)
  show ?thesis
    by (simp add: program_turn_def program_round_def epoll_bus_wait_def wait_events_def Let_def r split: prod.split option.split)
qed

section \<open>A small kernel\<close>

text \<open>
  For concrete runs: the descriptors that are open, what the calls of \<^verbatim>\<open>epoll_wait\<close> will report,
  connections waiting to be accepted, chunks waiting to be received, how much each call to send takes,
  and what has been sent.
\<close>

record wire =
  w_open :: "fd set"
  w_events :: "epoll_event list list"
  w_new :: "fd list"
  w_in :: "byte list list"
  w_room :: "nat list"
  w_out :: "byte list"

definition wire_wait :: "wire epoll_wait" where
  "wire_wait e n t w =
     (case w_events (kernel w) of
        [] \<Rightarrow> ((0, []), w)
      | evs # rest \<Rightarrow> ((int (length evs), evs), w\<lparr>kernel := (kernel w)\<lparr>w_events := rest\<rparr>\<rparr>))"

definition wire_recv :: "wire recv" where
  "wire_recv fd n w =
     (case w_in (kernel w) of
        [] \<Rightarrow> (None, w\<lparr>errno := EAGAIN\<rparr>)
      | bs # rest \<Rightarrow> (Some (take n bs), w\<lparr>kernel := (kernel w)\<lparr>w_in := rest\<rparr>\<rparr>))"

definition wire_send :: "wire send" where
  "wire_send fd bs w =
     (case w_room (kernel w) of
        [] \<Rightarrow> (None, w\<lparr>errno := EAGAIN\<rparr>)
      | n # rest \<Rightarrow>
          (Some (min n (length bs)),
           w\<lparr>kernel := (kernel w)\<lparr>w_room := rest, w_out := w_out (kernel w) @ take n bs\<rparr>\<rparr>))"

definition wire_accept :: "wire sys_accept" where
  "wire_accept fd w =
     (case w_new (kernel w) of
        [] \<Rightarrow> ((-1, peer_example), w\<lparr>errno := EAGAIN\<rparr>)
      | c # cs \<Rightarrow>
          (if c = -1 \<or> c \<in> w_open (kernel w) then ((-1, peer_example), w\<lparr>errno := 24\<rparr>)
           else
             ((c, peer_example), w\<lparr>kernel := (kernel w)\<lparr>w_new := cs, w_open := insert c (w_open (kernel w))\<rparr>\<rparr>)))"

definition wire_socket :: "wire sys_socket" where
  "wire_socket family typ prot w =
     (if 9 \<in> w_open (kernel w) then (-1, w\<lparr>errno := 24\<rparr>)
      else (9, w\<lparr>kernel := (kernel w)\<lparr>w_open := insert 9 (w_open (kernel w))\<rparr>\<rparr>))"

definition wire_close :: "wire sys_close" where
  "wire_close fd w = (0, w\<lparr>kernel := (kernel w)\<lparr>w_open := w_open (kernel w) - {fd}\<rparr>\<rparr>)"

definition wire_sys :: "wire sys" where
  "wire_sys =
     \<lparr>s_recv = wire_recv, s_send = wire_send, s_ctl = \<lambda>e c fd ev w. (0, w), s_wait = wire_wait,
      s_accept = wire_accept, s_socket = wire_socket, s_connect = \<lambda>fd sa w. (0, w),
      s_shutdown = \<lambda>fd w. (0, w), s_close = wire_close,
      s_getaddrinfo = \<lambda>h s a w. (Inr [candidate 1], w), s_ntop = \<lambda>f a. Some ''127.0.0.1''\<rparr>"

definition wire_settings :: "program \<Rightarrow> wire settings" where
  "wire_settings prog =
     \<lparr>su_program = prog, su_listen = 5, su_epoll = \<lparr>epfd = 3, event_mask = EPOLLIN, native_callback = None\<rparr>,
      su_target = \<lparr>v4_host = ''127.0.0.1'', v4_port = 5432\<rparr>, su_native = LE, su_heap = (\<lambda>_. 0), su_mem = (\<lambda>_. 0)\<rparr>"

definition wire_log :: query_processor where
  "wire_log = query_processor_new (\<lambda>_. 0) 10"

text \<open>The listening socket has number 5.\<close>

definition wire_start :: "fd list \<Rightarrow> epoll_event list list \<Rightarrow> byte list list \<Rightarrow> nat list \<Rightarrow> (wire machine, callback) state" where
  "wire_start clients evs chunks rooms =
     (\<lparr>errno = 0, kernel = \<lparr>os = \<lparr>w_open = {3, 5}, w_events = evs, w_new = clients, w_in = chunks, w_room = rooms, w_out = []\<rparr>,
         sockets = [], channels = Map.empty, next_channel = 0, writer = fw_new wire_log,
         failed_assert = False, got_bytes = \<lambda>_. [], put_bytes = \<lambda>_. []\<rparr>\<rparr>,
      bus_new\<lparr>callback_map := [5 \<mapsto> [Acceptor_Callback]]\<rparr>)"

definition wire_turn :: "program \<Rightarrow> (wire machine, callback) state \<Rightarrow> (wire machine, callback) state" where
  "wire_turn prog st = snd (program_round wire_sys (wire_settings prog) 10 1024 st)"

definition ready :: "fd \<Rightarrow> u32 \<Rightarrow> epoll_event" where
  "ready fd m = \<lparr>ev_events = m, ev_fd = fd\<rparr>"

lemma wire_init: "program_init (wire_settings prog) wire_log (wire_start clients evs chunks rooms)"
  by (simp add: program_init_def wire_start_def wire_settings_def bus_new_def)

lemma wire_turn_reachable:
  "program_reachable wire_sys (wire_settings prog) q st \<Longrightarrow>
   program_reachable wire_sys (wire_settings prog) q (wire_turn prog st)"
  unfolding wire_turn_def program_round_def by (rule reactor.keeps_round) (simp_all add: wire_settings_def)

lemma wire_turns_reachable:
  "program_reachable wire_sys (wire_settings prog) wire_log ((wire_turn prog ^^ n) (wire_start clients evs chunks rooms))"
  by (induction n) (simp_all add: wire_turn_reachable reachable_init [OF wire_init])

text \<open>The definitions that evaluate a turn.\<close>

lemmas wire_simps =
  wire_sys_def wire_settings_def wire_start_def wire_turn_def wire_wait_def wire_recv_def wire_send_def wire_accept_def
  wire_socket_def wire_close_def ready_def
  program_round_def epoll_bus_wait_def wait_events_def epoll_wait_events_def dispatch_def program_invoke_def clean_up_def
  epoll_mask_to_io_flags_def EPOLLIN_def EPOLLOUT_def EPOLLERR_def EPOLLHUP_def would_block_def EAGAIN_def EINTR_def
  EINPROGRESS_def flags_or_assign_def flags_test_def flags_in_def flags_out_def flags_error_def flags_empty_def
  report_error_def print_error_def lift_sys_def os_world_def with_os_def bus_new_def enqueue_event_def
  acceptor_event_def accept_new_client_def make_v4_eq new_session_def make_channels_def make_socket_def channel_new_def
  bip_new_def echo_new_connection_def echo_session_new_def proxy_new_connection_def proxy_session_new_def
  connect_target_def socket_connect_def addrinfo_new_def session_start_def register_all.simps channel_registrations_def
  epoll_bus_add_def add_fd_def epoll_add_fd_def session_event_def channel_event_def
  candidate_def Let_def

lemma wire_log_inv: "qp_inv wire_log" and wire_log_empty: "qp_log wire_log = []" and wire_log_separator: "separator wire_log = 10"
  by (simp_all add: wire_log_def)

section \<open>Properties\<close>

lemma init_traffic: "program_init su q st \<Longrightarrow> qp_inv q \<Longrightarrow> traffic_ok (fst st)"
  by (simp add: program_init_def traffic_ok_def channel_ok_def fw_new_def Let_def)

lemma reachable_traffic:
  assumes "program_reachable sys su q st" and "qp_inv q" shows "traffic_ok (fst st)"
  using assms traffic.steps [OF _ init_traffic] unfolding program_reachable_def by blast

text \<open>
  C4. In every state that a program can reach, with any number of connections and whatever the kernel
  answers, no assertion has failed, and every channel has sent exactly the bytes it received, in
  order, up to those still in its buffer.
\<close>

theorem program_forwards:
  assumes "program_reachable sys su q st" and "qp_inv q"
  shows "\<not> failed_assert (kernel (fst st)) \<and>
    (\<forall>i ch. channels (kernel (fst st)) i = Some ch \<longrightarrow>
       got_bytes (kernel (fst st)) i = put_bytes (kernel (fst st)) i @ ch_pending ch)"
  using reachable_traffic [OF assms] by (auto simp: traffic_ok_def channel_ok_def)

text \<open>An echo session that receives four bytes in two chunks.\<close>

definition wire_echo :: "nat \<Rightarrow> (wire machine, callback) state" where
  "wire_echo n = (wire_turn Echo ^^ n)
     (wire_start [8] [[ready 5 EPOLLIN], [ready 8 EPOLLIN]] [[1, 2], [3, 4]] [1, 2, 1])"

lemma wire_echo_reachable: "program_reachable wire_sys (wire_settings Echo) wire_log (wire_echo n)"
  unfolding wire_echo_def by (rule wire_turns_reachable)

text \<open>
  The session after its first turn; both channels read from and write to the socket 8.
\<close>

definition echo_channel :: "byte bip \<Rightarrow> (socket, handler) channel" where
  "echo_channel q = \<lparr>ch_buffer = q, ch_left = \<lparr>sock_fd = 8\<rparr>, ch_right = \<lparr>sock_fd = 8\<rparr>, ch_handlers = []\<rparr>"

lemma wire_echo_1:
  "wire_turn Echo (wire_start [8] [[ready 5 EPOLLIN], [ready 8 EPOLLIN]] [[1, 2], [3, 4]] [1, 2, 1]) =
     (\<lparr>errno = EAGAIN,
       kernel = \<lparr>os = \<lparr>w_open = {3, 5, 8}, w_events = [[ready 8 EPOLLIN]], w_new = [],
                       w_in = [[1, 2], [3, 4]], w_room = [1, 2, 1], w_out = []\<rparr>,
                 sockets = [8], channels = [0 \<mapsto> echo_channel (bip_new (\<lambda>_. 0)), 1 \<mapsto> echo_channel (bip_new (\<lambda>_. 0))],
                 next_channel = 2, writer = fw_new wire_log, failed_assert = False,
                 got_bytes = \<lambda>_. [], put_bytes = \<lambda>_. []\<rparr>\<rparr>,
      \<lparr>callback_map = [5 \<mapsto> [Acceptor_Callback], 8 \<mapsto> map snd (session_registrations 8 8 0 1) @ [Session_Callback [8]]],
       callbacks_to_remove = {}, events = [(5, flags_in)]\<rparr>)"
  by (simp add: wire_simps echo_channel_def insert_commute)

lemmas channel_simps =
  handle_left_io_event_def handle_right_io_event_def left_read_def right_write_def async_read_some_def async_write_some_def
  bip_ops szt_sub_def szt_add_def SIZE_T_def channel_sizes bip_fill_def bip_view_def mem_range_def echo_channel_def ch_pending_def

lemma wire_echo_2:
  "w_in (os (kernel (fst (wire_echo 2)))) = []" "w_out (os (kernel (fst (wire_echo 2)))) = [1, 3, 4, 2]"
  "got_bytes (kernel (fst (wire_echo 2))) 0 = [1, 2]" "got_bytes (kernel (fst (wire_echo 2))) 1 = [3, 4]"
  "\<exists>ch. channels (kernel (fst (wire_echo 2))) 1 = Some ch"
  "Channel_Callback On_Right 1 \<in> set (callbacks_of (snd (wire_echo 2)) 8)"
proof -
  have "wire_echo 2 = wire_turn Echo (wire_turn Echo (wire_start [8] [[ready 5 EPOLLIN], [ready 8 EPOLLIN]] [[1, 2], [3, 4]] [1, 2, 1]))"
    by (simp add: wire_echo_def numeral_2_eq_2)
  then show "w_in (os (kernel (fst (wire_echo 2)))) = []" "w_out (os (kernel (fst (wire_echo 2)))) = [1, 3, 4, 2]"
    "got_bytes (kernel (fst (wire_echo 2))) 0 = [1, 2]" "got_bytes (kernel (fst (wire_echo 2))) 1 = [3, 4]"
    "\<exists>ch. channels (kernel (fst (wire_echo 2))) 1 = Some ch"
    "Channel_Callback On_Right 1 \<in> set (callbacks_of (snd (wire_echo 2)) 8)"
    unfolding wire_echo_1 by (simp_all add: wire_simps channel_simps callbacks_of_def)
qed

theorem program_forwards_witness:
  "\<not> failed_assert (kernel (fst (wire_echo 2))) \<and>
    (\<exists>ch. channels (kernel (fst (wire_echo 2))) 1 = Some ch \<and> [3, 4] = put_bytes (kernel (fst (wire_echo 2))) 1 @ ch_pending ch)"
proof -
  obtain ch where "channels (kernel (fst (wire_echo 2))) 1 = Some ch" using wire_echo_2(5) by blast
  with program_forwards [OF wire_echo_reachable [of 2] wire_log_inv] wire_echo_2(4) show ?thesis by auto
qed

lemma init_log:
  assumes "program_init su q st" and "qp_inv q" shows "log_ok q (fst st)"
proof -
  have w: "writer (kernel (fst st)) = fw_new q" and c: "channels (kernel (fst st)) = Map.empty"
    using assms(1) by (simp_all add: program_init_def Let_def)
  show ?thesis
    unfolding log_ok_def w
  proof (intro conjI exI [of _ "[]"])
    show "\<forall>i. logged_by (kernel (fst st)) i (messages_of i [])" by (simp add: logged_by_def c)
  qed (use init_traffic [OF assms(1,2)] in simp_all)
qed

lemma reachable_log: "program_reachable sys su q st \<Longrightarrow> qp_inv q \<Longrightarrow> log_ok q (fst st)"
  using log.steps [OF _ init_log] unfolding program_reachable_def by blast

text \<open>
  C2. The query log of a program: in every reachable state the log and the file are what adding messages
  and running the writer, in some order, makes of the log of the start and an empty file.  The messages
  of a channel with a handler are exactly the queries in the bytes it received, in their order, as long as
  these can be read; a channel without one adds none; and what is in the file and the log consists
  of whole pieces of the messages.
\<close>

theorem program_logs_queries:
  assumes "program_reachable sys su q st" and "qp_inv q"
  shows "\<exists>acts. writer (kernel (fst st)) = log_run acts (fw_new q) \<and>
    (\<exists>ps. fw_output (writer (kernel (fst st))) = qp_log q @ concat ps \<and> subseq ps (log_pieces (separator q) (all_messages acts))) \<and>
    (\<forall>i ch. channels (kernel (fst st)) i = Some ch \<longrightarrow> ch_handlers ch = [] \<longrightarrow> messages_of i acts = []) \<and>
    (\<forall>i ch h f r cs. channels (kernel (fst st)) i = Some ch \<longrightarrow> ch_handlers ch = [h] \<longrightarrow>
       drain (h_fd h) False (got_bytes (kernel (fst st)) i) = (None, f, r, cs) \<longrightarrow> messages_of i acts = messages cs)"
proof -
  from reachable_log [OF assms] obtain acts where acts: "writer (kernel (fst st)) = log_run acts (fw_new q)"
    "\<And>i. logged_by (kernel (fst st)) i (messages_of i acts)" unfolding log_ok_def by blast
  from log_run_output [of "fw_new q" acts] assms(2) have
    "\<exists>ps. fw_output (log_run acts (fw_new q)) = qp_log q @ concat ps \<and> subseq ps (log_pieces (separator q) (all_messages acts))"
    by (simp add: fw_new_def fw_output_def)
  with acts show ?thesis by (intro exI [of _ acts]) (fastforce simp: logged_by_def)
qed

text \<open>A PostgreSQL session that receives a startup packet and a query.\<close>

definition wire_psql :: "(wire machine, callback) state" where
  "wire_psql = (wire_turn Psql_Proxy ^^ 2)
     (wire_start [8] [[ready 5 EPOLLIN], [ready 8 EPOLLIN]] [[0, 0, 0, 8, 0, 3, 0, 0, 0x51, 0, 0, 0, 6, 65, 0]] [])"

theorem program_logs_queries_witness:
  "\<exists>acts. writer (kernel (fst wire_psql)) = log_run acts (fw_new wire_log) \<and>
    (\<exists>ps. fw_output (writer (kernel (fst wire_psql))) = qp_log wire_log @ concat ps \<and>
       subseq ps (log_pieces (separator wire_log) (all_messages acts))) \<and>
    (\<forall>i ch. channels (kernel (fst wire_psql)) i = Some ch \<longrightarrow> ch_handlers ch = [] \<longrightarrow> messages_of i acts = []) \<and>
    (\<forall>i ch h f r cs. channels (kernel (fst wire_psql)) i = Some ch \<longrightarrow> ch_handlers ch = [h] \<longrightarrow>
       drain (h_fd h) False (got_bytes (kernel (fst wire_psql)) i) = (None, f, r, cs) \<longrightarrow> messages_of i acts = messages cs)"
  by (rule program_logs_queries [OF _ wire_log_inv]) (unfold wire_psql_def, rule wire_turns_reachable)

text \<open>
  C3. The proxy and protocol clients: whatever number of clients there are, if the bytes that a channel with a
  handler has received are a startup packet, queries and perhaps a terminate packet, in one of the two
  byte orders, the messages it has added to the log are these queries, in this order.
\<close>

theorem program_logs_clients:
  assumes "program_reachable sys su q st" and "qp_inv q"
  shows "\<exists>acts. writer (kernel (fst st)) = log_run acts (fw_new q) \<and>
    (\<forall>i ch h e start qs terminated. channels (kernel (fst st)) i = Some ch \<longrightarrow> ch_handlers ch = [h] \<longrightarrow>
       4 \<le> length start \<longrightarrow> length start + 4 < 65536 \<longrightarrow> (\<forall>m\<in>set qs. length m + 5 < 65536) \<longrightarrow>
       got_bytes (kernel (fst st)) i = encode_packet [] e start @ encode_queries e qs @
         (if terminated then encode_packet [Terminate_CODE] e [] else []) \<longrightarrow>
       messages_of i acts = qs)"
proof -
  let ?k = "kernel (fst st)"
  from reachable_log [OF assms] obtain acts where acts: "writer ?k = log_run acts (fw_new q)"
    "\<And>i. logged_by ?k i (messages_of i acts)" unfolding log_ok_def by blast
  have "messages_of i acts = qs"
    if "channels ?k i = Some ch" "ch_handlers ch = [h]" "4 \<le> length start" "length start + 4 < 65536"
      "\<forall>m\<in>set qs. length m + 5 < 65536"
      "got_bytes ?k i = encode_packet [] e start @ encode_queries e qs @ (if terminated then encode_packet [Terminate_CODE] e [] else [])"
    for i ch h e start qs terminated
  proof -
    let ?calls = "map Add_Message qs @ (if terminated then [Enqueue_Event (h_fd h) flags_error] else [])"
    have "drain (h_fd h) False (got_bytes ?k i) = (None, True, [], ?calls)"
      unfolding that(6) by (rule drain_client_stream [OF that(3-5)])
    moreover have "messages ?calls = qs" by (induction qs) simp_all
    ultimately show ?thesis using acts(2) [of i] that(1,2) by (auto simp: logged_by_def)
  qed
  with acts(1) show ?thesis by blast
qed

lemma wire_stream: "[0, 0, 0, 8, 0, 3, 0, 0, 0x51, 0, 0, 0, 6, 65, 0] = encode_packet [] BE [0, 3, 0, 0] @ encode_queries BE [[65]]"
  by (simp add: encode_packet_def encode_queries_def encode_uint32_def Query_CODE_def)

lemma wire_psql_call:
  assumes "mem_range p 0 n = [0, 0, 0, 8, 0, 3, 0, 0, 0x51, 0, 0, 0, 6, 65, 0]"
  shows "psql_call heap (Inr (rfd, p, n)) (handler_new fd) (w, b, q) =
    (None, (handler_new fd)\<lparr>first_msg_handled := True, h_buffer := []\<rparr>, w, b, log_message [65] q)"
proof -
  have "drain fd False (encode_packet [] BE [0, 3, 0, 0] @ encode_queries BE [[65]]) = (None, True, [], [Add_Message [65]])"
    using drain_client_stream [where fd = fd and start = "[0, 3, 0, 0]" and qs = "[[65]]" and terminated = False and e = BE] by simp
  with assms wire_stream show ?thesis
    by (simp add: psql_call_def handler_call_drain handler_new_def drain_result_def)
qed

text \<open>The session after its first turn.\<close>

definition psql_channels :: "handler list \<Rightarrow> nat \<rightharpoonup> (socket, handler) channel" where
  "psql_channels hs = [1 \<mapsto> \<lparr>ch_buffer = bip_new (\<lambda>_. 0), ch_left = \<lparr>sock_fd = 9\<rparr>, ch_right = \<lparr>sock_fd = 8\<rparr>, ch_handlers = []\<rparr>,
     0 \<mapsto> \<lparr>ch_buffer = bip_new (\<lambda>_. 0), ch_left = \<lparr>sock_fd = 8\<rparr>, ch_right = \<lparr>sock_fd = 9\<rparr>, ch_handlers = hs\<rparr>]"

definition wire_psql_open :: "(wire machine, callback) state" where
  "wire_psql_open =
     (\<lparr>errno = EAGAIN,
       kernel = \<lparr>os = \<lparr>w_open = {3, 5, 8, 9}, w_events = [[ready 8 EPOLLIN]], w_new = [],
                       w_in = [[0, 0, 0, 8, 0, 3, 0, 0, 0x51, 0, 0, 0, 6, 65, 0]], w_room = [], w_out = []\<rparr>,
                 sockets = [8, 9], channels = psql_channels [handler_new 8],
                 next_channel = 2, writer = fw_new wire_log, failed_assert = False,
                 got_bytes = \<lambda>_. [], put_bytes = \<lambda>_. []\<rparr>\<rparr>,
      \<lparr>callback_map = [5 \<mapsto> [Acceptor_Callback],
          8 \<mapsto> [Channel_Callback On_Left 0, Channel_Callback On_Right 1, Session_Callback [8, 9]],
          9 \<mapsto> [Channel_Callback On_Right 0, Channel_Callback On_Left 1, Session_Callback [8, 9]]],
       callbacks_to_remove = {}, events = [(5, flags_in)]\<rparr>)"

lemma wire_psql_1:
  "wire_turn Psql_Proxy (wire_start [8] [[ready 5 EPOLLIN], [ready 8 EPOLLIN]]
     [[0, 0, 0, 8, 0, 3, 0, 0, 0x51, 0, 0, 0, 6, 65, 0]] []) = wire_psql_open"
  by (simp add: wire_psql_open_def wire_simps attach_handler_def add_handler_def psql_channels_def insert_commute)

lemma wire_psql_2:
  "\<exists>ch h. channels (kernel (fst wire_psql)) 0 = Some ch \<and> ch_handlers ch = [h]"
  "got_bytes (kernel (fst wire_psql)) 0 = [0, 0, 0, 8, 0, 3, 0, 0, 0x51, 0, 0, 0, 6, 65, 0]"
proof -
  have second: "wire_psql = wire_turn Psql_Proxy wire_psql_open"
    by (simp add: wire_psql_def numeral_2_eq_2 wire_psql_1)
  show "\<exists>ch h. channels (kernel (fst wire_psql)) 0 = Some ch \<and> ch_handlers ch = [h]"
    "got_bytes (kernel (fst wire_psql)) 0 = [0, 0, 0, 8, 0, 3, 0, 0, 0x51, 0, 0, 0, 6, 65, 0]"
    unfolding second by (simp_all add: wire_psql_open_def psql_channels_def wire_simps channel_simps wire_psql_call fw_new_def)
qed

theorem program_logs_clients_witness:
  "\<exists>acts. writer (kernel (fst wire_psql)) = log_run acts (fw_new wire_log) \<and> messages_of 0 acts = [[65]]"
proof -
  have reach: "program_reachable wire_sys (wire_settings Psql_Proxy) wire_log wire_psql"
    unfolding wire_psql_def by (rule wire_turns_reachable)
  from program_logs_clients [OF reach wire_log_inv] obtain acts where
    acts: "writer (kernel (fst wire_psql)) = log_run acts (fw_new wire_log)" and
    logged: "\<And>i ch h e start qs terminated. channels (kernel (fst wire_psql)) i = Some ch \<Longrightarrow> ch_handlers ch = [h] \<Longrightarrow>
       4 \<le> length start \<Longrightarrow> length start + 4 < 65536 \<Longrightarrow> (\<forall>m\<in>set qs. length m + 5 < 65536) \<Longrightarrow>
       got_bytes (kernel (fst wire_psql)) i = encode_packet [] e start @ encode_queries e qs @
         (if terminated then encode_packet [Terminate_CODE] e [] else []) \<Longrightarrow>
       messages_of i acts = qs" by blast
  obtain ch h where ch: "channels (kernel (fst wire_psql)) 0 = Some ch" "ch_handlers ch = [h]"
    using wire_psql_2(1) by blast
  from logged [OF ch, of "[0, 3, 0, 0]" "[[65]]" BE False] acts show ?thesis
    by (auto simp: wire_psql_2(2) wire_stream)
qed

text \<open>
  C15. Registrations are well typed: every callback registered for a descriptor is the acceptor's on the
  listening socket, a session's on one of its descriptors, or that side of an existing channel which
  has this descriptor.
\<close>

theorem registrations_well_typed:
  assumes "program_reachable sys su q st"
  shows "\<forall>fd. \<forall>cb\<in>set (callbacks_of (snd st) fd). fits (su_listen su) (endpoints (fst st)) fd cb"
  using well_typed_reachable [OF assms] by (simp add: well_typed_def)

theorem registrations_well_typed_witness:
  "fits (su_listen (wire_settings Echo)) (endpoints (fst (wire_echo 2))) 8 (Channel_Callback On_Right 1)"
  using registrations_well_typed [OF wire_echo_reachable [of 2]] wire_echo_2(6) by blast

text \<open>
  C11. The reactor loop, with the writer thread running between its turns, is a run of the step relation:
  every state between two turns is reachable from the initial one, and if the loop returns it returns
  without an exception, in a reachable state.
\<close>

theorem reactor_refines_steps:
  assumes "program_init su q st" and "native_callback (su_epoll su) = None" and "\<not> ctx_stop_requested c"
  shows "program_reachable sys su q ((next_state (program_turn sys su turns) c ^^ n) st) \<and>
    (\<forall>x c' st'. run (program_turn sys su turns) signalled c st = Some (x, c', st') \<longrightarrow>
       x = None \<and> program_reachable sys su q st')"
proof -
  note turns = reachable_turns [OF assms(2) reachable_init [OF assms(1)], where turns = turns and c = c]
  have "x = None \<and> program_reachable sys su q st'"
    if "run (program_turn sys su turns) signalled c st = Some (x, c', st')" for x c' st'
    using run_ends [where wait = "program_turn sys su turns" and c = c, OF program_turn_no_exception assms(3) that] turns by auto
  with turns show ?thesis by blast
qed

theorem reactor_refines_steps_witness:
  "let turns = (\<lambda>st. [full_round 0]); signalled = (\<lambda>st. False); c = context_new (Some 10) None;
       st = wire_start [8] [[ready 5 EPOLLIN]] [] []
   in program_reachable wire_sys (wire_settings Psql_Proxy) wire_log
        ((next_state (program_turn wire_sys (wire_settings Psql_Proxy) turns) c ^^ 3) st) \<and>
      (\<forall>x c' st'. run (program_turn wire_sys (wire_settings Psql_Proxy) turns) signalled c st = Some (x, c', st') \<longrightarrow>
         x = None \<and> program_reachable wire_sys (wire_settings Psql_Proxy) wire_log st')"
  unfolding Let_def
  by (rule reactor_refines_steps [OF wire_init]) (simp_all add: wire_settings_def context_new_def)

end
