(* ===== verification/Program_Main.thy ===== *)
theory Program_Main
  imports Program_Run
begin

text \<open>
  \<^verbatim>\<open>src/echo/main.cpp\<close>, \<^verbatim>\<open>src/tcp_proxy/main.cpp\<close> and
  \<^verbatim>\<open>src/psql_proxy/main.cpp\<close>: arguments and their defaults, the objects a program makes, the
  reactor loop with the writer thread beside it, and how the process ends.
\<close>

section \<open>Starting\<close>

text \<open>What only the start of a program uses of its environment.\<close>

record 'os startup =
  m_epoll_create :: "('os, int) syscall"
  m_reuseaddr :: "fd \<Rightarrow> ('os, int) syscall"
  m_reuseport :: "fd \<Rightarrow> ('os, int) syscall"
  m_bind :: "fd \<Rightarrow> sockaddr \<Rightarrow> ('os, int) syscall"
  m_listen :: "fd \<Rightarrow> int \<Rightarrow> ('os, int) syscall"
  m_inet_addr :: inet_addr
  m_native :: endianness
  m_heap :: ptr
  m_mem :: "nat \<Rightarrow> byte"

text \<open>\<^verbatim>\<open>argv\<close> starts with the name of the program.\<close>

definition argument :: "string list \<Rightarrow> nat \<Rightarrow> string \<Rightarrow> string" where
  "argument argv i preset = (if i < length argv then argv ! i else preset)"

definition epoll_events :: u32 where
  "epoll_events = EPOLLIN OR EPOLLOUT OR EPOLLPRI OR EPOLLET"

definition tcp_backlog :: int where "tcp_backlog = 1024"

definition process_start :: "query_processor \<Rightarrow> int \<Rightarrow> 'os \<Rightarrow> 'os machine world" where
  "process_start q err k =
     \<lparr>errno = err,
      kernel = \<lparr>os = k, sockets = [], channels = Map.empty, next_channel = 0, writer = fw_new q,
                failed_assert = False, got_bytes = \<lambda>_. [], put_bytes = \<lambda>_. []\<rparr>\<rparr>"

text \<open>
  The server: its session manager makes the acceptor and adds the callback that makes sessions.
\<close>

definition server_new ::
  "'os startup \<Rightarrow> 'os sys \<Rightarrow> ('os machine, callback) epoll \<Rightarrow> v4 \<Rightarrow> ('os machine, callback) state \<Rightarrow>
   (exn + unit acceptor) \<times> ('os machine, callback) state" where
  "server_new m sys ep address st =
     (case acceptor_new (\<lambda>dom typ prot. lift_sys (s_socket sys dom typ prot))
        (\<lambda>fd. epoll_bus_add (bus_ctl sys) ep fd (Some Acceptor_Callback)) (epoll_bus_del (bus_ctl sys) ep)
        (\<lambda>fd. lift_sys (s_close sys fd))
        (listen_calls (\<lambda>fd. lift_sys (m_reuseaddr m fd)) (\<lambda>fd. lift_sys (m_reuseport m fd))
           (\<lambda>fd sa. lift_sys (m_bind m fd sa)) (\<lambda>fd n. lift_sys (m_listen m fd n))
           (get_sockaddr_in (m_inet_addr m) address) tcp_backlog)
        None st of
        (Inl ex, st1) \<Rightarrow> (Inl ex, st1)
      | (Inr acc, st1) \<Rightarrow> (Inr (add_callback (Some ()) acc), st1))"

definition settings_of :: "'os startup \<Rightarrow> program \<Rightarrow> ('os machine, callback) epoll \<Rightarrow> fd \<Rightarrow> v4 \<Rightarrow> 'os settings" where
  "settings_of m prog ep lfd target =
     \<lparr>su_program = prog, su_listen = lfd, su_epoll = ep, su_target = target,
      su_native = m_native m, su_heap = m_heap m, su_mem = m_mem m\<rparr>"

section \<open>Ending\<close>

text \<open>
  The exit code, or the end by \<^verbatim>\<open>std::terminate\<close>: an exception that passes the writer thread
  would destroy it while it is running.
\<close>

datatype exit_status = Exit int | Aborted

text \<open>
  The bus goes with the last object that holds it.  A socket holds the bus, and the bus holds the
  callbacks that hold the socket, so with a session still open it is never destroyed.
\<close>

definition bus_destroy :: "'os sys \<Rightarrow> ('os machine, callback) epoll \<Rightarrow> ('os machine, callback) destroy" where
  "bus_destroy sys ep = (\<lambda>(w, b).
     (if sockets (kernel w) = [] then (snd (epoll_destroy (\<lambda>fd. lift_sys (s_close sys fd)) ep w), b) else (w, b)))"

definition server_destroy :: "'os sys \<Rightarrow> ('os machine, callback) epoll \<Rightarrow> unit acceptor \<Rightarrow> ('os machine, callback) destroy" where
  "server_destroy sys ep =
     acceptor_destroy (epoll_bus_del (bus_ctl sys) ep) (\<lambda>fd. lift_sys (s_shutdown sys fd)) (\<lambda>fd. lift_sys (s_close sys fd))"

text \<open>The writer thread sees the stop request, perhaps after more rounds, flushes the file and ends.\<close>

definition join_writer :: "(('os machine, callback) state \<Rightarrow> writer_round list) \<Rightarrow> ('os machine, callback) destroy" where
  "join_writer turns st =
     (let (w, b) = writer_thread (turns st) st
      in (w\<lparr>kernel := (kernel w)\<lparr>writer := flush (writer (kernel w))\<rparr>\<rparr>, b))"

section \<open>The programs\<close>

text \<open>
  What the three have in common, from the construction of the server on.  \<open>turns\<close> are the rounds of
  the writer thread, \<open>signalled\<close> is whether a signal has come.
\<close>

definition serve ::
  "'os startup \<Rightarrow> 'os sys \<Rightarrow> program \<Rightarrow> (('os machine, callback) state \<Rightarrow> writer_round list) \<Rightarrow>
   (('os machine, callback) state \<Rightarrow> bool) \<Rightarrow> ('os machine, callback) epoll \<Rightarrow> v4 \<Rightarrow> v4 \<Rightarrow>
   ('os machine, callback) state \<Rightarrow> (exit_status \<times> ('os machine, callback) state) option" where
  "serve m sys prog turns signalled ep address target st =
     (case server_new m sys ep address st of
        (Inl ex, st1) \<Rightarrow> Some (Exit 1, bus_destroy sys ep st1)
      | (Inr acc, st1) \<Rightarrow>
          (case run (program_turn sys (settings_of m prog ep (acc_fd acc) target) turns) signalled
                  (context_new (Some 10) None) st1 of
             None \<Rightarrow> None
           | Some (Some ex, c, st2) \<Rightarrow>
               if prog = Psql_Proxy then Some (Aborted, st2)
               else Some (Exit 1, bus_destroy sys ep (server_destroy sys ep acc st2))
           | Some (None, c, st2) \<Rightarrow>
               Some (Exit 0, bus_destroy sys ep (server_destroy sys ep acc
                 (if prog = Psql_Proxy then join_writer turns st2 else st2)))))"

definition echo_main ::
  "'os startup \<Rightarrow> 'os sys \<Rightarrow> (('os machine, callback) state \<Rightarrow> bool) \<Rightarrow> string list \<Rightarrow> 'os machine world \<Rightarrow>
   (exit_status \<times> ('os machine, callback) state) option" where
  "echo_main m sys signalled argv w =
     (case epoll_new (lift_sys (m_epoll_create m)) epoll_events None w of
        (Inl ex, w1) \<Rightarrow> Some (Exit 1, w1, bus_new)
      | (Inr ep, w1) \<Rightarrow>
          (case v4_new (argument argv 1 ''127.0.0.1'') (argument argv 2 ''1234'') of
             Inl ex \<Rightarrow> Some (Exit 1, bus_destroy sys ep (w1, bus_new))
           | Inr address \<Rightarrow> serve m sys Echo (\<lambda>_. []) signalled ep address address (w1, bus_new)))"

definition tcp_proxy_main ::
  "'os startup \<Rightarrow> 'os sys \<Rightarrow> (('os machine, callback) state \<Rightarrow> bool) \<Rightarrow> string list \<Rightarrow> 'os machine world \<Rightarrow>
   (exit_status \<times> ('os machine, callback) state) option" where
  "tcp_proxy_main m sys signalled argv w =
     (case epoll_new (lift_sys (m_epoll_create m)) epoll_events None w of
        (Inl ex, w1) \<Rightarrow> Some (Exit 1, w1, bus_new)
      | (Inr ep, w1) \<Rightarrow>
          (case v4_new (argument argv 1 ''127.0.0.1'') (argument argv 2 ''1234'') of
             Inl ex \<Rightarrow> Some (Exit 1, bus_destroy sys ep (w1, bus_new))
           | Inr address \<Rightarrow>
               (case v4_new (argument argv 3 ''127.0.0.1'') (argument argv 4 ''5432'') of
                  Inl ex \<Rightarrow> Some (Exit 1, bus_destroy sys ep (w1, bus_new))
                | Inr target \<Rightarrow> serve m sys Tcp_Proxy (\<lambda>_. []) signalled ep address target (w1, bus_new))))"

text \<open>
  The PostgreSQL proxy reads its addresses first.  The log is made with the separator newline.  The file
  is opened, and never checked, before the writer thread starts: \<open>turns path\<close> are the rounds of the
  thread when it writes to the file of that name, which may accept nothing.
\<close>

definition psql_proxy_main ::
  "'os startup \<Rightarrow> 'os sys \<Rightarrow> (string \<Rightarrow> ('os machine, callback) state \<Rightarrow> writer_round list) \<Rightarrow>
   (('os machine, callback) state \<Rightarrow> bool) \<Rightarrow> string list \<Rightarrow> int \<Rightarrow> 'os \<Rightarrow>
   (exit_status \<times> ('os machine, callback) state) option" where
  "psql_proxy_main m sys turns signalled argv err k =
     (let w = process_start (query_processor_new (m_mem m) 10) err k
      in case v4_new (argument argv 1 ''127.0.0.1'') (argument argv 2 ''1235'') of
           Inl ex \<Rightarrow> Some (Exit 1, w, bus_new)
         | Inr address \<Rightarrow>
             (case v4_new (argument argv 3 ''127.0.0.1'') (argument argv 4 ''5432'') of
                Inl ex \<Rightarrow> Some (Exit 1, w, bus_new)
              | Inr target \<Rightarrow>
                  (case epoll_new (lift_sys (m_epoll_create m)) epoll_events None w of
                     (Inl ex, w1) \<Rightarrow> Some (Exit 1, w1, bus_new)
                   | (Inr ep, w1) \<Rightarrow>
                       serve m sys Psql_Proxy (turns (argument argv 5 ''/tmp/query.log'')) signalled ep address target
                         (w1, bus_new))))"

section \<open>The state in which the loop starts\<close>

lemma listen_steps_keeps:
  assumes "\<And>msg f fd w. (msg, f) \<in> set calls \<Longrightarrow> g (snd (f fd w)) = g w"
  shows "listen_steps calls fd w = (x, w') \<Longrightarrow> g w' = g w"
  using assms
proof (induction calls fd w rule: listen_steps.induct)
  case (2 msg f fs fd w)
  obtain r w1 where f: "f fd w = (r, w1)" by (rule prod.exhaust)
  with 2(3) [of msg f fd w] have 1: "g w1 = g w" by simp
  show ?case
  proof (cases "r < 0")
    case True
    with f 2(2) 1 show ?thesis by simp
  next
    case False
    with f 2(2) have "listen_steps fs fd w1 = (x, w')" by simp
    from 2(1) [OF f [symmetric] refl False this] 2(3) have "g w' = g w1" by fastforce
    with 1 show ?thesis by simp
  qed
qed simp

lemma server_new_ok:
  assumes "server_new m sys ep address (w, bus_new) = (Inr acc, w1, b1)"
  shows "objects w1 = objects w" and "sockets (kernel w1) = sockets (kernel w)"
    and "callback_map b1 = [acc_fd acc \<mapsto> [Acceptor_Callback]]" and "callbacks_to_remove b1 = {}" and "events b1 = []"
    and "acc_callbacks acc = [()]" and "acc_fd acc \<noteq> -1"
proof -
  let ?sock = "\<lambda>dom typ prot. lift_sys (s_socket sys dom typ prot)"
    and ?calls = "listen_calls (\<lambda>fd. lift_sys (m_reuseaddr m fd)) (\<lambda>fd. lift_sys (m_reuseport m fd))
       (\<lambda>fd sa. lift_sys (m_bind m fd sa)) (\<lambda>fd n. lift_sys (m_listen m fd n))
       (get_sockaddr_in (m_inet_addr m) address) tcp_backlog"
  let ?g = "\<lambda>w :: 'a machine world. (objects w, sockets (kernel w))"
  obtain sfd w2 where s: "?sock AF_INET (SOCK_STREAM OR SOCK_NONBLOCK) IPPROTO_TCP w = (sfd, w2)" by (rule prod.exhaust)
  have 2: "?g w2 = ?g w" using arg_cong [where f = "\<lambda>p. ?g (snd p)", OF s] by simp
  obtain x w3 b3 where a: "epoll_bus_add (bus_ctl sys) ep sfd (Some Acceptor_Callback) (w2, bus_new) = (x, w3, b3)"
    by (rule prod_cases3)
  have 3: "?g w3 = ?g w2"
    using arg_cong [where f = "\<lambda>p. ?g (fst (snd p))", OF a] add_fd_keeps [where g = ?g and sys_add = "epoll_add_fd (bus_ctl sys) ep"
        and fd = sfd and cb = "Some Acceptor_Callback" and st = "(w2, bus_new)"]
      epoll_add_fd_keeps [where g = ?g and ctl = "bus_ctl sys" and ep = ep]
    by (simp add: epoll_bus_add_def)
  obtain y w4 where l: "listen_steps ?calls sfd w3 = (y, w4)" by (rule prod.exhaust)
  have 4: "?g w4 = ?g w3"
    by (rule listen_steps_keeps [where g = ?g, OF _ l]) (auto simp: listen_calls_def)
  have ok: "sfd \<noteq> -1" "x = None" "y = None" "acc = add_callback (Some ()) \<lparr>acc_fd = sfd, acc_callbacks = []\<rparr>" "w1 = w4" "b1 = b3"
    using assms s a l
    by (auto simp: server_new_def acceptor_new_eq Let_def split: if_splits option.splits prod.splits)
  have "b3 = bus_new\<lparr>callback_map := [sfd \<mapsto> [Acceptor_Callback]]\<rparr>"
    using a ok(2) by (auto simp: epoll_bus_add_def add_fd_def bus_new_def split: prod.splits option.splits)
  with ok 2 3 4 show "objects w1 = objects w" "sockets (kernel w1) = sockets (kernel w)"
    "callback_map b1 = [acc_fd acc \<mapsto> [Acceptor_Callback]]" "callbacks_to_remove b1 = {}" "events b1 = []"
    "acc_callbacks acc = [()]" "acc_fd acc \<noteq> -1"
    by (simp_all add: add_callback_def bus_new_def)
qed

lemma epoll_new_keeps:
  assumes "epoll_new (lift_sys f) m cb w = (r, w1)"
  shows "objects w1 = objects w" and "sockets (kernel w1) = sockets (kernel w)"
    and "r = Inr ep \<Longrightarrow> native_callback ep = cb"
proof -
  obtain fd w2 where l: "lift_sys f w = (fd, w2)" by (rule prod.exhaust)
  with assms have "w1 = w2" "r = Inr ep \<Longrightarrow> native_callback ep = cb"
    by (auto simp: epoll_new_def split: if_splits)
  with l objects_lift_sys [of f w] sockets_lift_sys [of f w]
  show "objects w1 = objects w" "sockets (kernel w1) = sockets (kernel w)" "r = Inr ep \<Longrightarrow> native_callback ep = cb" by simp_all
qed

lemma server_new_init:
  assumes "server_new m sys ep address (w, bus_new) = (Inr acc, w1, b1)"
    and "objects w = objects (process_start q err k)" and "sockets (kernel w) = []"
  shows "program_init (settings_of m prog ep (acc_fd acc) target) q (w1, b1)"
proof -
  note ok = server_new_ok [OF assms(1)]
  have "objects w1 = objects (process_start q err k)" using ok(1) assms(2) by simp
  with ok(2-5) assms(3) show ?thesis
    by (simp add: program_init_def objects_def process_start_def settings_of_def)
qed

section \<open>The end of a run\<close>

lemma objects_del_fd [simp]: "objects (fst (snd (epoll_bus_del (bus_ctl sys) ep fd st))) = objects (fst st)"
  unfolding epoll_bus_del_def by (rule del_fd_keeps, rule epoll_del_fd_keeps) simp

lemma acceptor_close_keeps:
  assumes "\<And>fd st. g (fst (snd (del fd st))) = g (fst st)"
  shows "g (fst (snd (snd (acceptor_close del acc st)))) = g (fst st)"
proof -
  obtain x w1 b1 where d: "del (acc_fd acc) st = (x, w1, b1)" by (rule prod_cases3)
  with assms [of "acc_fd acc" st] have "g w1 = g (fst st)" by simp
  with d show ?thesis by (cases x) (simp_all add: acceptor_close_def)
qed

lemma objects_server_destroy [simp]: "objects (fst (server_destroy sys ep acc st)) = objects (fst st)"
proof -
  let ?del = "epoll_bus_del (bus_ctl sys) ep"
  note close = acceptor_close_keeps [where g = objects and del = ?del, OF objects_del_fd]
  obtain x acc1 w1 b1 where c: "acceptor_close ?del acc st = (x, acc1, w1, b1)" by (metis surj_pair)
  obtain r2 w2 where 2: "lift_sys (s_shutdown sys (acc_fd acc)) w1 = (r2, w2)" by (rule prod.exhaust)
  obtain r3 w3 where 3: "lift_sys (s_close sys (acc_fd acc)) w2 = (r3, w3)" by (rule prod.exhaust)
  have "objects w1 = objects (fst st)" "objects w2 = objects w1" "objects w3 = objects w2"
    using arg_cong [where f = "\<lambda>p. objects (fst (snd (snd p)))", OF c]
      arg_cong [where f = "\<lambda>p. objects (snd p)", OF 2] arg_cong [where f = "\<lambda>p. objects (snd p)", OF 3]
      close [of acc st] by simp_all
  with c 2 3 close [of acc1 "(w1, b1)"] close [of acc1 "(w3, b1)"] show ?thesis
    by (cases x) (simp_all add: server_destroy_def acceptor_destroy_def Let_def case_prod_unfold)
qed

lemma objects_bus_destroy [simp]: "objects (fst (bus_destroy sys ep st)) = objects (fst st)"
  by (cases st) (simp add: bus_destroy_def epoll_destroy_def Let_def split: prod.split, metis objects_lift_sys snd_conv)

text \<open>How a server can end: it cannot be set up, or a signal has come and all threads have ended.\<close>

lemma serve_cases:
  assumes "serve m sys prog turns signalled ep address target st = Some (status, st')"
  obtains (failed) ex st1 where "server_new m sys ep address st = (Inl ex, st1)" "status = Exit 1" "st' = bus_destroy sys ep st1"
  | (stopped) acc st1 n where "server_new m sys ep address st = (Inr acc, st1)" "status = Exit 0"
      "st' = bus_destroy sys ep (server_destroy sys ep acc
        (let st2 = (next_state (program_turn sys (settings_of m prog ep (acc_fd acc) target) turns) (context_new (Some 10) None) ^^ n) st1
         in if prog = Psql_Proxy then join_writer turns st2 else st2))"
proof -
  obtain r st1 where s: "server_new m sys ep address st = (r, st1)" by (rule prod.exhaust)
  show ?thesis
  proof (cases r)
    case (Inl ex)
    with assms s failed show ?thesis by (simp add: serve_def)
  next
    case (Inr acc)
    let ?turn = "program_turn sys (settings_of m prog ep (acc_fd acc) target) turns" and ?c = "context_new (Some 10) None"
    from assms s Inr obtain x where x: "run ?turn signalled ?c st1 = Some x"
      by (auto simp: serve_def split: option.splits)
    have "\<not> ctx_stop_requested ?c" by (simp add: context_new_def)
    from run_ends [where wait = ?turn and c = ?c, OF program_turn_no_exception this x] obtain n where
      "x = (None, context_stop ?c, (next_state ?turn ?c ^^ n) st1)" by blast
    with assms s Inr x have "status = Exit 0" "st' = bus_destroy sys ep (server_destroy sys ep acc
        (let st2 = (next_state ?turn ?c ^^ n) st1 in if prog = Psql_Proxy then join_writer turns st2 else st2))"
      by (auto simp: serve_def Let_def)
    with stopped s Inr show ?thesis by blast
  qed
qed

section \<open>Properties\<close>

text \<open>
  What a process that has ended leaves: its channels have forwarded what they received, and the
  writer thread has flushed what it has taken out of a log that holds the queries of the clients.
\<close>

definition finished_ok :: "query_processor \<Rightarrow> 'os machine world \<Rightarrow> bool" where
  "finished_ok q w \<longleftrightarrow> traffic_ok w \<and>
     (\<exists>acts. writer (kernel w) = flush (log_run acts (fw_new q)) \<and> (\<forall>i. logged_by (kernel w) i (messages_of i acts)))"

lemma finished_cong: "objects w' = objects w \<Longrightarrow> finished_ok q w' = finished_ok q w"
  using traffic_cong [of w' w] by (simp add: objects_def finished_ok_def logged_by_def)

lemma finished_joined:
  assumes "program_reachable sys su q st" and "qp_inv q"
  shows "finished_ok q (fst (join_writer turns st))"
proof -
  obtain w b where w: "writer_thread (turns st) st = (w, b)" by (rule prod.exhaust)
  from reachable_log [OF reachable_writer [OF assms(1)] assms(2), of "turns st"] have "log_ok q w" by (simp add: w)
  then show ?thesis
    by (auto simp: join_writer_def w log_ok_def finished_ok_def traffic_ok_def channel_ok_def logged_by_def flush_def)
qed



section \<open>Failing starts\<close>

text \<open>
  What the calls at the start of a program are documented to do with the open descriptors of the
  process, seen through \<open>opens\<close>.
\<close>

definition start_documented :: "'os startup \<Rightarrow> 'os sys \<Rightarrow> ('os world \<Rightarrow> fd set) \<Rightarrow> bool" where
  "start_documented m sys opens \<longleftrightarrow>
     sockets_documented (s_socket sys) (s_connect sys) (s_close sys) opens \<and>
     (\<forall>w. opens (snd (m_epoll_create m w)) =
        (if fst (m_epoll_create m w) < 0 then opens w else insert (fst (m_epoll_create m w)) (opens w)) \<and>
        (0 \<le> fst (m_epoll_create m w) \<longrightarrow> fst (m_epoll_create m w) \<notin> opens w)) \<and>
     (\<forall>e c fd ev w. opens (snd (s_ctl sys e c fd ev w)) = opens w) \<and>
     (\<forall>fd w. opens (snd (m_reuseaddr m fd w)) = opens w \<and> opens (snd (m_reuseport m fd w)) = opens w) \<and>
     (\<forall>fd sa n w. opens (snd (m_bind m fd sa w)) = opens w \<and> opens (snd (m_listen m fd n w)) = opens w)"

lemma server_new_failed:
  assumes doc: "start_documented m sys opens" and ctl: "\<And>e c fd ev w. fst (s_ctl sys e c fd ev w) \<noteq> -1"
    and "server_new m sys ep address (w, bus_new) = (Inl ex, w1, b1)"
  shows "opens (os_world w1) = opens (os_world w)" and "sockets (kernel w1) = sockets (kernel w)"
proof -
  let ?g = "\<lambda>w :: 'a machine world. (opens (os_world w), sockets (kernel w))"
    and ?sock = "\<lambda>family typ prot. lift_sys (s_socket sys family typ prot)"
    and ?calls = "listen_calls (\<lambda>fd. lift_sys (m_reuseaddr m fd)) (\<lambda>fd. lift_sys (m_reuseport m fd))
       (\<lambda>fd sa. lift_sys (m_bind m fd sa)) (\<lambda>fd n. lift_sys (m_listen m fd n))
       (get_sockaddr_in (m_inet_addr m) address) tcp_backlog"
  have g_lift: "?g (snd (lift_sys f w)) = ?g w" if "\<And>w. opens (snd (f w)) = opens w" for f :: "'a world \<Rightarrow> int \<times> 'a world" and w
    using that by (simp add: os_world_lift_sys)
  obtain sfd w2 where s: "?sock AF_INET (SOCK_STREAM OR SOCK_NONBLOCK) IPPROTO_TCP w = (sfd, w2)" by (rule prod.exhaust)
  have 2: "?g w2 = (if sfd = -1 then opens (os_world w) else insert sfd (opens (os_world w)), sockets (kernel w))"
    "sfd \<noteq> -1 \<longrightarrow> sfd \<notin> opens (os_world w)"
    using doc os_world_lift_sys [of "s_socket sys AF_INET (SOCK_STREAM OR SOCK_NONBLOCK) IPPROTO_TCP" w]
      sockets_lift_sys [of "s_socket sys AF_INET (SOCK_STREAM OR SOCK_NONBLOCK) IPPROTO_TCP" w]
    unfolding s by (simp_all add: start_documented_def sockets_documented_def)
  have "?g w1 = ?g w"
  proof (cases "sfd = -1")
    case True
    with assms(3) s 2 show ?thesis by (auto simp: server_new_def acceptor_new_eq)
  next
    case False
    let ?event = "\<lparr>ev_events = event_mask ep, ev_fd = sfd\<rparr>"
    obtain r3 w3 where 3: "bus_ctl sys (epfd ep) EPOLL_CTL_ADD sfd (Some ?event) w2 = (r3, w3)" by (rule prod.exhaust)
    obtain x w4 where 4: "listen_steps ?calls sfd w3 = (x, w4)" by (rule prod.exhaust)
    obtain r5 w5 where 5: "bus_ctl sys (epfd ep) EPOLL_CTL_DEL sfd None w4 = (r5, w5)" by (rule prod.exhaust)
    obtain r6 w6 where 6: "lift_sys (s_close sys sfd) w5 = (r6, w6)" by (rule prod.exhaust)
    have ok: "r3 \<noteq> -1" "r5 \<noteq> -1"
      using ctl os_world_lift_sys(2) [of "s_ctl sys (epfd ep) EPOLL_CTL_ADD sfd (Some ?event)" w2]
        os_world_lift_sys(2) [of "s_ctl sys (epfd ep) EPOLL_CTL_DEL sfd None" w4] unfolding 3 5 by simp_all
    have "?g w3 = ?g w2" "?g w5 = ?g w4"
      using doc g_lift [of "s_ctl sys (epfd ep) EPOLL_CTL_ADD sfd (Some ?event)" w2]
        g_lift [of "s_ctl sys (epfd ep) EPOLL_CTL_DEL sfd None" w4] unfolding 3 5
      by (simp_all add: start_documented_def)
    moreover have "?g w4 = ?g w3"
      using doc by (intro listen_steps_keeps [where g = ?g, OF _ 4])
        (auto simp: listen_calls_def start_documented_def os_world_lift_sys)
    moreover have "opens (os_world w6) = opens (os_world w5) - {sfd}" "sockets (kernel w6) = sockets (kernel w5)"
      using doc os_world_lift_sys(1) [of "s_close sys sfd" w5] sockets_lift_sys [of "s_close sys sfd" w5] unfolding 6
      by (simp_all add: start_documented_def sockets_documented_def)
    moreover have "w1 = w6"
      using assms(3) s False 3 4 5 6 ok
      by (auto simp: server_new_def acceptor_new_eq epoll_bus_add_def add_fd_def epoll_add_fd_def bus_new_def
          acceptor_close_def epoll_bus_del_def del_fd_def epoll_del_fd_def Let_def split: option.splits)
    ultimately show ?thesis using 2 False by auto
  qed
  then show "opens (os_world w1) = opens (os_world w)" and "sockets (kernel w1) = sockets (kernel w)" by simp_all
qed

lemma epoll_new_opens:
  assumes "start_documented m sys opens"
    and "epoll_new (lift_sys (m_epoll_create m)) mask' cb w = (r, w1)"
  shows "case r of Inl ex \<Rightarrow> opens (os_world w1) = opens (os_world w)
    | Inr ep \<Rightarrow> opens (os_world w1) = insert (epfd ep) (opens (os_world w)) \<and> epfd ep \<notin> opens (os_world w)"
proof -
  obtain fd w2 where l: "lift_sys (m_epoll_create m) w = (fd, w2)" by (rule prod.exhaust)
  from assms(1) os_world_lift_sys [of "m_epoll_create m" w, unfolded l]
  have "opens (os_world w2) = (if fd < 0 then opens (os_world w) else insert fd (opens (os_world w)))"
    "0 \<le> fd \<longrightarrow> fd \<notin> opens (os_world w)" by (simp_all add: start_documented_def)
  with assms(2) l show ?thesis by (auto simp: epoll_new_def split: if_splits)
qed

lemma bus_destroy_opens:
  assumes "start_documented m sys opens" and "sockets (kernel w) = []"
  shows "opens (os_world (fst (bus_destroy sys ep (w, b)))) = opens (os_world w) - {epfd ep}"
proof -
  obtain r w1 where c: "lift_sys (s_close sys (epfd ep)) w = (r, w1)" by (rule prod.exhaust)
  with os_world_lift_sys(1) [of "s_close sys (epfd ep)" w] assms show ?thesis
    by (simp add: bus_destroy_def epoll_destroy_def start_documented_def sockets_documented_def)
qed

lemma serve_failed:
  assumes "start_documented m sys opens" and "\<And>e c fd ev w. fst (s_ctl sys e c fd ev w) \<noteq> -1"
    and "sockets (kernel w) = []"
    and "serve m sys prog turns signalled ep address target (w, bus_new) = Some (Exit 1, w', b')"
  shows "opens (os_world w') = opens (os_world w) - {epfd ep}"
  using assms(4)
proof (cases rule: serve_cases)
  case (failed ex st1)
  obtain w1 b1 where st1: "st1 = (w1, b1)" by (cases st1)
  note new = server_new_failed [OF assms(1,2) failed(1) [unfolded st1]]
  with bus_destroy_opens [OF assms(1), of w1 ep b1] failed(3) [symmetric] assms(3) show ?thesis by (simp add: st1)
qed simp

lemma start_failed:
  assumes "start_documented m sys opens" and "\<And>e c fd ev w. fst (s_ctl sys e c fd ev w) \<noteq> -1"
    and "sockets (kernel w) = []" and "epoll_new (lift_sys (m_epoll_create m)) epoll_events None w = (Inr ep, w1)"
    and "bus_destroy sys ep (w1, bus_new) = (w', b') \<or>
         serve m sys prog turns signalled ep address target (w1, bus_new) = Some (Exit 1, w', b')"
  shows "opens (os_world w') = opens (os_world w)"
proof -
  have 1: "sockets (kernel w1) = []" using epoll_new_keeps(2) [OF assms(4)] assms(3) by simp
  have "opens (os_world w') = opens (os_world w1) - {epfd ep}"
    using assms(5) bus_destroy_opens [OF assms(1) 1, of ep bus_new] serve_failed [OF assms(1,2) 1] by auto
  with epoll_new_opens [OF assms(1,4)] show ?thesis by auto
qed


section \<open>Examples\<close>

text \<open>An environment in which \<open>port_free\<close> says whether the address can be bound, and one small kernel.\<close>

definition startup_example :: "bool \<Rightarrow> fd set startup" where
  "startup_example port_free =
     \<lparr>m_epoll_create = \<lambda>w. if 3 \<in> kernel w then (-1, w) else (3, w\<lparr>kernel := insert 3 (kernel w)\<rparr>),
      m_reuseaddr = \<lambda>fd w. (0, w), m_reuseport = \<lambda>fd w. (0, w),
      m_bind = \<lambda>fd sa w. (if port_free then 0 else -1, w), m_listen = \<lambda>fd n w. (0, w),
      m_inet_addr = \<lambda>s. 0x7F000001, m_native = LE, m_heap = (\<lambda>_. 0), m_mem = (\<lambda>_. 0)\<rparr>"

definition sys_example :: "fd set sys" where
  "sys_example =
     \<lparr>s_recv = \<lambda>fd n w. (None, w), s_send = \<lambda>fd bs w. (None, w), s_ctl = \<lambda>e c fd ev w. (0, w),
      s_wait = \<lambda>e n t w. ((0, []), w), s_accept = \<lambda>fd w. ((-1, peer_example), w), s_socket = sys_socket_example,
      s_connect = sys_connect_example, s_shutdown = \<lambda>fd w. (0, w), s_close = sys_close_example,
      s_getaddrinfo = \<lambda>h s a w. (Inr [], w), s_ntop = \<lambda>f a. Some ''127.0.0.1''\<rparr>"

lemma default_addresses:
  "v4_new ''127.0.0.1'' ''1235'' = Inr \<lparr>v4_host = ''127.0.0.1'', v4_port = 1235\<rparr>"
  "v4_new ''127.0.0.1'' ''5432'' = Inr \<lparr>v4_host = ''127.0.0.1'', v4_port = 5432\<rparr>"
  by (simp_all add: v4_new_def stoi_def split_sign_def is_space_def is_digit_def digits_val_def digit_val_def)

lemmas example_simps =
  startup_example_def sys_example_def psql_proxy_main_def argument_def default_addresses epoll_new_def lift_sys_def
  os_world_def with_os_def process_start_def server_new_def acceptor_new_eq sys_socket_example_def sys_close_example_def
  epoll_bus_add_def add_fd_def epoll_add_fd_def bus_new_def listen_calls_def add_callback_def

lemma example_server:
  "server_new (startup_example True) sys_example \<lparr>epfd = 3, event_mask = epoll_events, native_callback = None\<rparr> address
     (process_start q 0 {3}, bus_new) =
   (Inr \<lparr>acc_fd = 4, acc_callbacks = [()]\<rparr>, process_start q 0 {3, 4}, bus_new\<lparr>callback_map := [4 \<mapsto> [Acceptor_Callback]]\<rparr>)"
  by (simp add: example_simps insert_commute)

lemma example_epoll:
  "epoll_new (lift_sys (m_epoll_create (startup_example b))) epoll_events None (process_start q 0 {}) =
   (Inr \<lparr>epfd = 3, event_mask = epoll_events, native_callback = None\<rparr>, process_start q 0 {3})"
  by (simp add: example_simps)

lemma example_exit:
  "\<exists>w b. psql_proxy_main (startup_example True) sys_example turns (\<lambda>_. True) [''psql_proxy''] 0 {} = Some (Exit 0, w, b)"
  by (simp add: psql_proxy_main_def argument_def default_addresses example_epoll serve_def example_server run_stop)

lemma example_failure:
  "\<exists>w b. psql_proxy_main (startup_example False) sys_example turns signalled [''psql_proxy''] 0 {} = Some (Exit 1, w, b)"
proof -
  let ?ep = "\<lparr>epfd = 3, event_mask = epoll_events, native_callback = None\<rparr>"
  have "\<exists>ex. fst (server_new (startup_example False) sys_example ?ep address (process_start q 0 {3}, bus_new)) = Inl ex" for address q
    by (simp add: example_simps acceptor_close_def epoll_bus_del_def del_fd_def epoll_del_fd_def del_fd_callbacks_def)
  then obtain ex st where "server_new (startup_example False) sys_example ?ep \<lparr>v4_host = ''127.0.0.1'', v4_port = 1235\<rparr>
      (process_start (query_processor_new (m_mem (startup_example False)) 10) 0 {3}, bus_new) = (Inl ex, st)"
    by (metis prod.collapse)
  then show ?thesis
    by (simp add: psql_proxy_main_def argument_def default_addresses example_epoll serve_def)
qed




end
