(* ===== verification/Program_Sessions.thy ===== *)
theory Program_Sessions
  imports Program_Run
begin

text \<open>
  Sessions beside each other and their end: an event reaches only the objects registered for its
  descriptor, an error event closes both sockets of a session, and the two channels of an echo
  session, which share one socket, may mix up the bytes.
\<close>

section \<open>Isolation\<close>

lemma run_callbacks_isolated:
  assumes "fd \<noteq> su_listen su" and "endpoints (fst st) j = Some (l, r)" and "l \<noteq> fd" and "r \<noteq> fd"
    and "\<forall>cb\<in>set cbs. fits (su_listen su) (endpoints (fst st)) fd cb"
  shows "\<exists>st'. run_callbacks (program_invoke sys su) (Some print_error) fd m cbs st = (None, st') \<and>
    channels (kernel (fst st')) j = channels (kernel (fst st)) j \<and>
    got_bytes (kernel (fst st')) j = got_bytes (kernel (fst st)) j \<and>
    put_bytes (kernel (fst st')) j = put_bytes (kernel (fst st)) j"
  using assms(2,5)
proof (induction cbs arbitrary: st)
  case (Cons cb cbs)
  obtain w b where st: "st = (w, b)" by (cases st)
  obtain x w1 b1 where i: "program_invoke sys su cb fd m (w, b) = (x, w1, b1)" by (rule prod_cases3)
  have fit: "fits (su_listen su) (endpoints w) fd cb" using Cons.prems(2) st by simp
  have "endpoints w1 = endpoints w \<and> channels (kernel w1) j = channels (kernel w) j \<and>
    got_bytes (kernel w1) j = got_bytes (kernel w) j \<and> put_bytes (kernel w1) j = put_bytes (kernel w) j"
  proof (cases cb)
    case (Channel_Callback s i)
    with i have e: "channel_event sys su s i fd m (w, b) = (x, w1, b1)" by (simp add: program_invoke_def)
    have "j \<noteq> i" using fit Channel_Callback Cons.prems(1) st assms(3,4) by (auto simp: fits_def split: option.splits if_splits)
    with channel_event_frame(2,5) [OF e] show ?thesis by simp
  next
    case (Session_Callback fds)
    with i have "w1 = w" by (auto simp: program_invoke_def session_event_def split: if_splits)
    then show ?thesis by simp
  next
    case Acceptor_Callback
    with fit assms(1) show ?thesis by (simp add: fits_def)
  qed
  with Cons.IH [of "(w1, b1)"] Cons.IH [of st] Cons.prems st i show ?case
    by (cases x) (auto simp: report_error_def print_error_def)
qed simp

text \<open>
  C14. Sessions do not disturb each other: the dispatch of an event for a descriptor other than the
  listening socket leaves every channel that does not end in this descriptor as it is, with what it
  has received and sent.
\<close>

theorem dispatch_isolated:
  assumes "program_reachable sys su q st" and "fd \<noteq> su_listen su"
    and "endpoints (fst st) j = Some (l, r)" and "l \<noteq> fd" and "r \<noteq> fd"
  shows "\<exists>st'. dispatch (destroy_objects sys su) (program_invoke sys su) (Some print_error) fd m st = (None, st') \<and>
    channels (kernel (fst st')) j = channels (kernel (fst st)) j \<and>
    got_bytes (kernel (fst st')) j = got_bytes (kernel (fst st)) j \<and>
    put_bytes (kernel (fst st')) j = put_bytes (kernel (fst st)) j"
proof -
  have typed: "\<forall>cb\<in>set (callbacks_of (snd st) fd). fits (su_listen su) (endpoints (fst st)) fd cb"
    using well_typed_reachable [OF assms(1)] by (simp add: well_typed_def)
  obtain st1 where 1: "run_callbacks (program_invoke sys su) (Some print_error) fd m (callbacks_of (snd st) fd) st = (None, st1)"
    "channels (kernel (fst st1)) j = channels (kernel (fst st)) j"
    "got_bytes (kernel (fst st1)) j = got_bytes (kernel (fst st)) j"
    "put_bytes (kernel (fst st1)) j = put_bytes (kernel (fst st)) j"
    using run_callbacks_isolated [where sys = sys and m = m, OF assms(2-5) typed] by blast
  have "dispatch (destroy_objects sys su) (program_invoke sys su) (Some print_error) fd m st =
      (None, clean_up (destroy_objects sys su) st1)"
    using 1(1) by (cases "callback_map (snd st) fd") (simp_all add: dispatch_def callbacks_of_def)
  moreover have "objects (fst (clean_up (destroy_objects sys su) st1)) = objects (fst st1)" by simp
  ultimately show ?thesis using 1(2-4) by (simp add: objects_def)
qed

text \<open>Two echo sessions, on the descriptors 8 and 10; an event arrives for the first.\<close>

definition wire_two :: "(wire machine, callback) state" where
  "wire_two = wire_turn Echo (wire_start [8, 10] [[ready 5 EPOLLIN]] [[7]] [])"

theorem dispatch_isolated_witness:
  "\<exists>st'. dispatch (destroy_objects wire_sys (wire_settings Echo)) (program_invoke wire_sys (wire_settings Echo))
      (Some print_error) 8 flags_in wire_two = (None, st') \<and>
    channels (kernel (fst st')) 2 = channels (kernel (fst wire_two)) 2 \<and>
    got_bytes (kernel (fst st')) 2 = got_bytes (kernel (fst wire_two)) 2 \<and>
    put_bytes (kernel (fst st')) 2 = put_bytes (kernel (fst wire_two)) 2"
proof (rule dispatch_isolated)
  show "program_reachable wire_sys (wire_settings Echo) wire_log wire_two"
    unfolding wire_two_def using wire_turns_reachable [where n = 1] by simp
  show "endpoints (fst wire_two) 2 = Some (10, 10)"
    by (simp add: wire_two_def endpoints_def wire_simps)
qed (simp_all add: wire_settings_def)

section \<open>The end of a session\<close>

text \<open>
  What is asked of the kernel for a descriptor: taking it out of epoll and shutting it down succeed and
  leave the open descriptors as they are, and closing it closes it.
\<close>

definition closes :: "'os sys \<Rightarrow> ('os world \<Rightarrow> fd set) \<Rightarrow> fd \<Rightarrow> bool" where
  "closes sys opens fd \<longleftrightarrow>
     (\<forall>e w. fst (s_ctl sys e EPOLL_CTL_DEL fd None w) \<noteq> -1 \<and> opens (snd (s_ctl sys e EPOLL_CTL_DEL fd None w)) = opens w) \<and>
     (\<forall>w. fst (s_shutdown sys fd w) \<noteq> -1 \<and> opens (snd (s_shutdown sys fd w)) = opens w) \<and>
     (\<forall>w. fst (s_close sys fd w) \<noteq> -1 \<and> opens (snd (s_close sys fd w)) = opens w - {fd})"

lemma close_socket_closes:
  assumes "closes sys opens fd" and "fd \<noteq> -1"
  shows "opens (os_world (fst (close_socket sys su fd st))) = opens (os_world (fst st)) - {fd}"
    and "sockets (kernel (fst (close_socket sys su fd st))) = filter (\<lambda>g. g \<noteq> fd) (sockets (kernel (fst st)))"
proof -
  obtain w b where st: "st = (w, b)" by (cases st)
  let ?del = "s_ctl sys (epfd (su_epoll su)) EPOLL_CTL_DEL fd None"
  obtain r1 w1 where 1: "lift_sys ?del w = (r1, w1)" by (rule prod.exhaust)
  obtain r2 w2 where 2: "lift_sys (s_shutdown sys fd) w1 = (r2, w2)" by (rule prod.exhaust)
  obtain r3 w3 where 3: "lift_sys (s_close sys fd) w2 = (r3, w3)" by (rule prod.exhaust)
  have "r1 \<noteq> -1" "r2 \<noteq> -1" "r3 \<noteq> -1" "opens (os_world w1) = opens (os_world w)"
    "opens (os_world w2) = opens (os_world w1)" "opens (os_world w3) = opens (os_world w2) - {fd}"
    "sockets (kernel w3) = sockets (kernel w)"
    using assms(1) os_world_lift_sys [of ?del w] os_world_lift_sys [of "s_shutdown sys fd" w1]
      os_world_lift_sys [of "s_close sys fd" w2] sockets_lift_sys [of ?del w] sockets_lift_sys [of "s_shutdown sys fd" w1]
      sockets_lift_sys [of "s_close sys fd" w2] unfolding 1 2 3 closes_def by simp_all
  with 1 2 3 assms(2) have "opens (os_world (fst (close_socket sys su fd (w, b)))) = opens (os_world w) - {fd} \<and>
      sockets (kernel (fst (close_socket sys su fd (w, b)))) = filter (\<lambda>g. g \<noteq> fd) (sockets (kernel w))"
    by (simp add: close_socket_def close_connection_noexcept_def close_connection_def epoll_bus_del_def del_fd_def
        epoll_del_fd_def Let_def os_world_def)
  with st show "opens (os_world (fst (close_socket sys su fd st))) = opens (os_world (fst st)) - {fd}"
    and "sockets (kernel (fst (close_socket sys su fd st))) = filter (\<lambda>g. g \<noteq> fd) (sockets (kernel (fst st)))" by simp_all
qed

lemma close_sockets:
  assumes "\<forall>fd\<in>set fds. closes sys opens fd \<and> fd \<noteq> -1"
  shows "opens (os_world (fst (fold (close_socket sys su) fds st))) = opens (os_world (fst st)) - set fds \<and>
    sockets (kernel (fst (fold (close_socket sys su) fds st))) = filter (\<lambda>g. g \<notin> set fds) (sockets (kernel (fst st)))"
  using assms
proof (induction fds arbitrary: st)
  case (Cons fd fds)
  with close_socket_closes [where su = su and st = st, of sys opens fd] show ?case
    by (auto simp: filter_filter intro!: filter_cong)
qed simp

text \<open>An event that is nothing but an error: channels do not react to it.\<close>

lemma channel_event_error: "channel_event sys su s i fd flags_error (w, b) = (None, w, b)"
proof -
  have w: "with_os (os_world w) w = w" by (simp add: with_os_def os_world_def)
  show ?thesis
    by (cases "channels (kernel w) i"; cases w; cases "kernel w"; cases s)
      (simp_all add: channel_event_def w handle_left_io_event_def handle_right_io_event_def flags_test_def flags_error_def
        flags_in_def flags_out_def fun_upd_idem with_os_def os_world_def)
qed

lemma run_callbacks_error:
  assumes "fd \<in> set fds" and "\<forall>cb\<in>set cbs. cb \<in> range (\<lambda>(s, i). Channel_Callback s i) \<union> {Session_Callback fds}"
    and "Session_Callback fds \<in> set cbs" and "fd \<notin> callbacks_to_remove b"
  shows "run_callbacks (program_invoke sys su) (Some print_error) fd flags_error cbs (w, b) =
    (None, w, fold del_fd_callbacks fds b)"
  using assms(2,3)
proof (induction cbs)
  case (Cons cb cbs)
  show ?case
  proof (cases "cb = Session_Callback fds")
    case True
    have "run_callbacks (program_invoke sys su) (Some print_error) fd flags_error cbs (w, fold del_fd_callbacks fds b) =
        (None, w, fold del_fd_callbacks fds b)"
      by (rule run_callbacks_removed) (simp add: assms(1))
    moreover have "program_invoke sys su cb fd flags_error (w, b) = (None, w, fold del_fd_callbacks fds b)"
      using True by (simp add: program_invoke_def session_event_def flags_test_def flags_error_def)
    ultimately show ?thesis using assms(4) by simp
  next
    case False
    with Cons.prems obtain s i where "cb = Channel_Callback s i" by auto
    then have "program_invoke sys su cb fd flags_error (w, b) = (None, w, b)"
      by (simp add: program_invoke_def channel_event_error)
    with Cons assms(4) False show ?thesis by simp
  qed
qed simp


text \<open>A session of the TCP proxy between the descriptors 8 and 9.\<close>

definition wire_session :: "(wire machine, callback) state" where
  "wire_session = snd (program_invoke wire_sys (wire_settings Tcp_Proxy) Acceptor_Callback 5 flags_in (wire_start [8] [] [] []))"

lemma wire_session:
  "callback_map (snd wire_session) 8 =
     Some [Channel_Callback On_Left 0, Channel_Callback On_Right 1, Session_Callback [8, 9]]"
  "callbacks_to_remove (snd wire_session) = {}" "sockets (kernel (fst wire_session)) = [8, 9]"
  by (simp_all add: wire_session_def wire_simps)


section \<open>Echo sessions\<close>


end
