(* ===== verification/Program_Open.thy ===== *)
theory Program_Open
  imports Program_Run
begin

text \<open>
  Descriptors and lifetimes: with a kernel that hands out fresh descriptors, every descriptor that a
  registered callback may use belongs to a socket of the program that has not been closed, so no
  callback reads from or writes to a descriptor that is closed or has been given to another socket.
\<close>

section \<open>What the kernel does to the open descriptors\<close>

definition descriptors_documented :: "'os sys \<Rightarrow> ('os world \<Rightarrow> fd set) \<Rightarrow> bool" where
  "descriptors_documented sys opens \<longleftrightarrow>
     sockets_documented (s_socket sys) (s_connect sys) (s_close sys) opens \<and>
     (\<forall>fd w. opens (snd (s_accept sys fd w)) =
        (if fst (fst (s_accept sys fd w)) = -1 then opens w else insert (fst (fst (s_accept sys fd w))) (opens w)) \<and>
        (fst (fst (s_accept sys fd w)) \<noteq> -1 \<longrightarrow> fst (fst (s_accept sys fd w)) \<notin> opens w)) \<and>
     (\<forall>w e. opens (w\<lparr>errno := e\<rparr>) = opens w) \<and>
     (\<forall>fd n w. opens (snd (s_recv sys fd n w)) = opens w) \<and>
     (\<forall>fd bs w. opens (snd (s_send sys fd bs w)) = opens w) \<and>
     (\<forall>e c fd ev w. opens (snd (s_ctl sys e c fd ev w)) = opens w) \<and>
     (\<forall>e n t w. opens (snd (s_wait sys e n t w)) = opens w) \<and>
     (\<forall>fd w. opens (snd (s_shutdown sys fd w)) = opens w) \<and>
     (\<forall>h p a w. opens (snd (s_getaddrinfo sys h p a w)) = opens w)"

lemma descriptors_documentedD:
  assumes "descriptors_documented sys opens"
  shows "sockets_documented (s_socket sys) (s_connect sys) (s_close sys) opens"
    and "opens (w\<lparr>errno := e\<rparr>) = opens w" and "opens (snd (s_recv sys fd n w)) = opens w"
    and "opens (snd (s_send sys fd bs w)) = opens w" and "opens (snd (s_ctl sys ep c fd ev w)) = opens w"
    and "opens (snd (s_wait sys ep n t w)) = opens w" and "opens (snd (s_shutdown sys fd w)) = opens w"
    and "opens (snd (s_getaddrinfo sys h p a w)) = opens w" and "opens (snd (s_close sys fd w)) = opens w - {fd}"
  using assms by (simp_all add: descriptors_documented_def sockets_documented_def)

lemma accept_documented_fds:
  assumes "descriptors_documented sys opens" and "s_accept sys fd w = ((conn, sa), w1)" and "conn \<noteq> -1"
  shows "opens w1 = insert conn (opens w)" "conn \<notin> opens w"
  using assms unfolding descriptors_documented_def by (metis fst_conv snd_conv)+

lemma accept_documented_failed:
  assumes "descriptors_documented sys opens" and "s_accept sys fd w = ((-1, sa), w1)"
  shows "opens w1 = opens w"
  using assms unfolding descriptors_documented_def by (metis fst_conv snd_conv)

text \<open>The open descriptors, in the state of the program.\<close>

abbreviation open_fds :: "('os world \<Rightarrow> fd set) \<Rightarrow> 'os machine world \<Rightarrow> fd set" where
  "open_fds opens w \<equiv> opens (os_world w)"

lemma os_world_simps [simp]:
  "os_world (w\<lparr>kernel := (kernel w)\<lparr>sockets := ss\<rparr>\<rparr>) = os_world w"
  "os_world (w\<lparr>kernel := (kernel w)\<lparr>writer := fw\<rparr>\<rparr>) = os_world w"
  "os_world (w\<lparr>kernel := (kernel w)\<lparr>failed_assert := f\<rparr>\<rparr>) = os_world w"
  "os_world (w\<lparr>errno := e\<rparr>) = (os_world w)\<lparr>errno := e\<rparr>"
  "os_world (make_socket fd w) = os_world w" "os_world (make_channels su l r w) = os_world w"
  "os_world (attach_handler s w) = os_world w" "os_world (with_os w' w) = w'"
  by (simp_all add: os_world_def make_socket_def make_channels_def attach_handler_def with_os_def Let_def split: option.split)

section \<open>The invariant\<close>

text \<open>The descriptors that a callback may use.\<close>

definition owned :: "(nat \<Rightarrow> (fd \<times> fd) option) \<Rightarrow> callback \<Rightarrow> fd set" where
  "owned ends cb =
     (case cb of
        Channel_Callback s i \<Rightarrow> (case ends i of None \<Rightarrow> {} | Some (l, r) \<Rightarrow> {l, r})
      | Session_Callback fds \<Rightarrow> set fds
      | Acceptor_Callback \<Rightarrow> {})"

lemma owns_owned: "owns (channels (kernel w)) cb fd \<longleftrightarrow> fd \<in> owned (endpoints w) cb"
  by (auto simp: owns_def owned_def endpoints_def split: callback.split option.split)

lemma fits_owned: "fits lfd ends fd cb \<Longrightarrow> cb \<noteq> Acceptor_Callback \<Longrightarrow> fd \<in> owned ends cb"
  by (auto simp: fits_def owned_def split: callback.splits option.splits if_splits)

lemma owned_mono: "fits lfd ends fd cb \<Longrightarrow> ends \<subseteq>\<^sub>m ends' \<Longrightarrow> owned ends' cb = owned ends cb"
  by (auto simp: fits_def owned_def map_le_def dom_def split: callback.splits option.splits)

text \<open>
  The sockets that exist have different, open descriptors, none of which is the listening one; a
  registered callback owns sockets that exist.
\<close>

definition sockets_live :: "'os settings \<Rightarrow> ('os world \<Rightarrow> fd set) \<Rightarrow> 'os machine world \<Rightarrow> bool" where
  "sockets_live su opens w \<longleftrightarrow>
     distinct (sockets (kernel w)) \<and> set (sockets (kernel w)) \<subseteq> open_fds opens w - {su_listen su} \<and>
     su_listen su \<in> open_fds opens w"

definition callbacks_live :: "('os machine, callback) state \<Rightarrow> bool" where
  "callbacks_live st \<longleftrightarrow>
     (\<forall>fd. \<forall>cb\<in>set (callbacks_of (snd st) fd). owned (endpoints (fst st)) cb \<subseteq> set (sockets (kernel (fst st))))"

definition live :: "'os settings \<Rightarrow> ('os world \<Rightarrow> fd set) \<Rightarrow> ('os machine, callback) state \<Rightarrow> bool" where
  "live su opens st \<longleftrightarrow> sockets_live su opens (fst st) \<and> callbacks_live st"

lemma sockets_live_cong:
  "sockets_live su opens w \<Longrightarrow> sockets (kernel w') = sockets (kernel w) \<Longrightarrow> open_fds opens w' = open_fds opens w \<Longrightarrow>
   sockets_live su opens w'"
  by (simp add: sockets_live_def)

lemma callbacks_live_cong:
  assumes "callbacks_live (w, b)" and "endpoints w' = endpoints w" and "set (sockets (kernel w)) \<subseteq> set (sockets (kernel w'))"
    and "\<And>fd. set (callbacks_of b' fd) \<subseteq> set (callbacks_of b fd)"
  shows "callbacks_live (w', b')"
  using assms unfolding callbacks_live_def by (auto, blast)

text \<open>A new socket.\<close>

lemma sockets_live_new:
  assumes "sockets_live su opens w" and "sockets (kernel w') = sockets (kernel w) @ [fd]"
    and "open_fds opens w' = insert fd (open_fds opens w)" and "fd \<notin> open_fds opens w"
  shows "sockets_live su opens w'"
  using assms by (auto simp: sockets_live_def)

section \<open>Closing\<close>

lemma close_socket_live:
  assumes doc: "descriptors_documented sys opens"
  shows "sockets (kernel (fst (close_socket sys su fd st))) = filter (\<lambda>g. g \<noteq> fd) (sockets (kernel (fst st)))"
    and "open_fds opens (fst st) - {fd} \<subseteq> open_fds opens (fst (close_socket sys su fd st))"
proof -
  note doc = descriptors_documentedD [OF doc]
  obtain w b where st: "st = (w, b)" by (cases st)
  let ?del = "s_ctl sys (epfd (su_epoll su)) EPOLL_CTL_DEL fd None"
  obtain r1 w1 where 1: "lift_sys ?del w = (r1, w1)" by (rule prod.exhaust)
  obtain r2 w2 where 2: "lift_sys (s_shutdown sys fd) w1 = (r2, w2)" by (rule prod.exhaust)
  obtain r3 w3 where 3: "lift_sys (s_close sys fd) w2 = (r3, w3)" by (rule prod.exhaust)
  have eqs: "open_fds opens w1 = open_fds opens w" "open_fds opens w2 = open_fds opens w1"
    "open_fds opens w3 = open_fds opens w2 - {fd}"
    "sockets (kernel w1) = sockets (kernel w)" "sockets (kernel w2) = sockets (kernel w1)"
    "sockets (kernel w3) = sockets (kernel w2)"
    using doc(5,7,9) os_world_lift_sys [of ?del w] os_world_lift_sys [of "s_shutdown sys fd" w1]
      os_world_lift_sys [of "s_close sys fd" w2] sockets_lift_sys [of ?del w] sockets_lift_sys [of "s_shutdown sys fd" w1]
      sockets_lift_sys [of "s_close sys fd" w2] unfolding 1 2 3 by simp_all
  let ?w' = "fst (close_socket sys su fd (w, b))"
  have "sockets (kernel ?w') = filter (\<lambda>g. g \<noteq> fd) (sockets (kernel w)) \<and> open_fds opens w - {fd} \<subseteq> open_fds opens ?w'"
    using 1 2 3 eqs
    by (auto simp: close_socket_def close_connection_noexcept_def close_connection_def epoll_bus_del_def del_fd_def
        epoll_del_fd_def Let_def)
  with st show "sockets (kernel (fst (close_socket sys su fd st))) = filter (\<lambda>g. g \<noteq> fd) (sockets (kernel (fst st)))"
    and "open_fds opens (fst st) - {fd} \<subseteq> open_fds opens (fst (close_socket sys su fd st))" by simp_all
qed

lemma close_sockets_live:
  assumes doc: "descriptors_documented sys opens"
  shows "sockets (kernel (fst (fold (close_socket sys su) fds st))) = filter (\<lambda>g. g \<notin> set fds) (sockets (kernel (fst st))) \<and>
    open_fds opens (fst st) - set fds \<subseteq> open_fds opens (fst (fold (close_socket sys su) fds st))"
proof (induction fds arbitrary: st)
  case (Cons fd fds)
  note c = close_socket_live [OF doc, where su = su and fd = fd and st = st]
  have "filter (\<lambda>g. g \<notin> set fds) (filter (\<lambda>g. g \<noteq> fd) xs) = filter (\<lambda>g. g \<notin> set (fd # fds)) xs" for xs :: "fd list"
    by (simp add: conj_commute)
  with Cons [of "close_socket sys su fd st"] c show ?case by auto
qed simp

text \<open>Only sockets that no registered callback owns are destroyed.\<close>

lemma destroy_live:
  assumes doc: "descriptors_documented sys opens" and "well_typed su (w, b)" and "live su opens (w, b)"
  shows "live su opens (destroy_objects sys su (w, b))"
proof -
  define fds where "fds = filter (\<lambda>fd. \<not> referenced (kernel w) b fd) (rev (sockets (kernel w)))"
  obtain w' b' where d: "destroy_objects sys su (w, b) = (w', b')" by (rule prod.exhaust)
  then have f: "fold (close_socket sys su) fds (w, b) = (w', b')" by (simp add: destroy_objects_def fds_def)
  note c = close_sockets_live [OF doc, of su fds "(w, b)", unfolded f]
  have sub: "set fds \<subseteq> set (sockets (kernel w))" by (auto simp: fds_def)
  have "objects w' = objects w" using objects_destroy [of sys su "(w, b)"] d by simp
  then have ends: "endpoints w' = endpoints w" by (rule endpoints_cong)
  have "callback_map b' = callback_map b" using destroy_objects_map [of sys su "(w, b)"] d by simp
  then have cbs: "callbacks_of b' = callbacks_of b" by (rule callbacks_of_same)
  have "sockets_live su opens w'"
    using assms(3) c sub unfolding live_def sockets_live_def by auto
  moreover have "callbacks_live (w', b')"
    unfolding callbacks_live_def cbs ends fst_conv snd_conv
  proof (intro allI ballI subsetI)
    fix g cb fd
    assume cb: "cb \<in> set (callbacks_of b g)" and fd: "fd \<in> owned (endpoints w) cb"
    have "owned (endpoints w) cb \<subseteq> set (sockets (kernel w))"
      using assms(3) cb by (auto simp: live_def callbacks_live_def)
    moreover have "g \<in> owned (endpoints w) cb"
    proof (rule fits_owned)
      show "fits (su_listen su) (endpoints w) g cb" using assms(2) cb by (simp add: well_typed_def)
      show "cb \<noteq> Acceptor_Callback" using fd by (auto simp: owned_def)
    qed
    ultimately have "g \<in> set (sockets (kernel w))" "fd \<in> set (sockets (kernel w))" using fd by auto
    moreover from this cb fd have "referenced (kernel w) b fd" by (auto simp: referenced_def owns_owned)
    ultimately show "fd \<in> set (sockets (kernel w'))" using c by (simp add: fds_def)
  qed
  ultimately show ?thesis by (simp add: d live_def)
qed

section \<open>Callbacks of channels\<close>

lemma os_world_objects [simp]:
  "os_world (w\<lparr>kernel := (kernel w)\<lparr>channels := chs, writer := fw, got_bytes := g, put_bytes := p\<rparr>\<rparr>) = os_world w"
  by (simp add: os_world_def)

lemma sockets_with_os [simp]: "sockets (kernel (with_os w' w)) = sockets (kernel w)"
  by (simp add: with_os_def)

lemma psql_call_world:
  assumes "\<And>w e. g (w\<lparr>errno := e\<rparr>) = g w" and "psql_call heap arg h (w, b, q) = (x, h1, (w1, b1, q1))"
  shows "g w1 = g w"
proof -
  have "fold perform cs (w, b, q) = (w1, b1, q1) \<Longrightarrow> g w1 = g w" for cs w b q
  proof (induction cs arbitrary: w b q)
    case (Cons c cs)
    then show ?case using assms(1) by (cases c) fastforce+
  qed simp
  with assms(2) show ?thesis by (auto simp: psql_call_def split: prod.splits)
qed

lemma run_handlers_world:
  assumes "\<And>w e. g (w\<lparr>errno := e\<rparr>) = g w"
  shows "run_handlers (psql_call heap) arg hs (w, b, q) = (x, hs1, (w1, b1, q1)) \<Longrightarrow> g w1 = g w"
proof (induction hs arbitrary: w b q hs1)
  case (Cons h hs)
  obtain y h2 w2 b2 q2 where c: "psql_call heap arg h (w, b, q) = (y, h2, w2, b2, q2)" by (metis surj_pair)
  obtain z hs3 w3 b3 q3 where r: "run_handlers (psql_call heap) arg hs (w2, b2, q2) = (z, hs3, (w3, b3, q3))"
    by (metis surj_pair)
  have "g w2 = g w" by (rule psql_call_world [where g = g, OF assms c])
  with Cons.prems Cons.IH [of w2 b2 q2 hs3] c r show ?case by (cases y) auto
qed simp

lemma handle_event_world:
  assumes ev: "handle_event rd wr (psql_call heap) s fd m ch (w, b, q) = Some (x, ch1, (w1, b1, q1), got, away)"
    and err: "\<And>w e. g (w\<lparr>errno := e\<rparr>) = g w"
    and rd: "\<And>s n w. g (snd (rd s n w)) = g w" and wr: "\<And>s bs w. g (snd (wr s bs w)) = g w"
  shows "g w1 = g w"
proof -
  have left: "g w3 = g w2" if "left_read rd (psql_call heap) fd ch (w2, b2, q2) = Some (y, ch3, (w3, b3, q3), got')"
    for ch w2 b2 q2 y ch3 w3 b3 q3 got'
  proof -
    obtain p bq where acq: "write_acquire Channel.BUFF_SZ Channel.CHUNK_SZ (ch_buffer ch) = (p, bq)" by (rule prod.exhaust)
    obtain r w4 where r: "rd (ch_left ch) Channel.CHUNK_SZ w2 = (r, w4)" by (rule prod.exhaust)
    with rd [of "ch_left ch" Channel.CHUNK_SZ w2] have "g w4 = g w2" by simp
    with that acq r show ?thesis
      by (auto simp: left_read_def dest!: run_handlers_world [where g = g, OF err] split: option.splits sum.splits prod.splits)
  qed
  have right: "g w3 = g w2" if "right_write wr fd ch (w2, b2, q2) = Some (ch3, (w3, b3, q3), away')"
    for ch w2 b2 q2 ch3 w3 b3 q3 away'
  proof -
    have "g w5 = g w4" if "wr s bs w4 = (r, w5)" for s bs w4 r w5 using wr [of s bs w4] that by simp
    with that show ?thesis
      by (auto simp: right_write_def Let_def split: option.splits sum.splits prod.splits if_splits)
  qed
  from ev show ?thesis
    by (auto simp: handle_left_io_event_def handle_right_io_event_def dest!: left right split: option.splits if_splits)
qed

lemma channel_event_world:
  assumes ev: "channel_event sys su s i fd m (w, b) = (x, w', b')"
    and err: "\<And>w e. g (w\<lparr>errno := e\<rparr>) = g w"
    and recv: "\<And>fd n w. g (snd (s_recv sys fd n w)) = g w" and send: "\<And>fd bs w. g (snd (s_send sys fd bs w)) = g w"
  shows "g (os_world w') = g (os_world w)"
proof -
  have rd: "g (snd (async_read_some (s_recv sys) k n v)) = g v" for k n v
  proof -
    obtain r v1 where r: "s_recv sys (sock_fd k) n (v\<lparr>errno := 0\<rparr>) = (r, v1)" by (rule prod.exhaust)
    with err [where w = v and e = 0] recv [of "sock_fd k" n "v\<lparr>errno := 0\<rparr>"] have "g v1 = g v" by simp
    with r show ?thesis by (simp add: async_read_some_def split: option.split list.split)
  qed
  have wr: "g (snd (async_write_some (s_send sys) k bs v)) = g v" for k bs v
  proof -
    obtain r v1 where r: "s_send sys (sock_fd k) bs (v\<lparr>errno := 0\<rparr>) = (r, v1)" by (rule prod.exhaust)
    with err [where w = v and e = 0] send [of "sock_fd k" bs "v\<lparr>errno := 0\<rparr>"] have "g v1 = g v" by simp
    with r show ?thesis by (simp add: async_write_some_def split: option.split)
  qed
  let ?r = "\<lambda>ch. handle_event (async_read_some (s_recv sys)) (async_write_some (s_send sys)) (psql_call (su_heap su)) s fd m ch
    (os_world w, b, fw_processor (writer (kernel w)))"
  consider "channels (kernel w) i = None" | ch where "channels (kernel w) i = Some ch" "?r ch = None"
    | ch y ch1 w1 b1 q1 got away where "channels (kernel w) i = Some ch" "?r ch = Some (y, ch1, (w1, b1, q1), got, away)"
    by (metis not_None_eq prod_cases3)
  then show ?thesis
  proof cases
    case 1
    with ev show ?thesis by (simp add: channel_event_def)
  next
    case 2
    with ev have "w' = w\<lparr>kernel := (kernel w)\<lparr>failed_assert := True\<rparr>\<rparr>"
      unfolding channel_event_def Let_def by simp
    then show ?thesis by simp
  next
    case 3
    from handle_event_world [where g = g, OF 3(2) err rd wr] have "g w1 = g (os_world w)" .
    moreover have "os_world w' = w1" using ev 3(1) unfolding channel_event_def Let_def by (auto simp: 3(2))
    ultimately show ?thesis by simp
  qed
qed

lemma channel_event_open:
  assumes doc: "descriptors_documented sys opens" and "channel_event sys su s i fd m (w, b) = (x, w', b')"
  shows "open_fds opens w' = open_fds opens w"
  using assms(2) by (rule channel_event_world [where g = opens]) (rule descriptors_documentedD(2-4) [OF doc])+

section \<open>New connections\<close>

lemma bus_add_open:
  assumes doc: "descriptors_documented sys opens"
  shows "open_fds opens (fst (snd (bus_add sys su fd cb st))) = open_fds opens (fst st)"
  unfolding epoll_bus_add_def
  by (rule add_fd_keeps [where g = "open_fds opens"], rule epoll_add_fd_keeps [where g = "open_fds opens"])
    (simp add: os_world_lift_sys descriptors_documentedD [OF doc])

lemma registering_open:
  assumes doc: "descriptors_documented sys opens" and "registering sys su regs st0 x st"
  shows "open_fds opens (fst st) = open_fds opens (fst st0)"
  using assms(2)
proof (induction)
  case (register st fd cb x st')
  have "open_fds opens (fst st') = open_fds opens (fst st)"
    using bus_add_open [OF doc, of su fd "Some cb" st] unfolding register.hyps(3) by simp
  with register.IH show ?case by simp
qed simp_all

lemma connect_target_open:
  assumes doc: "descriptors_documented sys opens" and c: "connect_target sys su fd w = (r, w1)"
  shows "case r of
      Inl ex \<Rightarrow> sockets (kernel w1) = sockets (kernel w) \<and> open_fds opens w1 = open_fds opens w
    | Inr tfd \<Rightarrow> sockets (kernel w1) = sockets (kernel w) @ [tfd] \<and>
        open_fds opens w1 = insert tfd (open_fds opens w) \<and> tfd \<notin> open_fds opens w"
proof -
  let ?f = "socket_connect (s_getaddrinfo sys) (s_socket sys) (s_connect sys) (s_close sys) (su_target su)"
  obtain r0 v0 where f: "?f (os_world w) = (r0, v0)" by (rule prod.exhaust)
  obtain ai v1 where a: "addrinfo_new (s_getaddrinfo sys) (su_target su) (os_world w) = (ai, v1)" by (rule prod.exhaust)
  have "opens v1 = open_fds opens w"
    using a descriptors_documentedD(8) [OF doc] by (auto simp: addrinfo_new_def Let_def split: prod.splits sum.splits) (metis snd_conv)+
  have "case r0 of Inl ex \<Rightarrow> opens v0 = open_fds opens w
    | Inr tfd \<Rightarrow> opens v0 = insert tfd (open_fds opens w) \<and> tfd \<notin> open_fds opens w"
  proof (cases ai)
    case (Inl ex)
    with f a \<open>opens v1 = open_fds opens w\<close> show ?thesis by (auto simp: socket_connect_def)
  next
    case (Inr l)
    with f a have o: "open_socket (s_socket sys) (s_connect sys) (s_close sys) l v1 = (r0, v0)" by (simp add: socket_connect_def)
    show ?thesis
      using open_socket_opens [OF descriptors_documentedD(1) [OF doc], where w = v1 and ai = l] \<open>opens v1 = open_fds opens w\<close>
      unfolding o by (cases r0) simp_all
  qed
  with f c show ?thesis
    by (cases r0) (auto simp: connect_target_def lift_sys_def)
qed


lemma reaches_open:
  assumes doc: "descriptors_documented sys opens" and "reaches sys su fd w tfd w1"
    and fd: "sockets_live su opens (make_socket fd w)"
  shows "sockets_live su opens w1" and "set (sockets (kernel w1)) = insert fd (insert tfd (set (sockets (kernel w))))"
    and "open_fds opens w1 = insert tfd (open_fds opens w)" and "tfd = fd \<or> tfd \<notin> open_fds opens w"
proof -
  have "sockets_live su opens w1 \<and> set (sockets (kernel w1)) = insert fd (insert tfd (set (sockets (kernel w)))) \<and>
    open_fds opens w1 = insert tfd (open_fds opens w) \<and> (tfd = fd \<or> tfd \<notin> open_fds opens w)"
  proof (cases "su_program su = Echo")
    case True
    with assms(2) have "tfd = fd" "w1 = make_channels su fd fd (make_socket fd w)" by (simp_all add: reaches_def)
    with fd show ?thesis by (auto simp: sockets_live_def)
  next
    case False
    with assms(2) have "connect_target sys su fd (make_socket fd w) = (Inr tfd, w1)" by (simp add: reaches_def)
    from connect_target_open [OF doc this] show ?thesis by (auto intro: sockets_live_new [OF fd])
  qed
  then show "sockets_live su opens w1" "set (sockets (kernel w1)) = insert fd (insert tfd (set (sockets (kernel w))))"
    "open_fds opens w1 = insert tfd (open_fds opens w)" "tfd = fd \<or> tfd \<notin> open_fds opens w" by simp_all
qed

text \<open>
  A session that is registered, whole or in part, has callbacks that own its two sockets only; the
  callbacks from before own what they did.
\<close>

lemma session_owned:
  assumes typed: "well_typed su (w, b)" and "reaches sys su fd w tfd w1"
    and reg: "registering sys su (session_callbacks fd tfd (next_channel (kernel w))) (w1, b) x (w2, b2)"
    and cb: "cb \<in> set (callbacks_of b2 g)"
  shows "cb \<in> set (callbacks_of b g) \<and> owned (endpoints w2) cb = owned (endpoints w) cb \<or>
    g \<in> {fd, tfd} \<and> owned (endpoints w2) cb = {fd, tfd}"
proof -
  let ?n = "next_channel (kernel w)"
  have ends: "endpoints w2 = endpoints (make_channels su fd tfd w)"
    using registering_frame(1) [OF reg] objects_endpoints(1) [OF reaches_objects [OF assms(2)]] by simp
  have none: "endpoints w i = None" if "?n \<le> i" for i
    using typed that by (simp add: well_typed_def endpoints_def)
  have mono: "endpoints w \<subseteq>\<^sub>m endpoints w2"
    using none [of ?n] none [of "?n + 1"] by (auto simp: ends endpoints_make_channels map_le_def)
  consider (old) "cb \<in> set (callbacks_of b g)" | (new) "(g, cb) \<in> session_callbacks fd tfd ?n"
    using cb registering_callbacks(1) [OF reg, of g] by auto
  then show ?thesis
  proof cases
    case old
    with typed have "owned (endpoints w2) cb = owned (endpoints w) cb"
      by (intro owned_mono [OF _ mono]) (auto simp: well_typed_def)
    with old show ?thesis by simp
  next
    case new
    then consider (channel) s where "cb = Channel_Callback s ?n \<or> cb = Channel_Callback s (?n + 1)" "g \<in> {fd, tfd}"
      | (session) fds where "cb = Session_Callback fds" "g \<in> set fds" "set fds = {fd, tfd}"
      unfolding session_callbacks_def channel_registrations_def by fastforce
    then show ?thesis
    proof cases
      case channel
      then have "owned (endpoints w2) cb = {fd, tfd}" by (auto simp: owned_def ends endpoints_make_channels)
      with channel(2) show ?thesis by simp
    next
      case session
      then show ?thesis by (simp add: owned_def)
    qed
  qed
qed

lemma live_session:
  assumes doc: "descriptors_documented sys opens" and typed: "well_typed su (w, b)" and live: "callbacks_live (w, b)"
    and fd: "sockets_live su opens (make_socket fd w)" and "reaches sys su fd w tfd w1"
    and reg: "registering sys su (session_callbacks fd tfd (next_channel (kernel w))) (w1, b) x st1"
  shows "live su opens st1"
proof -
  obtain w2 b2 where st1: "st1 = (w2, b2)" by (cases st1)
  note r = reaches_open [OF doc assms(5) fd] and reg = reg [unfolded st1]
  have socks: "sockets (kernel w2) = sockets (kernel w1)" using registering_frame(3) [OF reg] by simp
  have "open_fds opens w2 = open_fds opens w1" using registering_open [OF doc reg] by simp
  with socks have "sockets_live su opens w2" by (rule sockets_live_cong [OF r(1)])
  moreover have "callbacks_live (w2, b2)"
    unfolding callbacks_live_def fst_conv snd_conv
  proof (intro allI ballI)
    fix g cb
    assume "cb \<in> set (callbacks_of b2 g)"
    from session_owned [OF typed assms(5) reg this] live show "owned (endpoints w2) cb \<subseteq> set (sockets (kernel w2))"
      unfolding socks r(2) by (auto simp: callbacks_live_def)
  qed
  ultimately show ?thesis by (simp add: live_def st1)
qed

lemma live_refused:
  assumes doc: "descriptors_documented sys opens" and typed: "well_typed su (w, b)" and live: "callbacks_live (w, b)"
    and fd: "sockets_live su opens (make_socket fd w)" and con: "connect_target sys su fd (make_socket fd w) = (Inl ex, w1)"
  shows "live su opens (w1, b) \<and> well_typed su (w1, b)"
proof -
  have o: "objects w1 = objects w" using connect_target_objects [OF con] by simp
  note c = connect_target_open [OF doc con]
  have "sockets_live su opens w1" using c by (intro sockets_live_cong [OF fd]) simp_all
  moreover have "callbacks_live (w1, b)"
    using c by (intro callbacks_live_cong [OF live endpoints_cong [OF o]]) auto
  moreover have "well_typed su (w1, b)" by (rule well_typed_same [OF typed o]) simp
  ultimately show ?thesis by (simp add: live_def)
qed

lemma live_new_session:
  assumes doc: "descriptors_documented sys opens" and typed: "well_typed su (w, b)" and live: "callbacks_live (w, b)"
    and fd: "sockets_live su opens (make_socket fd w)" and new: "new_session sys su fd a (w, b) = (y, st)"
  shows "live su opens st"
  using new
proof (cases rule: new_session_cases)
  case (refused ex w1)
  with live_refused [OF doc typed live fd refused(1)] show ?thesis by (simp add: destroy_live [OF doc])
next
  case (session tfd w1 x st1)
  obtain w2 b2 where st1: "st1 = (w2, b2)" by (cases st1)
  have "live su opens (w2, b2)" by (rule live_session [OF doc typed live fd session(1,2) [unfolded st1]])
  moreover have "well_typed su (w2, b2)" by (rule well_typed_session [OF typed session(1,2) [unfolded st1]])
  ultimately show ?thesis by (cases x) (simp_all add: session(3) st1 destroy_live [OF doc])
qed

lemma live_callbacks: "live su opens st \<Longrightarrow> callbacks_live st"
  by (simp add: live_def)

lemma live_same:
  assumes "live su opens (w, b)" and "sockets (kernel w') = sockets (kernel w)" and "open_fds opens w' = open_fds opens w"
    and "endpoints w' = endpoints w" and "\<And>fd. set (callbacks_of b' fd) \<subseteq> set (callbacks_of b fd)"
  shows "live su opens (w', b')"
  using assms sockets_live_cong [of su opens w w'] callbacks_live_cong [of w b w' b'] by (simp add: live_def)

lemma live_acceptor_event:
  assumes doc: "descriptors_documented sys opens" and typed: "well_typed su (w, b)" and live: "live su opens (w, b)"
    and ev: "acceptor_event native ntop (\<lambda>fd. lift_sys (s_accept sys fd)) (\<lambda>_. new_session sys su)
      \<lparr>acc_fd = lfd, acc_callbacks = [()]\<rparr> fd m (w, b) = (x, w', b')"
  shows "live su opens (w', b')"
proof (cases "flags_test m flags_error")
  case True
  with live ev show ?thesis by (simp add: acceptor_event_def accept_new_client_def)
next
  case False
  obtain conn sa v1 where acc: "s_accept sys lfd (os_world w) = ((conn, sa), v1)" by (metis surj_pair)
  let ?w1 = "with_os v1 w" and ?b = "enqueue_event fd flags_in b" and ?a = "peer_address native ntop sa"
  have lift: "lift_sys (s_accept sys lfd) w = ((conn, sa), ?w1)" using acc by (simp add: lift_sys_def)
  have o: "objects ?w1 = objects w" using objects_lift_sys [of "s_accept sys lfd" w] unfolding lift by simp
  have cbs: "callbacks_of ?b = callbacks_of b" by (rule callbacks_of_same) (simp add: enqueue_event_def)
  show ?thesis
  proof (cases "0 < conn")
    case pos: True
    note open_conn = accept_documented_fds [OF doc acc]
    obtain y w2 b2 where n: "new_session sys su conn ?a (?w1, ?b) = (y, w2, b2)" by (rule prod_cases3)
    with ev False lift pos have "w' = w2" "b' = b2"
      by (cases y; simp add: acceptor_event_def accept_new_client_def make_v4_eq)+
    moreover have "well_typed su (?w1, ?b)"
      by (rule well_typed_same [OF typed o]) (simp add: enqueue_event_def)
    moreover have "callbacks_live (?w1, ?b)"
      by (intro callbacks_live_cong [OF live_callbacks [OF live] endpoints_cong [OF o]]) (simp_all add: cbs)
    moreover have "sockets_live su opens (make_socket conn ?w1)"
    proof (rule sockets_live_new [where w = w])
      show "sockets_live su opens w" using live by (simp add: live_def)
      show "open_fds opens (make_socket conn ?w1) = insert conn (open_fds opens w)" using open_conn(1) pos by simp
      show "conn \<notin> open_fds opens w" using open_conn(2) pos by simp
    qed simp
    ultimately show ?thesis using live_new_session [OF doc _ _ _ n] by simp
  next
    case neg: False
    have "w' = ?w1" "callback_map b' = callback_map b"
      using ev False lift neg
      by (auto simp: acceptor_event_def accept_new_client_def make_v4_eq Let_def enqueue_event_def split: if_splits)
    moreover have "sockets_live su opens ?w1"
    proof (cases "conn = -1")
      case True
      have w: "sockets_live su opens w" using live by (simp add: live_def)
      have "opens v1 = open_fds opens w" by (rule accept_documented_failed [OF doc acc [unfolded True]])
      then show ?thesis by (intro sockets_live_cong [OF w]) simp_all
    next
      case other: False
      with accept_documented_fds [OF doc acc] live show ?thesis by (auto simp: live_def sockets_live_def)
    qed
    moreover have "callbacks_live (?w1, b')"
      using callbacks_of_same [OF calculation(2)]
      by (intro callbacks_live_cong [OF live_callbacks [OF live] endpoints_cong [OF o]]) simp_all
    ultimately show ?thesis by (simp add: live_def)
  qed
qed

lemma live_invoke:
  assumes doc: "descriptors_documented sys opens" and typed: "well_typed su st" and live: "live su opens st"
  shows "live su opens (snd (program_invoke sys su cb fd m st))"
proof -
  obtain w b where st: "st = (w, b)" by (cases st)
  obtain x w' b' where r: "program_invoke sys su cb fd m (w, b) = (x, w', b')" by (rule prod_cases3)
  have "live su opens (w', b')"
  proof (cases cb)
    case (Channel_Callback s i)
    with r have e: "channel_event sys su s i fd m (w, b) = (x, w', b')" by (simp add: program_invoke_def)
    note frame = channel_event_frame(1,2,4) [OF e] and o = channel_event_open [OF doc e]
    have "callbacks_of b' = callbacks_of b"
      using frame(1) by (intro callbacks_of_same) (simp add: same_registrations_def)
    with frame o show ?thesis by (intro live_same [OF live [unfolded st]]) simp_all
  next
    case (Session_Callback fds)
    with r have "w' = w" "callback_map b' = callback_map b"
      by (auto simp: program_invoke_def session_event_def split: if_splits)
    with callbacks_of_same [of b' b] have "callbacks_of b' = callbacks_of b" by simp
    with \<open>w' = w\<close> show ?thesis by (intro live_same [OF live [unfolded st]]) simp_all
  next
    case Acceptor_Callback
    with r have "acceptor_event (su_native su) (s_ntop sys) (\<lambda>fd. lift_sys (s_accept sys fd)) (\<lambda>_. new_session sys su)
      \<lparr>acc_fd = su_listen su, acc_callbacks = [()]\<rparr> fd m (w, b) = (x, w', b')" by (simp add: program_invoke_def)
    with live_acceptor_event [OF doc] typed live st show ?thesis by blast
  qed
  with r st show ?thesis by simp
qed

lemma live_clean_up:
  assumes doc: "descriptors_documented sys opens" and typed: "well_typed su st" and live: "live su opens st"
  shows "live su opens (clean_up (destroy_objects sys su) st)"
proof -
  obtain w b where st: "st = (w, b)" by (cases st)
  let ?b = "b\<lparr>callback_map := callback_map b |` (- callbacks_to_remove b)\<rparr>"
  have sub: "set (callbacks_of ?b fd) \<subseteq> set (callbacks_of b fd)" for fd
    by (cases "fd \<in> callbacks_to_remove b") (simp_all add: callbacks_of_def)
  obtain w1 b1 where d: "destroy_objects sys su (w, ?b) = (w1, b1)" by (rule prod.exhaust)
  have "live su opens (w1, b1)"
    unfolding d [symmetric]
  proof (rule destroy_live [OF doc])
    show "well_typed su (w, ?b)" by (rule well_typed_cong [OF typed [unfolded st] refl sub])
    show "live su opens (w, ?b)" by (rule live_same [OF live [unfolded st] refl refl refl sub])
  qed
  then have "live su opens (w1, b1\<lparr>callbacks_to_remove := {}\<rparr>)"
    by (rule live_same) (simp_all add: callbacks_of_def)
  with live st d show ?thesis by (simp add: clean_up_def)
qed

lemma live_step:
  assumes doc: "descriptors_documented sys opens"
  shows "program_step sys su st st' \<Longrightarrow> well_typed su st \<Longrightarrow> live su opens st \<Longrightarrow> live su opens st'"
proof (induction rule: program_step.induct)
  case (step_call st cb fd m)
  then show ?case by (intro live_invoke [OF doc])
next
  case (step_clean st)
  then show ?case by (intro live_clean_up [OF doc])
next
  case (step_queue w b)
  from step_queue(2) show ?case by (rule live_same) (simp_all add: callbacks_of_def)
next
  case (step_wait w b e n t)
  let ?w = "snd (lift_sys (s_wait sys e n t) (w\<lparr>errno := 0\<rparr>))"
  have e: "endpoints ?w = endpoints w" by (rule endpoints_cong) simp
  show ?case
    by (rule live_same [OF step_wait(2) _ _ e]) (simp_all add: os_world_lift_sys descriptors_documentedD(2,6) [OF doc])
next
  case (step_writer rd w fw b)
  from step_writer(3) show ?case by (rule live_same) simp_all
next
  case (step_writer_assert rd w b)
  from step_writer_assert(3) show ?case by (rule live_same) simp_all
qed

lemma live_init:
  "program_init su q st \<Longrightarrow> su_listen su \<in> open_fds opens (fst st) \<Longrightarrow> live su opens st"
  by (auto simp: program_init_def live_def sockets_live_def callbacks_live_def callbacks_of_def owned_def Let_def split: if_splits)

lemma live_steps:
  assumes "descriptors_documented sys opens" and "program_init su q st0" and "su_listen su \<in> open_fds opens (fst st0)"
    and "(program_step sys su)\<^sup>*\<^sup>* st0 st"
  shows "live su opens st \<and> well_typed su st"
  using assms(4)
  by (induction rule: rtranclp_induct)
    (auto intro: live_step [OF assms(1)] live_init [where opens = opens, OF assms(2,3)] well_typed_init [OF assms(2)] well_typed_step)

section \<open>Properties\<close>

text \<open>
  C12. Descriptors and lifetimes: with a kernel that hands out fresh descriptors only, in every state that a
  program can reach its sockets have different descriptors, all of them open and none of them the
  listening one, and every registered callback is registered for, and uses, open descriptors of existing
  sockets only.  So no callback reads from, writes to or waits for a descriptor that has been closed
  or given to another connection.
\<close>

theorem callbacks_use_open_descriptors:
  assumes "descriptors_documented sys opens" and "program_init su q st0" and "su_listen su \<in> opens (os_world (fst st0))"
    and "(program_step sys su)\<^sup>*\<^sup>* st0 st"
  shows "distinct (sockets (kernel (fst st))) \<and>
    set (sockets (kernel (fst st))) \<subseteq> opens (os_world (fst st)) - {su_listen su} \<and>
    (\<forall>fd. \<forall>cb\<in>set (callbacks_of (snd st) fd).
       fd \<in> opens (os_world (fst st)) \<and>
       (\<forall>g. owns (channels (kernel (fst st))) cb g \<longrightarrow> g \<in> set (sockets (kernel (fst st)))))"
proof -
  from live_steps [OF assms] have live: "sockets_live su opens (fst st)" "callbacks_live st" and typed: "well_typed su st"
    by (simp_all add: live_def)
  have "fd \<in> opens (os_world (fst st))" if "cb \<in> set (callbacks_of (snd st) fd)" for fd cb
  proof (cases "cb = Acceptor_Callback")
    case True
    with typed that have "fd = su_listen su" by (fastforce simp: well_typed_def fits_def)
    with live(1) show ?thesis by (simp add: sockets_live_def)
  next
    case False
    have "fits (su_listen su) (endpoints (fst st)) fd cb" using typed that by (simp add: well_typed_def)
    from fits_owned [OF this False] live that show ?thesis by (auto simp: sockets_live_def callbacks_live_def)
  qed
  with live show ?thesis by (auto simp: sockets_live_def callbacks_live_def owns_owned)
qed

text \<open>The descriptors of the small kernel, and its runs from a given state.\<close>

lemma wire_descriptors: "descriptors_documented wire_sys (\<lambda>w. w_open (kernel w))"
  by (auto simp: descriptors_documented_def sockets_documented_def wire_sys_def wire_recv_def wire_send_def wire_wait_def
      wire_accept_def wire_socket_def wire_close_def split: list.split)

interpretation from_start: epoll_client "(program_step sys su)\<^sup>*\<^sup>* st0" "destroy_objects sys su"
  "program_invoke sys su" "Some print_error" "\<lambda>e n t. lift_sys (s_wait sys e n t)" for sys su st0
  by unfold_locales (simp_all add: report_error_def print_error_def program_invoke_registers
      rtranclp.rtrancl_into_rtrancl step_call step_clean step_queue step_wait)

lemma wire_turns_steps:
  "(program_step wire_sys (wire_settings prog))\<^sup>*\<^sup>* st ((wire_turn prog ^^ n) st)"
proof (induction n)
  case (Suc n)
  have "(program_step wire_sys (wire_settings prog))\<^sup>*\<^sup>* st (wire_turn prog ((wire_turn prog ^^ n) st))"
    unfolding wire_turn_def program_round_def
    by (rule from_start.keeps_round) (use Suc in \<open>simp_all add: wire_settings_def wire_turn_def program_round_def\<close>)
  then show ?case by simp
qed simp

theorem callbacks_use_open_descriptors_witness:
  "distinct (sockets (kernel (fst (wire_echo 2)))) \<and> 8 \<in> w_open (os (kernel (fst (wire_echo 2))))"
proof -
  let ?st = "wire_start [8] [[ready 5 EPOLLIN], [ready 8 EPOLLIN]] [[1, 2], [3, 4]] [1, 2, 1]"
  have "su_listen (wire_settings Echo) \<in> w_open (kernel (os_world (fst ?st)))"
    by (simp add: wire_start_def wire_settings_def os_world_def)
  from callbacks_use_open_descriptors [OF wire_descriptors wire_init this wire_turns_steps [of Echo ?st 2]] wire_echo_2(6)
  show ?thesis by (auto simp: wire_echo_def os_world_def)
qed

end
