(* ===== verification/Program_Watch.thy ===== *)
theory Program_Watch
  imports Program_Open
begin

text \<open>
  What epoll watches along the runs of a program: with a kernel whose interest list behaves as documented, in every
  reachable state a descriptor is watched if and only if callbacks are registered for it, so no ended session is
  watched, and nothing registered is forgotten.
\<close>

section \<open>What the kernel does to the interest list\<close>

text \<open>
  Removing a descriptor fails if and only if it is not in the list; closing it removes it; only open descriptors
  are in the list; no other call changes it.
\<close>

definition interest_documented :: "'os sys \<Rightarrow> ('os world \<Rightarrow> fd set) \<Rightarrow> ('os world \<Rightarrow> fd set) \<Rightarrow> bool" where
  "interest_documented sys opens interest \<longleftrightarrow>
     ctl_documented (s_ctl sys) interest \<and>
     (\<forall>e fd ev w. fst (s_ctl sys e EPOLL_CTL_DEL fd ev w) = -1 \<longleftrightarrow> fd \<notin> interest w) \<and>
     (\<forall>w. interest w \<subseteq> opens w \<inter> {0..}) \<and>
     (\<forall>fd w. interest (snd (s_close sys fd w)) = interest w - {fd}) \<and>
     (\<forall>w e. interest (w\<lparr>errno := e\<rparr>) = interest w) \<and>
     (\<forall>fd n w. interest (snd (s_recv sys fd n w)) = interest w) \<and>
     (\<forall>fd bs w. interest (snd (s_send sys fd bs w)) = interest w) \<and>
     (\<forall>e n t w. interest (snd (s_wait sys e n t w)) = interest w) \<and>
     (\<forall>fd w. interest (snd (s_accept sys fd w)) = interest w) \<and>
     (\<forall>f t p w. interest (snd (s_socket sys f t p w)) = interest w) \<and>
     (\<forall>fd a w. interest (snd (s_connect sys fd a w)) = interest w) \<and>
     (\<forall>fd w. interest (snd (s_shutdown sys fd w)) = interest w) \<and>
     (\<forall>h p a w. interest (snd (s_getaddrinfo sys h p a w)) = interest w)"

lemma interest_documentedD:
  assumes "interest_documented sys opens interest"
  shows "ctl_documented (s_ctl sys) interest" and "fst (s_ctl sys e EPOLL_CTL_DEL fd ev w) = -1 \<longleftrightarrow> fd \<notin> interest w"
    and "interest w \<subseteq> opens w" and "-1 \<notin> interest w" and "interest (snd (s_close sys fd w)) = interest w - {fd}"
    and "interest (w\<lparr>errno := e'\<rparr>) = interest w" and "interest (snd (s_recv sys fd n w)) = interest w"
    and "interest (snd (s_send sys fd bs w)) = interest w" and "interest (snd (s_wait sys e n t w)) = interest w"
    and "interest (snd (s_accept sys fd w)) = interest w" and "interest (snd (s_socket sys f ty p w)) = interest w"
    and "interest (snd (s_connect sys fd a w)) = interest w" and "interest (snd (s_shutdown sys fd w)) = interest w"
    and "interest (snd (s_getaddrinfo sys h p' a' w)) = interest w"
proof -
  have "interest w \<subseteq> opens w \<inter> {0..}" using assms by (simp add: interest_documented_def)
  then show "interest w \<subseteq> opens w" and "-1 \<notin> interest w" by auto
qed (use assms in \<open>simp_all add: interest_documented_def\<close>)

section \<open>The invariant\<close>

definition watched :: "('os world \<Rightarrow> fd set) \<Rightarrow> ('os machine, callback) state \<Rightarrow> bool" where
  "watched interest st \<longleftrightarrow> interest (os_world (fst st)) = {fd. callbacks_of (snd st) fd \<noteq> []}"

text \<open>
  The callbacks of a session use the same sockets and no other callback does; the pending removals are those of whole
  sessions; entries and pending removals are of open descriptors, so a new descriptor has neither.
\<close>

definition sessions_apart :: "('os machine, callback) state \<Rightarrow> bool" where
  "sessions_apart st \<longleftrightarrow>
     (\<forall>g g'. \<forall>cb\<in>set (callbacks_of (snd st) g). \<forall>cb'\<in>set (callbacks_of (snd st) g').
        owned (endpoints (fst st)) cb \<inter> owned (endpoints (fst st)) cb' \<noteq> {} \<longrightarrow>
        owned (endpoints (fst st)) cb = owned (endpoints (fst st)) cb')"

definition removals_whole :: "'os settings \<Rightarrow> ('os machine, callback) state \<Rightarrow> bool" where
  "removals_whole su st \<longleftrightarrow> su_listen su \<notin> callbacks_to_remove (snd st) \<and>
     (\<forall>g. \<forall>cb\<in>set (callbacks_of (snd st) g). owned (endpoints (fst st)) cb \<inter> callbacks_to_remove (snd st) \<noteq> {} \<longrightarrow>
        owned (endpoints (fst st)) cb \<subseteq> callbacks_to_remove (snd st))"

definition entries_open :: "('os world \<Rightarrow> fd set) \<Rightarrow> ('os machine, callback) state \<Rightarrow> bool" where
  "entries_open opens st \<longleftrightarrow>
     dom (callback_map (snd st)) \<union> callbacks_to_remove (snd st) \<subseteq> open_fds opens (fst st)"

definition watch_inv ::
  "'os settings \<Rightarrow> ('os world \<Rightarrow> fd set) \<Rightarrow> ('os world \<Rightarrow> fd set) \<Rightarrow> ('os machine, callback) state \<Rightarrow> bool" where
  "watch_inv su opens interest st \<longleftrightarrow>
     watched interest st \<and> sessions_apart st \<and> removals_whole su st \<and> entries_open opens st"

lemma watch_inv_same:
  assumes "watch_inv su opens interest (w, b)" and "endpoints w' = endpoints w" and "callback_map b' = callback_map b"
    and "callbacks_to_remove b' = callbacks_to_remove b" and "open_fds opens w \<subseteq> open_fds opens w'"
    and "interest (os_world w') = interest (os_world w)"
  shows "watch_inv su opens interest (w', b')"
  using assms callbacks_of_same [OF assms(3)]
  by (auto simp: watch_inv_def watched_def sessions_apart_def removals_whole_def entries_open_def)

section \<open>Closing\<close>

lemma close_socket_watch:
  assumes fds: "descriptors_documented sys opens" and doc: "interest_documented sys opens interest"
    and c: "close_socket sys su fd (w, b) = (w', b')"
  shows "interest (os_world w') = interest (os_world w) - {fd}"
    and "callbacks_to_remove b \<subseteq> callbacks_to_remove b'" and "callbacks_to_remove b' \<subseteq> insert fd (callbacks_to_remove b)"
    and "open_fds opens w - ({fd} \<inter> interest (os_world w)) \<subseteq> open_fds opens w'"
proof -
  note fds = descriptors_documentedD [OF fds] and doc = interest_documentedD [OF doc]
  let ?del = "s_ctl sys (epfd (su_epoll su)) EPOLL_CTL_DEL fd None"
  obtain r1 w1 where 1: "lift_sys ?del w = (r1, w1)" by (rule prod.exhaust)
  obtain r2 w2 where 2: "lift_sys (s_shutdown sys fd) w1 = (r2, w2)" by (rule prod.exhaust)
  obtain r3 w3 where 3: "lift_sys (s_close sys fd) w2 = (r3, w3)" by (rule prod.exhaust)
  have del: "?del (os_world w) = (r1, os_world w1)"
    using os_world_lift_sys [of ?del w] unfolding 1 by (simp add: prod_eq_iff)
  have r1: "r1 = -1 \<longleftrightarrow> fd \<notin> interest (os_world w)"
    using doc(2) [of "epfd (su_epoll su)" fd None "os_world w"] unfolding del by simp
  have i1: "interest (os_world w1) = interest (os_world w) - {fd}"
    using ctl_documentedD(2) [OF doc(1) del] r1 by auto
  have o: "open_fds opens w1 = open_fds opens w" "open_fds opens w2 = open_fds opens w1" "open_fds opens w3 = open_fds opens w2 - {fd}"
    and i: "interest (os_world w2) = interest (os_world w1)" "interest (os_world w3) = interest (os_world w2) - {fd}"
    using fds(5,7,9) doc(5,13) os_world_lift_sys(1) [of ?del w] os_world_lift_sys(1) [of "s_shutdown sys fd" w1]
      os_world_lift_sys(1) [of "s_close sys fd" w2] unfolding 1 2 3 by simp_all
  consider (none) "fd = -1" "os_world w' = os_world w" "callbacks_to_remove b' = callbacks_to_remove b"
    | (refused) "fd \<noteq> -1" "r1 = -1" "os_world w' = os_world w1" "callbacks_to_remove b' = insert fd (callbacks_to_remove b)"
    | (closing) "fd \<noteq> -1" "r1 \<noteq> -1" "os_world w' = os_world w2 \<or> os_world w' = os_world w3"
      "callbacks_to_remove b' = insert fd (callbacks_to_remove b)"
    using c 1 2 3
    by (auto simp: close_socket_def close_connection_noexcept_def close_connection_def epoll_bus_del_def del_fd_def
        epoll_del_fd_def del_fd_callbacks_def Let_def split: if_splits)
  then have "interest (os_world w') = interest (os_world w) - {fd} \<and> callbacks_to_remove b \<subseteq> callbacks_to_remove b' \<and>
    callbacks_to_remove b' \<subseteq> insert fd (callbacks_to_remove b) \<and>
    open_fds opens w - ({fd} \<inter> interest (os_world w)) \<subseteq> open_fds opens w'"
  proof cases
    case none
    with doc(4) [of "os_world w"] show ?thesis by auto
  next
    case refused
    have 1: "interest (os_world w') = interest (os_world w) - {fd}" "open_fds opens w' = open_fds opens w"
      unfolding refused(3) by (rule i1, rule o(1))
    show ?thesis unfolding 1 refused(4) by blast
  next
    case closing
    from closing(2) r1 have "fd \<in> interest (os_world w)" by blast
    moreover have "interest (os_world w') = interest (os_world w) - {fd}"
      by (rule disjE [OF closing(3)]) (simp_all only: i i1 Diff_idemp)
    moreover have "open_fds opens w - {fd} \<subseteq> open_fds opens w'"
      by (rule disjE [OF closing(3)]) (simp_all only: o Diff_subset order_refl)
    ultimately show ?thesis unfolding closing(4) by blast
  qed
  then show "interest (os_world w') = interest (os_world w) - {fd}" "callbacks_to_remove b \<subseteq> callbacks_to_remove b'"
    "callbacks_to_remove b' \<subseteq> insert fd (callbacks_to_remove b)"
    "open_fds opens w - ({fd} \<inter> interest (os_world w)) \<subseteq> open_fds opens w'" by simp_all
qed

lemma close_sockets_watch:
  assumes fds: "descriptors_documented sys opens" and doc: "interest_documented sys opens interest"
  shows "fold (close_socket sys su) cs (w, b) = (w', b') \<Longrightarrow>
    interest (os_world w') = interest (os_world w) - set cs \<and> callbacks_to_remove b \<subseteq> callbacks_to_remove b' \<and>
    callbacks_to_remove b' \<subseteq> set cs \<union> callbacks_to_remove b \<and>
    open_fds opens w - (set cs \<inter> interest (os_world w)) \<subseteq> open_fds opens w'"
proof (induction cs arbitrary: w b)
  case (Cons fd cs)
  obtain w1 b1 where c: "close_socket sys su fd (w, b) = (w1, b1)" by (rule prod.exhaust)
  with Cons.prems have "fold (close_socket sys su) cs (w1, b1) = (w', b')" by simp
  from Cons.IH [OF this] close_socket_watch [OF fds doc c] show ?case by auto
qed simp

text \<open>The sockets that are destroyed: no callback uses them, and none is registered for them.\<close>

definition unused :: "('os machine, callback) state \<Rightarrow> fd set" where
  "unused st = {fd \<in> set (sockets (kernel (fst st))). \<not> referenced (kernel (fst st)) (snd st) fd}"

lemma unused_free:
  assumes typed: "well_typed su (w, b)" and live: "live su opens (w, b)" and fd: "fd \<in> unused (w, b)"
  shows "cb \<in> set (callbacks_of b g) \<Longrightarrow> fd \<notin> owned (endpoints w) cb" and "callbacks_of b fd = []" and "fd \<noteq> su_listen su"
proof -
  have socks: "fd \<in> set (sockets (kernel w))" "\<not> referenced (kernel w) b fd" using fd by (simp_all add: unused_def)
  then show listen: "fd \<noteq> su_listen su" using live by (auto simp: live_def sockets_live_def)
  have free: "fd \<notin> owned (endpoints w) cb" if cb: "cb \<in> set (callbacks_of b g)" for cb g
  proof
    assume own: "fd \<in> owned (endpoints w) cb"
    then have "g \<in> owned (endpoints w) cb"
      using typed cb by (intro fits_owned [of "su_listen su"]) (auto simp: well_typed_def owned_def)
    moreover have "owned (endpoints w) cb \<subseteq> set (sockets (kernel w))" using live cb by (auto simp: live_def callbacks_live_def)
    ultimately have "referenced (kernel w) b fd" using own cb by (auto simp: referenced_def owns_owned)
    with socks(2) show False ..
  qed
  then show "cb \<in> set (callbacks_of b g) \<Longrightarrow> fd \<notin> owned (endpoints w) cb" .
  show "callbacks_of b fd = []"
  proof (rule ccontr)
    assume "callbacks_of b fd \<noteq> []"
    then obtain cb where cb: "cb \<in> set (callbacks_of b fd)" by (metis list.set_intros(1) neq_Nil_conv)
    then have "fits (su_listen su) (endpoints w) fd cb" using typed by (simp add: well_typed_def)
    moreover from this listen have "cb \<noteq> Acceptor_Callback" by (auto simp: fits_def)
    ultimately show False using fits_owned free [OF cb] by blast
  qed
qed

lemma destroy_watch:
  assumes fds: "descriptors_documented sys opens" and doc: "interest_documented sys opens interest"
    and d: "destroy_objects sys su (w, b) = (w', b')"
  shows "interest (os_world w') = interest (os_world w) - unused (w, b)"
    and "callbacks_to_remove b \<subseteq> callbacks_to_remove b'" and "callbacks_to_remove b' \<subseteq> unused (w, b) \<union> callbacks_to_remove b"
    and "open_fds opens w - (unused (w, b) \<inter> interest (os_world w)) \<subseteq> open_fds opens w'"
    and "endpoints w' = endpoints w" and "callback_map b' = callback_map b"
proof -
  let ?cs = "filter (\<lambda>fd. \<not> referenced (kernel w) b fd) (rev (sockets (kernel w)))"
  have cs: "set ?cs = unused (w, b)" by (auto simp: unused_def)
  have "fold (close_socket sys su) ?cs (w, b) = (w', b')" using d by (simp add: destroy_objects_def)
  from close_sockets_watch [OF fds doc this]
  show "interest (os_world w') = interest (os_world w) - unused (w, b)" "callbacks_to_remove b \<subseteq> callbacks_to_remove b'"
    "callbacks_to_remove b' \<subseteq> unused (w, b) \<union> callbacks_to_remove b"
    "open_fds opens w - (unused (w, b) \<inter> interest (os_world w)) \<subseteq> open_fds opens w'" unfolding cs by blast+
  have "objects w' = objects w" using objects_destroy [of sys su "(w, b)"] d by simp
  then show "endpoints w' = endpoints w" by (rule endpoints_cong)
  show "callback_map b' = callback_map b" using destroy_objects_map [of sys su "(w, b)"] d by simp
qed

text \<open>When a connection attempt is taken back, nothing that is watched is destroyed.\<close>

lemma watch_inv_destroy:
  assumes fds: "descriptors_documented sys opens" and doc: "interest_documented sys opens interest"
    and typed: "well_typed su (w, b)" and live: "live su opens (w, b)" and inv: "watch_inv su opens interest (w, b)"
  shows "watch_inv su opens interest (destroy_objects sys su (w, b))"
proof -
  obtain w' b' where d: "destroy_objects sys su (w, b) = (w', b')" by (rule prod.exhaust)
  note D = destroy_watch [OF fds doc d] and free = unused_free [OF typed live]
  have cbs: "callbacks_of b' = callbacks_of b" by (rule callbacks_of_same [OF D(6)])
  have none: "unused (w, b) \<inter> interest (os_world w) = {}" using free(2) inv by (auto simp: watch_inv_def watched_def)
  then have i: "interest (os_world w') = interest (os_world w)" using D(1) by blast
  have o: "open_fds opens w \<subseteq> open_fds opens w'" using D(4) unfolding none by simp
  have "unused (w, b) \<subseteq> open_fds opens w" using live by (auto simp: live_def sockets_live_def unused_def)
  moreover have "dom (callback_map b) \<union> callbacks_to_remove b \<subseteq> open_fds opens w"
    using inv by (simp add: watch_inv_def entries_open_def)
  ultimately have "entries_open opens (w', b')"
    using D(3) o unfolding entries_open_def fst_conv snd_conv D(6) by blast
  moreover have "removals_whole su (w', b')"
    unfolding removals_whole_def fst_conv snd_conv cbs D(5)
  proof (intro conjI allI ballI impI)
    show "su_listen su \<notin> callbacks_to_remove b'"
      using D(3) free(3) inv by (auto simp: watch_inv_def removals_whole_def)
    fix g cb
    assume cb: "cb \<in> set (callbacks_of b g)" and "owned (endpoints w) cb \<inter> callbacks_to_remove b' \<noteq> {}"
    with D(3) free(1) [OF _ cb] have "owned (endpoints w) cb \<inter> callbacks_to_remove b \<noteq> {}" by blast
    with inv cb D(2) show "owned (endpoints w) cb \<subseteq> callbacks_to_remove b'"
      unfolding watch_inv_def removals_whole_def fst_conv snd_conv by blast
  qed
  moreover have "watched interest (w', b') \<and> sessions_apart (w', b')"
    using inv by (simp add: watch_inv_def watched_def sessions_apart_def cbs i D(5))
  ultimately show ?thesis unfolding d watch_inv_def by blast
qed

text \<open>
  A clean-up erases the callbacks of whole sessions, so the sockets that are destroyed with them are those with
  a pending removal that were watched.
\<close>

abbreviation erase :: "callback bus \<Rightarrow> callback bus" where
  "erase b \<equiv> b\<lparr>callback_map := callback_map b |` (- callbacks_to_remove b)\<rparr>"

lemma callbacks_of_erase: "callbacks_of (erase b) g = (if g \<in> callbacks_to_remove b then [] else callbacks_of b g)"
  by (simp add: callbacks_of_def)

lemma erase_live:
  "well_typed su (w, b) \<Longrightarrow> well_typed su (w, erase b)" "live su opens (w, b) \<Longrightarrow> live su opens (w, erase b)"
proof -
  have sub: "set (callbacks_of (erase b) g) \<subseteq> set (callbacks_of b g)" for g by (simp add: callbacks_of_erase)
  show "well_typed su (w, b) \<Longrightarrow> well_typed su (w, erase b)" by (rule well_typed_cong [OF _ refl sub])
  show "live su opens (w, b) \<Longrightarrow> live su opens (w, erase b)" by (rule live_same [OF _ refl refl refl sub])
qed

lemma unused_erased:
  assumes typed: "well_typed su (w, b)" and live: "live su opens (w, b)" and inv: "watch_inv su opens interest (w, b)"
  shows "unused (w, erase b) \<inter> interest (os_world w) = callbacks_to_remove b \<inter> interest (os_world w)"
proof (intro equalityI subsetI)
  note free = unused_free [OF erase_live(1) [OF typed] erase_live(2) [OF live]]
  have i: "interest (os_world w) = {fd. callbacks_of b fd \<noteq> []}" and whole: "removals_whole su (w, b)"
    using inv by (simp_all add: watch_inv_def watched_def)
  fix fd
  show "fd \<in> callbacks_to_remove b \<inter> interest (os_world w)" if "fd \<in> unused (w, erase b) \<inter> interest (os_world w)"
    using that free(2) [of fd] i by (auto simp: callbacks_of_erase split: if_splits)
  assume fd: "fd \<in> callbacks_to_remove b \<inter> interest (os_world w)"
  then obtain cb where cb: "cb \<in> set (callbacks_of b fd)" unfolding i by (metis IntD2 list.set_sel(1) mem_Collect_eq)
  have "fd \<noteq> su_listen su" using fd whole by (auto simp: removals_whole_def)
  with typed cb have "cb \<noteq> Acceptor_Callback" by (fastforce simp: well_typed_def fits_def)
  with typed cb have "fd \<in> owned (endpoints w) cb" by (intro fits_owned [of "su_listen su"]) (auto simp: well_typed_def)
  with live cb have "fd \<in> set (sockets (kernel w))" by (auto simp: live_def callbacks_live_def)
  moreover have "\<not> referenced (kernel w) (erase b) fd"
  proof
    assume "referenced (kernel w) (erase b) fd"
    then obtain g cb' where cb': "cb' \<in> set (callbacks_of (erase b) g)" "fd \<in> owned (endpoints w) cb'"
      by (auto simp: referenced_def owns_owned)
    then have g: "g \<notin> callbacks_to_remove b" "cb' \<in> set (callbacks_of b g)" by (auto simp: callbacks_of_erase split: if_splits)
    with whole cb'(2) fd have "owned (endpoints w) cb' \<subseteq> callbacks_to_remove b"
      unfolding removals_whole_def fst_conv snd_conv by blast
    moreover have "g \<in> owned (endpoints w) cb'"
      using typed g(2) cb'(2) by (intro fits_owned [of "su_listen su"]) (auto simp: well_typed_def owned_def)
    ultimately show False using g(1) by blast
  qed
  ultimately show "fd \<in> unused (w, erase b) \<inter> interest (os_world w)" using fd by (simp add: unused_def)
qed

lemma watch_inv_clean_up:
  assumes fds: "descriptors_documented sys opens" and doc: "interest_documented sys opens interest"
    and typed: "well_typed su (w, b)" and live: "live su opens (w, b)" and inv: "watch_inv su opens interest (w, b)"
  shows "watch_inv su opens interest (clean_up (destroy_objects sys su) (w, b))"
proof (cases "callbacks_to_remove b = {}")
  case True
  with inv show ?thesis by simp
next
  case False
  obtain w' b' where d: "destroy_objects sys su (w, erase b) = (w', b')" by (rule prod.exhaust)
  note D = destroy_watch [OF fds doc d] and erased = unused_erased [OF typed live inv]
  have i: "interest (os_world w) = {fd. callbacks_of b fd \<noteq> []}" and apart: "sessions_apart (w, b)"
    and entries: "entries_open opens (w, b)"
    using inv by (simp_all add: watch_inv_def watched_def)
  have c: "clean_up (destroy_objects sys su) (w, b) = (w', b'\<lparr>callbacks_to_remove := {}\<rparr>)"
    using False d by (simp add: clean_up_def)
  have map: "callbacks_of (b'\<lparr>callbacks_to_remove := {}\<rparr>) = callbacks_of (erase b)"
    by (rule callbacks_of_same) (simp add: D(6))
  have "interest (os_world w') = {fd. callbacks_of (erase b) fd \<noteq> []}"
    using erased unfolding D(1) i callbacks_of_erase by auto
  moreover have "sessions_apart (w', b'\<lparr>callbacks_to_remove := {}\<rparr>)"
    using apart unfolding sessions_apart_def fst_conv snd_conv map D(5) callbacks_of_erase by (auto split: if_splits)
  moreover have "dom (callback_map b') \<subseteq> open_fds opens w'"
  proof -
    have "dom (callback_map b') \<subseteq> open_fds opens w - callbacks_to_remove b" using entries by (auto simp: D(6) entries_open_def)
    then show ?thesis using D(4) unfolding erased by blast
  qed
  ultimately show ?thesis
    unfolding c watch_inv_def watched_def removals_whole_def entries_open_def fst_conv snd_conv map by simp
qed

section \<open>New connections\<close>

text \<open>Connecting closes only descriptors that it has opened, none of which is watched.\<close>

lemma open_socket_watch:
  assumes fds: "sockets_documented (s_socket sys) (s_connect sys) (s_close sys) opens"
    and doc: "interest_documented sys opens interest"
  shows "interest (snd (open_socket (s_socket sys) (s_connect sys) (s_close sys) ai w)) = interest w"
proof (induction ai arbitrary: w)
  case (Cons p ps)
  obtain fd w1 where s: "s_socket sys (ai_family p) (ai_socktype p OR SOCK_NONBLOCK) (ai_protocol p) w = (fd, w1)"
    by (rule prod.exhaust)
  obtain r w2 where c: "s_connect sys fd (ai_addr p) w1 = (r, w2)" by (rule prod.exhaust)
  obtain r' w3 where l: "s_close sys fd w2 = (r', w3)" by (rule prod.exhaust)
  note D = interest_documentedD [OF doc]
  have i: "interest w1 = interest w" "interest w2 = interest w1" "interest w3 = interest w2 - {fd}"
    using D(11) [of "ai_family p" "ai_socktype p OR SOCK_NONBLOCK" "ai_protocol p" w] D(12) [of fd "ai_addr p" w1] D(5) [of fd w2]
    unfolding s c l by simp_all
  have "fd \<noteq> -1 \<Longrightarrow> fd \<notin> interest w"
    using fds s D(3) [of w] unfolding sockets_documented_def by (metis fst_conv subsetD)
  with i have "interest w3 = interest w" if "fd \<noteq> -1" using that by auto
  with Cons i(1,2) s c l show ?case by simp
qed simp

lemma connect_target_watch:
  assumes fds: "descriptors_documented sys opens" and doc: "interest_documented sys opens interest"
    and c: "connect_target sys su fd w = (r, w1)"
  shows "interest (os_world w1) = interest (os_world w)"
proof -
  let ?f = "socket_connect (s_getaddrinfo sys) (s_socket sys) (s_connect sys) (s_close sys) (su_target su)"
  note open_watch = open_socket_watch [OF descriptors_documentedD(1) [OF fds] doc]
  obtain ai v1 where a: "addrinfo_new (s_getaddrinfo sys) (su_target su) (os_world w) = (ai, v1)" by (rule prod.exhaust)
  have "interest v1 = interest (os_world w)"
    using a interest_documentedD(14) [OF doc]
    by (auto simp: addrinfo_new_def Let_def split: prod.splits sum.splits) (metis snd_conv)+
  then have "interest (snd (?f (os_world w))) = interest (os_world w)"
    using a by (cases ai) (simp_all add: socket_connect_def open_watch)
  moreover have "os_world w1 = snd (?f (os_world w))"
  proof -
    obtain q v2 where f: "lift_sys ?f w = (q, v2)" by (rule prod.exhaust)
    have "os_world v2 = snd (?f (os_world w))" using os_world_lift_sys(1) [of ?f w] unfolding f by simp
    with f c show ?thesis by (cases q) (auto simp: connect_target_def)
  qed
  ultimately show ?thesis by (rule ssubst [rotated])
qed

lemma reaches_watch:
  assumes fds: "descriptors_documented sys opens" and doc: "interest_documented sys opens interest"
    and r: "reaches sys su fd w tfd w1"
  shows "interest (os_world w1) = interest (os_world w)"
  using r connect_target_watch [OF fds doc, of su fd "make_socket fd w" "Inr tfd" w1]
  by (cases "su_program su = Echo") (simp_all add: reaches_def)

text \<open>
  Registering watches a descriptor with its first callback; a descriptor that could not be added keeps an empty entry, and
  nothing is registered after that.
\<close>

lemma bus_add_watch:
  assumes doc: "interest_documented sys opens interest" and a: "bus_add sys su fd (Some cb) (w, b) = (x, w', b')"
    and i: "watched interest (w, b)" and fd: "callback_map b fd \<noteq> Some []"
  shows "watched interest (w', b')" and "callbacks_to_remove b' = callbacks_to_remove b"
    and "dom (callback_map b') \<subseteq> insert fd (dom (callback_map b))"
    and "x = None \<Longrightarrow> callback_map b g \<noteq> Some [] \<Longrightarrow> callback_map b' g \<noteq> Some []"
proof -
  let ?add = "s_ctl sys (epfd (su_epoll su)) EPOLL_CTL_ADD fd (Some \<lparr>ev_events = event_mask (su_epoll su), ev_fd = fd\<rparr>)"
  obtain r w1 where 1: "lift_sys ?add w = (r, w1)" by (rule prod.exhaust)
  have "?add (os_world w) = (r, os_world w1)"
    using os_world_lift_sys [of ?add w] unfolding 1 by (simp add: prod_eq_iff)
  note add = ctl_documentedD(1) [OF interest_documentedD(1) [OF doc] this]
  consider (failed) "callback_map b fd = None" "r = -1" "w' = w1" "b' = b\<lparr>callback_map := (callback_map b)(fd \<mapsto> [])\<rparr>" "x \<noteq> None"
    | (added) "callback_map b fd = None" "r \<noteq> -1" "w' = w1" "b' = b\<lparr>callback_map := (callback_map b)(fd \<mapsto> [cb])\<rparr>"
    | (more) c cs where "callback_map b fd = Some (c # cs)" "w' = w" "b' = b\<lparr>callback_map := (callback_map b)(fd \<mapsto> c # cs @ [cb])\<rparr>"
  proof (cases "callback_map b fd")
    case None
    with a 1 failed added show thesis
      by (cases "r = -1") (auto simp: epoll_bus_add_def add_fd_def epoll_add_fd_def Let_def)
  next
    case (Some cbs)
    with fd obtain c cs where "cbs = c # cs" by (cases cbs) auto
    with Some a more show thesis by (simp add: epoll_bus_add_def add_fd_def)
  qed
  then have "watched interest (w', b') \<and> callbacks_to_remove b' = callbacks_to_remove b \<and>
    dom (callback_map b') \<subseteq> insert fd (dom (callback_map b)) \<and>
    (x = None \<longrightarrow> callback_map b g \<noteq> Some [] \<longrightarrow> callback_map b' g \<noteq> Some [])"
  proof cases
    case failed
    have "callbacks_of b' = callbacks_of b" using failed(1,4) by (simp add: callbacks_of_def fun_eq_iff)
    with i add failed show ?thesis by (auto simp: watched_def)
  next
    case added
    have "callbacks_of b' g = (if g = fd then [cb] else callbacks_of b g)" for g using added(1,4) by (simp add: callbacks_of_def)
    then have "watched interest (w', b')" using i add added(2,3) by (auto simp: watched_def)
    with added show ?thesis by auto
  next
    case more
    have "callbacks_of b' g = (if g = fd then c # cs @ [cb] else callbacks_of b g)" for g using more(1,3) by (simp add: callbacks_of_def)
    moreover have "callbacks_of b fd \<noteq> []" using more(1) by (simp add: callbacks_of_def)
    ultimately have "watched interest (w', b')" using i more(2) by (auto simp: watched_def)
    with more show ?thesis by auto
  qed
  then show "watched interest (w', b')" "callbacks_to_remove b' = callbacks_to_remove b"
    "dom (callback_map b') \<subseteq> insert fd (dom (callback_map b))"
    "x = None \<Longrightarrow> callback_map b g \<noteq> Some [] \<Longrightarrow> callback_map b' g \<noteq> Some []" by blast+
qed

lemma registering_watch:
  assumes doc: "interest_documented sys opens interest" and reg: "registering sys su regs st0 x st"
    and i: "watched interest st0" and fresh: "\<And>g. g \<in> fst ` regs \<Longrightarrow> callback_map (snd st0) g \<noteq> Some []"
  shows "watched interest st \<and> callbacks_to_remove (snd st) = callbacks_to_remove (snd st0) \<and>
    dom (callback_map (snd st)) \<subseteq> fst ` regs \<union> dom (callback_map (snd st0)) \<and>
    (x = None \<longrightarrow> (\<forall>g\<in>fst ` regs. callback_map (snd st) g \<noteq> Some []))"
  using reg
proof (induction)
  case at_first
  with i fresh show ?case by simp
next
  case (attach w b s)
  then show ?case by (simp add: watched_def)
next
  case (register st fd cb x st')
  obtain w b w' b' where st: "st = (w, b)" "st' = (w', b')" by (metis surj_pair)
  have fd: "fd \<in> fst ` regs" using register.hyps(2) by force
  with register.IH st have "watched interest (w, b)" "callback_map b fd \<noteq> Some []" by auto
  note A = bus_add_watch [OF doc register.hyps(3) [unfolded st] this]
  have "dom (callback_map b') \<subseteq> fst ` regs \<union> dom (callback_map (snd st0))"
    using A(3) register.IH fd unfolding st snd_conv by blast
  with A(1,2,4) register.IH show ?case by (simp add: st)
qed

lemma fst_session_callbacks: "fst ` session_callbacks l r n = {l, r}"
proof
  show "fst ` session_callbacks l r n \<subseteq> {l, r}"
    unfolding session_callbacks_def channel_registrations_def by fastforce
  show "{l, r} \<subseteq> fst ` session_callbacks l r n"
    by (simp add: session_callbacks_def channel_registrations_def)
qed

lemma watch_inv_session:
  assumes fds: "descriptors_documented sys opens" and doc: "interest_documented sys opens interest"
    and typed: "well_typed su (w, b)" and live: "callbacks_live (w, b)" and inv: "watch_inv su opens interest (w, b)"
    and fd: "sockets_live su opens (make_socket fd w)" and new: "fd \<notin> dom (callback_map b) \<union> callbacks_to_remove b"
    and reach: "reaches sys su fd w tfd w1"
    and reg: "registering sys su (session_callbacks fd tfd (next_channel (kernel w))) (w1, b) x (w2, b2)"
  shows "watch_inv su opens interest (w2, b2)"
proof -
  note R = reaches_open [OF fds reach fd] and own = session_owned [OF typed reach reg]
  have entries: "dom (callback_map b) \<union> callbacks_to_remove b \<subseteq> open_fds opens w"
    using inv by (simp add: watch_inv_def entries_open_def)
  have fresh: "{fd, tfd} \<inter> (dom (callback_map b) \<union> callbacks_to_remove b) = {}" using R(4) entries new by auto
  have "watched interest (w1, b)"
    using inv reaches_watch [OF fds doc reach] by (simp add: watch_inv_def watched_def)
  moreover have "callback_map (snd (w1, b)) g \<noteq> Some []" if "g \<in> fst ` session_callbacks fd tfd (next_channel (kernel w))" for g
    using that fresh by (auto simp: fst_session_callbacks)
  ultimately have W: "watched interest (w2, b2)" "callbacks_to_remove b2 = callbacks_to_remove b"
    "dom (callback_map b2) \<subseteq> {fd, tfd} \<union> dom (callback_map b)"
    using registering_watch [OF doc reg] by (auto simp: fst_session_callbacks)
  have open2: "open_fds opens w2 = insert tfd (open_fds opens w)" using registering_open [OF fds reg] R(3) by simp
  have "{fd, tfd} \<inter> set (sockets (kernel w)) = {}"
    using fd R(4) by (auto simp: sockets_live_def)
  then have apart: "owned (endpoints w2) cb \<inter> {fd, tfd} = {}" if "cb \<in> set (callbacks_of b g)" "owned (endpoints w2) cb = owned (endpoints w) cb" for g cb
    using live that by (auto simp: callbacks_live_def)
  have "sessions_apart (w2, b2)"
    unfolding sessions_apart_def fst_conv snd_conv
  proof (intro allI ballI impI)
    fix g g' cb cb'
    assume cb: "cb \<in> set (callbacks_of b2 g)" "cb' \<in> set (callbacks_of b2 g')"
      and meet: "owned (endpoints w2) cb \<inter> owned (endpoints w2) cb' \<noteq> {}"
    show "owned (endpoints w2) cb = owned (endpoints w2) cb'"
      using own [OF cb(1)] own [OF cb(2)]
    proof (elim disjE conjE)
      assume "cb \<in> set (callbacks_of b g)" "cb' \<in> set (callbacks_of b g')"
        and eq: "owned (endpoints w2) cb = owned (endpoints w) cb" "owned (endpoints w2) cb' = owned (endpoints w) cb'"
      with inv meet show ?thesis unfolding eq watch_inv_def sessions_apart_def fst_conv snd_conv by blast
    qed (use apart meet in \<open>force+\<close>)
  qed
  moreover have "removals_whole su (w2, b2)"
    unfolding removals_whole_def fst_conv snd_conv W(2)
  proof (intro conjI allI ballI impI)
    show "su_listen su \<notin> callbacks_to_remove b" using inv by (simp add: watch_inv_def removals_whole_def)
    fix g cb
    assume "cb \<in> set (callbacks_of b2 g)" and meet: "owned (endpoints w2) cb \<inter> callbacks_to_remove b \<noteq> {}"
    from own [OF this(1)] fresh meet have old: "cb \<in> set (callbacks_of b g)" and eq: "owned (endpoints w2) cb = owned (endpoints w) cb"
      by auto
    from inv old meet show "owned (endpoints w2) cb \<subseteq> callbacks_to_remove b"
      unfolding eq watch_inv_def removals_whole_def fst_conv snd_conv by blast
  qed
  moreover have "entries_open opens (w2, b2)"
  proof -
    have "fd \<in> open_fds opens w" using fd by (simp add: sockets_live_def)
    with W(2,3) entries show ?thesis unfolding entries_open_def fst_conv snd_conv open2 by blast
  qed
  ultimately show ?thesis using W(1) by (simp add: watch_inv_def)
qed

lemma watch_inv_new_session:
  assumes fds: "descriptors_documented sys opens" and doc: "interest_documented sys opens interest"
    and typed: "well_typed su (w, b)" and live: "callbacks_live (w, b)" and inv: "watch_inv su opens interest (w, b)"
    and fd: "sockets_live su opens (make_socket fd w)" and new: "fd \<notin> dom (callback_map b) \<union> callbacks_to_remove b"
    and n: "new_session sys su fd a (w, b) = (y, st)"
  shows "watch_inv su opens interest st"
  using n
proof (cases rule: new_session_cases)
  case (refused ex w1)
  have o: "objects w1 = objects w" using connect_target_objects [OF refused(1)] by simp
  have "watch_inv su opens interest (w1, b)"
    using connect_target_open [OF fds refused(1)] connect_target_watch [OF fds doc refused(1)]
    by (intro watch_inv_same [OF inv endpoints_cong [OF o]]) simp_all
  with live_refused [OF fds typed live fd refused(1)] show ?thesis
    unfolding refused(2) by (intro watch_inv_destroy [OF fds doc]) simp_all
next
  case (session tfd w1 x st1)
  obtain w2 b2 where st1: "st1 = (w2, b2)" by (cases st1)
  note reg = session(2) [unfolded st1]
  have "watch_inv su opens interest (w2, b2)" by (rule watch_inv_session [OF fds doc typed live inv fd new session(1) reg])
  moreover have "live su opens (w2, b2)" by (rule live_session [OF fds typed live fd session(1) reg])
  moreover have "well_typed su (w2, b2)" by (rule well_typed_session [OF typed session(1) reg])
  ultimately show ?thesis by (cases x) (simp_all add: session(3) st1 watch_inv_destroy [OF fds doc])
qed

section \<open>Callbacks\<close>

lemma watch_inv_acceptor_event:
  assumes fds: "descriptors_documented sys opens" and doc: "interest_documented sys opens interest"
    and typed: "well_typed su (w, b)" and live: "live su opens (w, b)" and inv: "watch_inv su opens interest (w, b)"
    and ev: "acceptor_event native ntop (\<lambda>fd. lift_sys (s_accept sys fd)) (\<lambda>_. new_session sys su)
      \<lparr>acc_fd = lfd, acc_callbacks = [()]\<rparr> fd m (w, b) = (x, w', b')"
  shows "watch_inv su opens interest (w', b')"
proof (cases "flags_test m flags_error")
  case True
  with inv ev show ?thesis by (simp add: acceptor_event_def accept_new_client_def)
next
  case False
  obtain conn sa v1 where acc: "s_accept sys lfd (os_world w) = ((conn, sa), v1)" by (metis surj_pair)
  let ?w1 = "with_os v1 w" and ?b = "enqueue_event fd flags_in b" and ?a = "peer_address native ntop sa"
  have lift: "lift_sys (s_accept sys lfd) w = ((conn, sa), ?w1)" using acc by (simp add: lift_sys_def)
  have o: "objects ?w1 = objects w" using objects_lift_sys [of "s_accept sys lfd" w] unfolding lift by simp
  have i: "interest v1 = interest (os_world w)" using interest_documentedD(10) [OF doc, of lfd "os_world w"] unfolding acc by simp
  have opens: "open_fds opens w \<subseteq> opens v1"
  proof (cases "conn = -1")
    case True
    with accept_documented_failed [OF fds] acc show ?thesis by simp
  next
    case False
    with accept_documented_fds(1) [OF fds acc] show ?thesis by blast
  qed
  have inv1: "watch_inv su opens interest (?w1, b1)"
    if "callback_map b1 = callback_map b" "callbacks_to_remove b1 = callbacks_to_remove b" for b1
    using that opens i by (intro watch_inv_same [OF inv endpoints_cong [OF o]]) simp_all
  show ?thesis
  proof (cases "0 < conn")
    case pos: True
    note open_conn = accept_documented_fds [OF fds acc]
    obtain y w2 b2 where n: "new_session sys su conn ?a (?w1, ?b) = (y, w2, b2)" by (rule prod_cases3)
    with ev False lift pos have "w' = w2" "b' = b2"
      by (cases y; simp add: acceptor_event_def accept_new_client_def make_v4_eq)+
    moreover have "watch_inv su opens interest (w2, b2)"
    proof (rule watch_inv_new_session [OF fds doc _ _ _ _ _ n])
      show "well_typed su (?w1, ?b)" by (rule well_typed_same [OF typed o]) (simp add: enqueue_event_def)
      show "callbacks_live (?w1, ?b)"
        by (intro callbacks_live_cong [OF live_callbacks [OF live] endpoints_cong [OF o]]) (simp_all add: enqueue_event_def callbacks_of_def)
      show "watch_inv su opens interest (?w1, ?b)" by (rule inv1) (simp_all add: enqueue_event_def)
      show "sockets_live su opens (make_socket conn ?w1)"
      proof (rule sockets_live_new [where w = w])
        show "sockets_live su opens w" using live by (simp add: live_def)
        show "open_fds opens (make_socket conn ?w1) = insert conn (open_fds opens w)" using open_conn(1) pos by simp
        show "conn \<notin> open_fds opens w" using open_conn(2) pos by simp
      qed simp
      show "conn \<notin> dom (callback_map ?b) \<union> callbacks_to_remove ?b"
        using inv open_conn(2) pos by (auto simp: watch_inv_def entries_open_def enqueue_event_def)
    qed
    ultimately show ?thesis by simp
  next
    case neg: False
    have "w' = ?w1" "b' = b \<or> b' = ?b"
      using ev False lift neg
      by (auto simp: acceptor_event_def accept_new_client_def make_v4_eq Let_def split: if_splits)
    then show ?thesis using inv1 [of b'] by (auto simp: enqueue_event_def)
  qed
qed

text \<open>The callback of a session asks for the removal of the session's descriptors, which no other session uses.\<close>

lemma watch_inv_session_event:
  assumes live: "live su opens (w, b)" and inv: "watch_inv su opens interest (w, b)"
    and reg: "Session_Callback fds \<in> set (callbacks_of b fd)"
  shows "watch_inv su opens interest (w, fold del_fd_callbacks fds b)"
proof -
  let ?R = "callbacks_to_remove b"
  have b': "callback_map (fold del_fd_callbacks fds b) = callback_map b" "callbacks_to_remove (fold del_fd_callbacks fds b) = set fds \<union> ?R"
    by (simp_all add: Un_commute)
  have own: "owned (endpoints w) (Session_Callback fds) = set fds" by (simp add: owned_def)
  have "set fds \<subseteq> set (sockets (kernel w))" using live reg own by (auto simp: live_def callbacks_live_def)
  then have fds: "set fds \<subseteq> open_fds opens w" "su_listen su \<notin> set fds" using live by (auto simp: live_def sockets_live_def)
  have "owned (endpoints w) cb \<subseteq> set fds \<union> ?R"
    if cb: "cb \<in> set (callbacks_of b g)" and meet: "owned (endpoints w) cb \<inter> (set fds \<union> ?R) \<noteq> {}" for g cb
  proof (cases "owned (endpoints w) cb \<inter> ?R = {}")
    case True
    with meet own have "owned (endpoints w) cb \<inter> owned (endpoints w) (Session_Callback fds) \<noteq> {}" by blast
    with inv cb reg have "owned (endpoints w) cb = owned (endpoints w) (Session_Callback fds)"
      unfolding watch_inv_def sessions_apart_def fst_conv snd_conv by blast
    with own show ?thesis by blast
  next
    case False
    with inv cb have "owned (endpoints w) cb \<subseteq> ?R" unfolding watch_inv_def removals_whole_def fst_conv snd_conv by blast
    then show ?thesis by blast
  qed
  then show ?thesis
    using inv fds b' callbacks_of_same [OF b'(1)]
    by (simp add: watch_inv_def watched_def sessions_apart_def removals_whole_def entries_open_def)
qed

lemma watch_inv_invoke:
  assumes fds: "descriptors_documented sys opens" and doc: "interest_documented sys opens interest"
    and typed: "well_typed su st" and live: "live su opens st" and inv: "watch_inv su opens interest st"
    and cb: "cb \<in> set (callbacks_of (snd st) fd)"
  shows "watch_inv su opens interest (snd (program_invoke sys su cb fd m st))"
proof -
  obtain w b where st: "st = (w, b)" by (cases st)
  obtain x w' b' where r: "program_invoke sys su cb fd m (w, b) = (x, w', b')" by (rule prod_cases3)
  have "watch_inv su opens interest (w', b')"
  proof (cases cb)
    case (Channel_Callback s i)
    with r have e: "channel_event sys su s i fd m (w, b) = (x, w', b')" by (simp add: program_invoke_def)
    note frame = channel_event_frame(1,2) [OF e] and o = channel_event_open [OF fds e]
    have "interest (os_world w') = interest (os_world w)"
      using e by (rule channel_event_world [where g = interest]) (rule interest_documentedD(6-8) [OF doc])+
    with frame o show ?thesis by (intro watch_inv_same [OF inv [unfolded st]]) (simp_all add: same_registrations_def)
  next
    case (Session_Callback cs)
    with r have "w' = w" "b' = b \<or> b' = fold del_fd_callbacks cs b" by (auto simp: program_invoke_def session_event_def split: if_splits)
    with watch_inv_session_event [OF live [unfolded st] inv [unfolded st], of cs fd] cb Session_Callback inv st show ?thesis by auto
  next
    case Acceptor_Callback
    with r have "acceptor_event (su_native su) (s_ntop sys) (\<lambda>fd. lift_sys (s_accept sys fd)) (\<lambda>_. new_session sys su)
      \<lparr>acc_fd = su_listen su, acc_callbacks = [()]\<rparr> fd m (w, b) = (x, w', b')" by (simp add: program_invoke_def)
    with watch_inv_acceptor_event [OF fds doc] typed live inv st show ?thesis by blast
  qed
  with r st show ?thesis by simp
qed

lemma watch_inv_step:
  assumes fds: "descriptors_documented sys opens" and doc: "interest_documented sys opens interest"
  shows "program_step sys su st st' \<Longrightarrow> well_typed su st \<Longrightarrow> live su opens st \<Longrightarrow> watch_inv su opens interest st \<Longrightarrow>
    watch_inv su opens interest st'"
proof (induction rule: program_step.induct)
  case (step_call cb st fd m)
  then show ?case by (intro watch_inv_invoke [OF fds doc])
next
  case (step_clean st)
  then show ?case by (cases st) (simp add: watch_inv_clean_up [OF fds doc])
next
  case (step_queue w b)
  from step_queue(3) show ?case by (rule watch_inv_same) simp_all
next
  case (step_wait w b e n t)
  let ?w = "snd (lift_sys (s_wait sys e n t) (w\<lparr>errno := 0\<rparr>))"
  have e: "endpoints ?w = endpoints w" by (rule endpoints_cong) simp
  show ?case
    by (rule watch_inv_same [OF step_wait(3) e])
      (simp_all add: os_world_lift_sys descriptors_documentedD(2,6) [OF fds] interest_documentedD(6,9) [OF doc])
next
  case (step_writer rd w fw b)
  from step_writer(4) show ?case by (rule watch_inv_same) simp_all
next
  case (step_writer_assert rd w b)
  from step_writer_assert(4) show ?case by (rule watch_inv_same) simp_all
qed

lemma watch_inv_init:
  assumes "program_init su q st" and "interest (os_world (fst st)) = {su_listen su}" and "su_listen su \<in> open_fds opens (fst st)"
  shows "watch_inv su opens interest st"
proof -
  have b: "callback_map (snd st) = [su_listen su \<mapsto> [Acceptor_Callback]]" "callbacks_to_remove (snd st) = {}"
    using assms(1) by (simp_all add: program_init_def Let_def)
  then have "callbacks_of (snd st) fd = (if fd = su_listen su then [Acceptor_Callback] else [])" for fd by (simp add: callbacks_of_def)
  with b assms(2,3) show ?thesis
    by (simp add: watch_inv_def watched_def sessions_apart_def removals_whole_def entries_open_def owned_def)
qed

text \<open>The listening descriptor keeps its callback: no session ever asks for its removal.\<close>

lemma listening_step:
  "program_step sys su st st' \<Longrightarrow> su_listen su \<notin> callbacks_to_remove (snd st) \<Longrightarrow>
   Acceptor_Callback \<in> set (callbacks_of (snd st) (su_listen su)) \<Longrightarrow> Acceptor_Callback \<in> set (callbacks_of (snd st') (su_listen su))"
proof (induction rule: program_step.induct)
  case (step_call cb st fd m)
  then show ?case using program_invoke_registers by blast
next
  case (step_clean st)
  obtain w b where st: "st = (w, b)" by (cases st)
  have "callback_map (snd (clean_up (destroy_objects sys su) (w, b))) = callback_map b |` (- callbacks_to_remove b)"
    by (rule clean_up_map) simp
  with step_clean st show ?case by (simp add: callbacks_of_def)
qed (simp_all add: callbacks_of_def)

lemma watch_inv_steps:
  assumes fds: "descriptors_documented sys opens" and doc: "interest_documented sys opens interest" and init: "program_init su q st0"
    and "su_listen su \<in> open_fds opens (fst st0)" and "interest (os_world (fst st0)) = {su_listen su}"
    and "(program_step sys su)\<^sup>*\<^sup>* st0 st"
  shows "watch_inv su opens interest st \<and> Acceptor_Callback \<in> set (callbacks_of (snd st) (su_listen su))"
  using assms(6)
proof (induction rule: rtranclp_induct)
  case base
  show ?case
    using watch_inv_init [where opens = opens and interest = interest, OF init assms(5,4)] init
    by (simp add: program_init_def callbacks_of_def Let_def)
next
  case (step st st')
  from live_steps [OF fds init assms(4) step.hyps(1)] step.IH watch_inv_step [OF fds doc step.hyps(2)]
  have "watch_inv su opens interest st'" by blast
  moreover have "su_listen su \<notin> callbacks_to_remove (snd st)" using step.IH by (simp add: watch_inv_def removals_whole_def)
  ultimately show ?case using listening_step [OF step.hyps(2)] step.IH by blast
qed

section \<open>Properties\<close>

text \<open>
  C27. What the kernel watches: in every state that a program can reach, with any number of sessions and whatever
  calls fail, the interest list holds exactly the descriptors for which callbacks are registered, the listening one
  always and otherwise only sockets that exist; and two registered callbacks work on the same sockets or have none in
  common.  So an ended session is not watched any more, and the server goes on listening.
\<close>

theorem kernel_watches_callbacks:
  assumes "descriptors_documented sys opens" and "interest_documented sys opens interest" and "program_init su q st0"
    and "su_listen su \<in> opens (os_world (fst st0))" and "interest (os_world (fst st0)) = {su_listen su}"
    and "(program_step sys su)\<^sup>*\<^sup>* st0 st"
  shows "interest (os_world (fst st)) = {fd. callbacks_of (snd st) fd \<noteq> []} \<and>
    su_listen su \<in> interest (os_world (fst st)) \<and>
    interest (os_world (fst st)) - {su_listen su} \<subseteq> set (sockets (kernel (fst st))) \<and>
    (\<forall>g g'. \<forall>cb\<in>set (callbacks_of (snd st) g). \<forall>cb'\<in>set (callbacks_of (snd st) g').
       Collect (owns (channels (kernel (fst st))) cb) = Collect (owns (channels (kernel (fst st))) cb') \<or>
       Collect (owns (channels (kernel (fst st))) cb) \<inter> Collect (owns (channels (kernel (fst st))) cb') = {})"
proof -
  from live_steps [OF assms(1,3,4,6)] have live: "callbacks_live st" and typed: "well_typed su st" by (simp_all add: live_def)
  from watch_inv_steps [OF assms] have i: "interest (os_world (fst st)) = {fd. callbacks_of (snd st) fd \<noteq> []}"
    and apart: "sessions_apart st" and listen: "Acceptor_Callback \<in> set (callbacks_of (snd st) (su_listen su))"
    unfolding watch_inv_def watched_def by blast+
  have "fd \<in> set (sockets (kernel (fst st)))" if "callbacks_of (snd st) fd \<noteq> []" "fd \<noteq> su_listen su" for fd
  proof -
    define cb where "cb = hd (callbacks_of (snd st) fd)"
    have cb: "cb \<in> set (callbacks_of (snd st) fd)" unfolding cb_def by (rule hd_in_set [OF that(1)])
    with typed have fits: "fits (su_listen su) (endpoints (fst st)) fd cb" unfolding well_typed_def by blast
    with that(2) have "cb \<noteq> Acceptor_Callback" by (auto simp: fits_def)
    from fits_owned [OF fits this] cb live show ?thesis by (auto simp: callbacks_live_def)
  qed
  moreover have "su_listen su \<in> interest (os_world (fst st))" using listen unfolding i by auto
  moreover have own: "Collect (owns (channels (kernel (fst st))) cb) = owned (endpoints (fst st)) cb" for cb
    by (auto simp: owns_owned)
  have "Collect (owns (channels (kernel (fst st))) cb) = Collect (owns (channels (kernel (fst st))) cb') \<or>
       Collect (owns (channels (kernel (fst st))) cb) \<inter> Collect (owns (channels (kernel (fst st))) cb') = {}"
    if "cb \<in> set (callbacks_of (snd st) g)" "cb' \<in> set (callbacks_of (snd st) g')" for g g' cb cb'
    using apart that unfolding own sessions_apart_def by blast
  ultimately show ?thesis using i by blast
qed

text \<open>A kernel that numbers descriptors upwards, with an interest list, and an echo service that accepts a client.\<close>

record watch_kernel =
  k_last :: nat
  k_closed :: "fd set"
  k_watch :: "fd set"

definition k_open :: "watch_kernel world \<Rightarrow> fd set" where
  "k_open w = {1..int (k_last (kernel w))} - k_closed (kernel w)"

definition k_interest :: "watch_kernel world \<Rightarrow> fd set" where
  "k_interest w = k_watch (kernel w) \<inter> k_open w"

definition k_new :: "(watch_kernel, int) syscall" where
  "k_new w =
     (let fd = int (k_last (kernel w)) + 1
      in (fd, w\<lparr>kernel := \<lparr>k_last = k_last (kernel w) + 1, k_closed = k_closed (kernel w) - {fd}, k_watch = k_watch (kernel w) - {fd}\<rparr>\<rparr>))"

definition k_ctl :: "watch_kernel epoll_ctl" where
  "k_ctl e c fd ev w =
     (case c of
        EPOLL_CTL_ADD \<Rightarrow>
          if fd \<in> k_open w then (0, w\<lparr>kernel := (kernel w)\<lparr>k_watch := insert fd (k_watch (kernel w))\<rparr>\<rparr>) else (-1, w\<lparr>errno := 9\<rparr>)
      | EPOLL_CTL_DEL \<Rightarrow>
          if fd \<in> k_interest w
          then (0, w\<lparr>kernel := (kernel w)\<lparr>k_watch := k_watch (kernel w) - {fd}\<rparr>\<rparr>) else (-1, w\<lparr>errno := 2\<rparr>))"

definition watch_sys :: "watch_kernel sys" where
  "watch_sys =
     \<lparr>s_recv = \<lambda>fd n w. (None, w), s_send = \<lambda>fd bs w. (None, w), s_ctl = k_ctl, s_wait = \<lambda>e n t w. ((0, []), w),
      s_accept = \<lambda>fd w. (let (r, w1) = k_new w in ((r, peer_example), w1)), s_socket = \<lambda>f t p. k_new,
      s_connect = \<lambda>fd sa w. (0, w), s_shutdown = \<lambda>fd w. (0, w),
      s_close = \<lambda>fd w. (0, w\<lparr>kernel := (kernel w)\<lparr>k_closed := insert fd (k_closed (kernel w))\<rparr>\<rparr>),
      s_getaddrinfo = \<lambda>h s a w. (Inr [candidate 1], w), s_ntop = \<lambda>f a. Some ''127.0.0.1''\<rparr>"

definition watch_settings :: "watch_kernel settings" where
  "watch_settings =
     \<lparr>su_program = Echo, su_listen = 5, su_epoll = \<lparr>epfd = 3, event_mask = EPOLLIN, native_callback = None\<rparr>,
      su_target = \<lparr>v4_host = ''127.0.0.1'', v4_port = 5432\<rparr>, su_native = LE, su_heap = (\<lambda>_. 0), su_mem = (\<lambda>_. 0)\<rparr>"

definition watch_start :: "(watch_kernel machine, callback) state" where
  "watch_start =
     (\<lparr>errno = 0, kernel = \<lparr>os = \<lparr>k_last = 5, k_closed = {1, 2, 4}, k_watch = {5}\<rparr>, sockets = [], channels = Map.empty,
         next_channel = 0, writer = fw_new wire_log, failed_assert = False, got_bytes = \<lambda>_. [], put_bytes = \<lambda>_. []\<rparr>\<rparr>,
      bus_new\<lparr>callback_map := [5 \<mapsto> [Acceptor_Callback]]\<rparr>)"

lemmas watch_simps = watch_sys_def watch_settings_def watch_start_def k_new_def k_ctl_def k_open_def k_interest_def

lemma watch_open: "k_open (os_world (fst watch_start)) = {3, 5}"
  by (auto simp: watch_start_def os_world_def k_open_def)

lemma watch_descriptors: "descriptors_documented watch_sys k_open"
  by (auto simp: descriptors_documented_def sockets_documented_def watch_simps Let_def split: ctl_op.split)

lemma watch_interest: "interest_documented watch_sys k_open k_interest"
  by (auto simp: interest_documented_def ctl_documented_def watch_simps Let_def split: ctl_op.splits)

lemma watch_init: "program_init watch_settings wire_log watch_start" "su_listen watch_settings \<in> k_open (os_world (fst watch_start))"
  "k_interest (os_world (fst watch_start)) = {su_listen watch_settings}"
  by (simp_all add: program_init_def watch_start_def watch_settings_def bus_new_def os_world_def k_interest_def k_open_def)

lemma watch_run:
  "\<exists>w b. (program_step watch_sys watch_settings)\<^sup>*\<^sup>* watch_start (w, b) \<and> {fd. callbacks_of b fd \<noteq> []} = {5, 6} \<and>
     sockets (kernel w) = [6]"
proof -
  let ?st = "snd (program_invoke watch_sys watch_settings Acceptor_Callback 5 flags_in watch_start)"
  obtain w b where st: "?st = (w, b)" by (rule prod.exhaust)
  have "program_step watch_sys watch_settings watch_start ?st"
    by (rule step_call) (simp add: watch_start_def callbacks_of_def bus_new_def)
  moreover have "callback_map (snd ?st) = [5 \<mapsto> [Acceptor_Callback], 6 \<mapsto> map snd (session_registrations 6 6 0 1) @ [Session_Callback [6]]]"
    "sockets (kernel (fst ?st)) = [6]"
    by (simp_all add: watch_simps wire_simps)
  then have "{fd. callbacks_of b fd \<noteq> []} = {5, 6}" "sockets (kernel w) = [6]" by (auto simp: st callbacks_of_def)
  ultimately show ?thesis unfolding st by blast
qed

theorem kernel_watches_callbacks_witness:
  "\<exists>st. (program_step watch_sys watch_settings)\<^sup>*\<^sup>* watch_start st \<and> k_interest (os_world (fst st)) = {5, 6}"
proof -
  note watches = kernel_watches_callbacks [OF watch_descriptors watch_interest watch_init]
  from watch_run obtain w b where run: "(program_step watch_sys watch_settings)\<^sup>*\<^sup>* watch_start (w, b)"
    and "{fd. callbacks_of b fd \<noteq> []} = {5, 6}" by blast
  with watches [OF run] have "k_interest (os_world (fst (w, b))) = {5, 6}" by simp
  with run show ?thesis by blast
qed

end
