(* ===== verification/Program_Leak.thy ===== *)
theory Program_Leak
  imports Program_Watch
begin

text \<open>
  Descriptors are not lost: as long as no call fails for which \<open>Socket\<close>, \<open>Session\<close> and \<open>Bus\<close> show that a descriptor
  is lost, the open descriptors of a program are those of its start and those of its sockets, in every reachable state.
\<close>

section \<open>Calls that succeed\<close>

text \<open>
  Watching an open descriptor and shutting down a connection succeed, the target can be connected to, and
  \<^verbatim>\<open>accept\<close> does not return descriptor 0, which the code takes for none.
\<close>

definition calls_succeed :: "'os sys \<Rightarrow> 'os settings \<Rightarrow> ('os world \<Rightarrow> fd set) \<Rightarrow> bool" where
  "calls_succeed sys su opens \<longleftrightarrow>
     (\<forall>e fd ev w. fd \<in> opens w \<longrightarrow> fst (s_ctl sys e EPOLL_CTL_ADD fd ev w) \<noteq> -1) \<and>
     (\<forall>fd w. fst (s_shutdown sys fd w) \<noteq> -1) \<and>
     (\<forall>fd w. fst (fst (s_accept sys fd w)) = -1 \<or> 0 < fst (fst (s_accept sys fd w))) \<and>
     (\<forall>w. \<exists>tfd w'. socket_connect (s_getaddrinfo sys) (s_socket sys) (s_connect sys) (s_close sys) (su_target su) w = (Inr tfd, w'))"

lemma calls_succeedD:
  assumes "calls_succeed sys su opens"
  shows "fd \<in> opens w \<Longrightarrow> fst (s_ctl sys e EPOLL_CTL_ADD fd ev w) \<noteq> -1" and "fst (s_shutdown sys fd w) \<noteq> -1"
    and "fst (fst (s_accept sys fd w)) \<noteq> -1 \<Longrightarrow> 0 < fst (fst (s_accept sys fd w))"
  using assms unfolding calls_succeed_def by blast+

lemma target_reached: "calls_succeed sys su opens \<Longrightarrow> connect_target sys su fd w \<noteq> (Inl ex, w1)"
  unfolding calls_succeed_def connect_target_def lift_sys_def
  by (auto split: prod.splits sum.splits) (metis Inl_Inr_False prod.inject)

text \<open>With an open descriptor every registration succeeds.\<close>

lemma registering_succeeds:
  assumes fds: "descriptors_documented sys opens" and ok: "calls_succeed sys su opens"
    and reg: "registering sys su regs st0 x st" and "fst ` regs \<subseteq> open_fds opens (fst st0)"
  shows "x = None"
  using reg
proof (induction)
  case (register st fd cb x st')
  obtain w b where st: "st = (w, b)" by (cases st)
  let ?add = "s_ctl sys (epfd (su_epoll su)) EPOLL_CTL_ADD fd (Some \<lparr>ev_events = event_mask (su_epoll su), ev_fd = fd\<rparr>)"
  have "fd \<in> open_fds opens w" using registering_open [OF fds register.hyps(1)] register.hyps(2) assms(4) st by force
  then have "fst (?add (os_world w)) \<noteq> -1" by (rule calls_succeedD(1) [OF ok])
  moreover obtain r w1 where l: "lift_sys ?add w = (r, w1)" by (rule prod.exhaust)
  ultimately have "r \<noteq> -1" using os_world_lift_sys(2) [of ?add w] by simp
  with register.hyps(3) l st show ?case
    by (auto simp: epoll_bus_add_def add_fd_def epoll_add_fd_def Let_def split: option.splits)
qed simp_all

section \<open>Closing\<close>

lemma close_socket_done:
  assumes fds: "descriptors_documented sys opens" and doc: "interest_documented sys opens interest" and ok: "calls_succeed sys su opens"
    and fd: "fd \<in> interest (os_world w)" and c: "close_socket sys su fd (w, b) = (w', b')"
  shows "open_fds opens w' = open_fds opens w - {fd}" and "sockets (kernel w') = filter (\<lambda>g. g \<noteq> fd) (sockets (kernel w))"
proof -
  note F = descriptors_documentedD [OF fds] and D = interest_documentedD [OF doc]
  let ?del = "s_ctl sys (epfd (su_epoll su)) EPOLL_CTL_DEL fd None"
  obtain r1 w1 where 1: "lift_sys ?del w = (r1, w1)" by (rule prod.exhaust)
  obtain r2 w2 where 2: "lift_sys (s_shutdown sys fd) w1 = (r2, w2)" by (rule prod.exhaust)
  obtain r3 w3 where 3: "lift_sys (s_close sys fd) w2 = (r3, w3)" by (rule prod.exhaust)
  have r: "r1 \<noteq> -1" "r2 \<noteq> -1" "fd \<noteq> -1"
    using D(2) [of "epfd (su_epoll su)" fd None "os_world w"] calls_succeedD(2) [OF ok, of fd "os_world w1"] fd D(4) [of "os_world w"]
      os_world_lift_sys(2) [of ?del w] os_world_lift_sys(2) [of "s_shutdown sys fd" w1] unfolding 1 2 by auto
  have o: "open_fds opens w3 = open_fds opens w - {fd}"
    using F(5,7,9) os_world_lift_sys(1) [of ?del w] os_world_lift_sys(1) [of "s_shutdown sys fd" w1]
      os_world_lift_sys(1) [of "s_close sys fd" w2] unfolding 1 2 3 by simp
  have "os_world w' = os_world w3"
    using c 1 2 3 r
    by (auto simp: close_socket_def close_connection_noexcept_def close_connection_def epoll_bus_del_def del_fd_def
        epoll_del_fd_def Let_def split: if_splits)
  with o show "open_fds opens w' = open_fds opens w - {fd}" by simp
  show "sockets (kernel w') = filter (\<lambda>g. g \<noteq> fd) (sockets (kernel w))"
    using close_socket_live(1) [OF fds, of su fd "(w, b)"] c by simp
qed

lemma close_sockets_done:
  assumes fds: "descriptors_documented sys opens" and doc: "interest_documented sys opens interest" and ok: "calls_succeed sys su opens"
  shows "fold (close_socket sys su) cs (w, b) = (w', b') \<Longrightarrow> distinct cs \<Longrightarrow> set cs \<subseteq> interest (os_world w) \<Longrightarrow>
    open_fds opens w' = open_fds opens w - set cs"
proof (induction cs arbitrary: w b)
  case (Cons fd cs)
  obtain w1 b1 where c: "close_socket sys su fd (w, b) = (w1, b1)" by (rule prod.exhaust)
  note done1 = close_socket_done [OF fds doc ok _ c] and watch = close_socket_watch(1) [OF fds doc c]
  have "fold (close_socket sys su) cs (w1, b1) = (w', b')" using Cons.prems(1) c by simp
  moreover have "set cs \<subseteq> interest (os_world w1)" using Cons.prems(2,3) unfolding watch by auto
  ultimately have "open_fds opens w' = open_fds opens w1 - set cs" using Cons.IH Cons.prems(2) by simp
  with done1 Cons.prems(3) show ?case by auto
qed simp

section \<open>The invariant\<close>

definition kept :: "('os world \<Rightarrow> fd set) \<Rightarrow> fd set \<Rightarrow> ('os machine, callback) state \<Rightarrow> bool" where
  "kept opens base st \<longleftrightarrow>
     open_fds opens (fst st) = base \<union> set (sockets (kernel (fst st))) \<and> base \<inter> set (sockets (kernel (fst st))) = {} \<and>
     (\<forall>fd\<in>set (sockets (kernel (fst st))). callbacks_of (snd st) fd \<noteq> [])"

lemma kept_same:
  assumes "kept opens base (w, b)" and "sockets (kernel w') = sockets (kernel w)" and "open_fds opens w' = open_fds opens w"
    and "callback_map b' = callback_map b"
  shows "kept opens base (w', b')"
  using assms callbacks_of_same [OF assms(4)] by (simp add: kept_def)

lemma kept_clean_up:
  assumes fds: "descriptors_documented sys opens" and doc: "interest_documented sys opens interest" and ok: "calls_succeed sys su opens"
    and typed: "well_typed su (w, b)" and live: "live su opens (w, b)" and inv: "watch_inv su opens interest (w, b)"
    and kept: "kept opens base (w, b)"
  shows "kept opens base (clean_up (destroy_objects sys su) (w, b))"
proof (cases "callbacks_to_remove b = {}")
  case True
  with kept show ?thesis by simp
next
  case False
  let ?cs = "filter (\<lambda>fd. \<not> referenced (kernel w) (erase b) fd) (rev (sockets (kernel w)))"
  obtain w' b' where d: "destroy_objects sys su (w, erase b) = (w', b')" by (rule prod.exhaust)
  have f: "fold (close_socket sys su) ?cs (w, erase b) = (w', b')" using d by (simp add: destroy_objects_def)
  have cs: "set ?cs = unused (w, erase b)" by (auto simp: unused_def)
  have i: "interest (os_world w) = {fd. callbacks_of b fd \<noteq> []}" using inv by (simp add: watch_inv_def watched_def)
  with kept have sub: "set (sockets (kernel w)) \<subseteq> interest (os_world w)" by (auto simp: kept_def)
  have socks: "unused (w, erase b) \<subseteq> set (sockets (kernel w))" by (auto simp: unused_def)
  have "distinct ?cs" using live by (simp add: live_def sockets_live_def)
  moreover have "set ?cs \<subseteq> interest (os_world w)" unfolding cs using socks sub by (rule order_trans)
  ultimately have o: "open_fds opens w' = open_fds opens w - unused (w, erase b)"
    using close_sockets_done [OF fds doc ok f] unfolding cs by blast
  have s: "set (sockets (kernel w')) = set (sockets (kernel w)) - unused (w, erase b)"
    using close_sockets_live [OF fds, of su ?cs "(w, erase b)"] unfolding f cs by auto
  have c: "clean_up (destroy_objects sys su) (w, b) = (w', b'\<lparr>callbacks_to_remove := {}\<rparr>)"
    using False d by (simp add: clean_up_def)
  have map: "callbacks_of (b'\<lparr>callbacks_to_remove := {}\<rparr>) = callbacks_of (erase b)"
    by (rule callbacks_of_same) (simp add: destroy_watch(6) [OF fds doc d])
  have "callbacks_of (erase b) fd \<noteq> []" if fd: "fd \<in> set (sockets (kernel w)) - unused (w, erase b)" for fd
  proof -
    have "fd \<notin> callbacks_to_remove b" using unused_erased [OF typed live inv] fd sub by blast
    with kept fd show ?thesis by (simp add: kept_def callbacks_of_erase)
  qed
  with kept socks show ?thesis unfolding c kept_def fst_conv snd_conv map o s by blast
qed

text \<open>A new connection is registered, so it is not taken back.\<close>

lemma kept_new_session:
  assumes fds: "descriptors_documented sys opens" and ok: "calls_succeed sys su opens"
    and fd: "fd \<in> open_fds opens w" "sockets_live su opens (make_socket fd w)"
    and kept: "open_fds opens w = insert fd (base \<union> set (sockets (kernel w)))" "base \<inter> insert fd (set (sockets (kernel w))) = {}"
      "\<forall>fd\<in>set (sockets (kernel w)). callbacks_of b fd \<noteq> []"
    and n: "new_session sys su fd a (w, b) = (y, st)"
  shows "kept opens base st"
  using n
proof (cases rule: new_session_cases)
  case (refused ex w1)
  with target_reached [OF ok] show ?thesis by blast
next
  case (session tfd w1 x st1)
  note r = reaches_open [OF fds session(1) fd(2)] and reg = session(2)
  have o: "open_fds opens (fst st1) = insert tfd (open_fds opens w)" and s: "sockets (kernel (fst st1)) = sockets (kernel w1)"
    using registering_open [OF fds reg] registering_frame(3) [OF reg] r(3) by simp_all
  have "fst ` session_callbacks fd tfd (next_channel (kernel w)) \<subseteq> open_fds opens (fst (w1, b))"
    using fd(1) unfolding fst_session_callbacks fst_conv r(3) by simp
  from registering_succeeds [OF fds ok reg this] have x: "x = None" .
  then have st: "st = st1" using session(3) by simp
  have "callbacks_of (snd st1) g \<noteq> []" if "g \<in> insert fd (insert tfd (set (sockets (kernel w))))" for g
    using that session(4) [OF x] kept(3) registering_callbacks(2) [OF reg, of g] by auto
  moreover have "base \<inter> insert fd (insert tfd (set (sockets (kernel w)))) = {}" using kept(1,2) r(4) by auto
  moreover have "insert tfd (open_fds opens w) = base \<union> insert fd (insert tfd (set (sockets (kernel w))))" using kept(1) by auto
  ultimately show ?thesis unfolding kept_def st o s r(2) by blast
qed

lemma kept_acceptor_event:
  assumes fds: "descriptors_documented sys opens" and ok: "calls_succeed sys su opens"
    and live: "live su opens (w, b)" and kept: "kept opens base (w, b)"
    and ev: "acceptor_event native ntop (\<lambda>fd. lift_sys (s_accept sys fd)) (\<lambda>_. new_session sys su)
      \<lparr>acc_fd = lfd, acc_callbacks = [()]\<rparr> fd m (w, b) = (x, w', b')"
  shows "kept opens base (w', b')"
proof (cases "flags_test m flags_error")
  case True
  with kept ev show ?thesis by (simp add: acceptor_event_def accept_new_client_def)
next
  case False
  obtain conn sa v1 where acc: "s_accept sys lfd (os_world w) = ((conn, sa), v1)" by (metis surj_pair)
  let ?w1 = "with_os v1 w" and ?b = "enqueue_event fd flags_in b" and ?a = "peer_address native ntop sa"
  have lift: "lift_sys (s_accept sys lfd) w = ((conn, sa), ?w1)" using acc by (simp add: lift_sys_def)
  have queue: "callbacks_of ?b = callbacks_of b" by (rule callbacks_of_same) (simp add: enqueue_event_def)
  show ?thesis
  proof (cases "conn = -1")
    case True
    with accept_documented_failed [OF fds] acc have "opens v1 = open_fds opens w" by simp
    moreover have "w' = ?w1" "b' = b \<or> b' = ?b"
      using ev False lift True
      by (auto simp: acceptor_event_def accept_new_client_def make_v4_eq Let_def split: if_splits)
    ultimately show ?thesis using kept_same [OF kept, of ?w1 b'] by (auto simp: enqueue_event_def)
  next
    case conn: False
    with calls_succeedD(3) [OF ok, of lfd "os_world w"] acc have pos: "0 < conn" by simp
    note open_conn = accept_documented_fds [OF fds acc conn]
    obtain y w2 b2 where n: "new_session sys su conn ?a (?w1, ?b) = (y, w2, b2)" by (rule prod_cases3)
    with ev False lift pos have "w' = w2" "b' = b2"
      by (cases y; simp add: acceptor_event_def accept_new_client_def make_v4_eq)+
    moreover have "kept opens base (w2, b2)"
    proof (rule kept_new_session [OF fds ok _ _ _ _ _ n])
      show "sockets_live su opens (make_socket conn ?w1)"
      proof (rule sockets_live_new [where w = w])
        show "sockets_live su opens w" using live by (simp add: live_def)
        show "open_fds opens (make_socket conn ?w1) = insert conn (open_fds opens w)" using open_conn(1) by simp
        show "conn \<notin> open_fds opens w" using open_conn(2) by simp
      qed simp
      show "base \<inter> insert conn (set (sockets (kernel ?w1))) = {}" using kept open_conn(2) by (auto simp: kept_def)
    qed (use kept open_conn(1) queue in \<open>auto simp: kept_def\<close>)
    ultimately show ?thesis by simp
  qed
qed

lemma kept_invoke:
  assumes fds: "descriptors_documented sys opens" and ok: "calls_succeed sys su opens"
    and live: "live su opens st" and kept: "kept opens base st"
  shows "kept opens base (snd (program_invoke sys su cb fd m st))"
proof -
  obtain w b where st: "st = (w, b)" by (cases st)
  obtain x w' b' where r: "program_invoke sys su cb fd m (w, b) = (x, w', b')" by (rule prod_cases3)
  have "kept opens base (w', b')"
  proof (cases cb)
    case (Channel_Callback s i)
    with r have e: "channel_event sys su s i fd m (w, b) = (x, w', b')" by (simp add: program_invoke_def)
    note frame = channel_event_frame(1,4) [OF e] and o = channel_event_open [OF fds e]
    show ?thesis by (rule kept_same [OF kept [unfolded st] frame(2) o]) (use frame(1) in \<open>simp add: same_registrations_def\<close>)
  next
    case (Session_Callback cs)
    with r have "w' = w" "callback_map b' = callback_map b" by (auto simp: program_invoke_def session_event_def split: if_splits)
    with kept_same [OF kept [unfolded st], of w b'] show ?thesis by simp
  next
    case Acceptor_Callback
    with r have "acceptor_event (su_native su) (s_ntop sys) (\<lambda>fd. lift_sys (s_accept sys fd)) (\<lambda>_. new_session sys su)
      \<lparr>acc_fd = su_listen su, acc_callbacks = [()]\<rparr> fd m (w, b) = (x, w', b')" by (simp add: program_invoke_def)
    with kept_acceptor_event [OF fds ok] live kept st show ?thesis by blast
  qed
  with r st show ?thesis by simp
qed

lemma kept_step:
  assumes fds: "descriptors_documented sys opens" and doc: "interest_documented sys opens interest" and ok: "calls_succeed sys su opens"
  shows "program_step sys su st st' \<Longrightarrow> well_typed su st \<Longrightarrow> live su opens st \<Longrightarrow> watch_inv su opens interest st \<Longrightarrow>
    kept opens base st \<Longrightarrow> kept opens base st'"
proof (induction rule: program_step.induct)
  case (step_call cb st fd m)
  then show ?case by (intro kept_invoke [OF fds ok])
next
  case (step_clean st)
  then show ?case by (cases st) (simp add: kept_clean_up [OF fds doc ok])
next
  case (step_queue w b)
  from step_queue(4) show ?case by (rule kept_same) simp_all
next
  case (step_wait w b e n t)
  from step_wait(4) show ?case
    by (rule kept_same) (simp_all add: os_world_lift_sys descriptors_documentedD(2,6) [OF fds])
next
  case (step_writer rd w fw b)
  from step_writer(5) show ?case by (rule kept_same) simp_all
next
  case (step_writer_assert rd w b)
  from step_writer_assert(5) show ?case by (rule kept_same) simp_all
qed

section \<open>Properties\<close>

text \<open>
  C28. No descriptor is lost: as long as epoll takes open descriptors, connections can be shut down and the target can be
  reached, the open descriptors in every reachable state are those of the start and, disjoint from them, those of
  the sockets of the sessions, every one of which has callbacks that an error event would reach.
\<close>

theorem descriptors_kept:
  assumes "descriptors_documented sys opens" and "interest_documented sys opens interest" and "calls_succeed sys su opens"
    and "program_init su q st0" and "su_listen su \<in> opens (os_world (fst st0))" and "interest (os_world (fst st0)) = {su_listen su}"
    and "(program_step sys su)\<^sup>*\<^sup>* st0 st"
  shows "opens (os_world (fst st)) = opens (os_world (fst st0)) \<union> set (sockets (kernel (fst st))) \<and>
    opens (os_world (fst st0)) \<inter> set (sockets (kernel (fst st))) = {} \<and>
    (\<forall>fd\<in>set (sockets (kernel (fst st))). callbacks_of (snd st) fd \<noteq> [])"
proof -
  have "kept opens (opens (os_world (fst st0))) st"
    using assms(7)
  proof (induction rule: rtranclp_induct)
    case base
    show ?case using assms(4) by (simp add: kept_def program_init_def Let_def)
  next
    case (step st st')
    note live = live_steps [OF assms(1,4,5) step.hyps(1)] and watch = watch_inv_steps [OF assms(1,2,4-6) step.hyps(1)]
    from live watch show ?case by (intro kept_step [OF assms(1-3) step.hyps(2) _ _ _ step.IH]) simp_all
  qed
  then show ?thesis by (simp add: kept_def)
qed

text \<open>The run of \<open>Program_Watch\<close>, on the kernel whose calls succeed.\<close>

lemma watch_succeeds: "calls_succeed watch_sys watch_settings k_open"
  by (auto simp: calls_succeed_def watch_simps socket_connect_def addrinfo_new_def candidate_def Let_def)

theorem descriptors_kept_witness:
  "\<exists>st. (program_step watch_sys watch_settings)\<^sup>*\<^sup>* watch_start st \<and> sockets (kernel (fst st)) = [6] \<and>
    k_open (os_world (fst st)) = {3, 5, 6}"
proof -
  note kept = descriptors_kept [OF watch_descriptors watch_interest watch_succeeds watch_init]
  from watch_run obtain w b where run: "(program_step watch_sys watch_settings)\<^sup>*\<^sup>* watch_start (w, b)"
    and "sockets (kernel w) = [6]" by blast
  with kept [OF run] have "k_open (os_world (fst (w, b))) = {3, 5, 6}" by (simp add: watch_open insert_commute)
  with run \<open>sockets (kernel w) = [6]\<close> show ?thesis by (intro exI [of _ "(w, b)"]) simp
qed

end
