(* ===== verification/Spec2Isabelle.thy ===== *)
theory Spec2Isabelle
  imports Flags Errors Endian Spsc_Interleavings Log_Linear Protocol Handler QueryProcessor Context Addr Socket Channel
    Acceptor Session Proxy Program_Main Program_Sessions Program_Leak
begin

text \<open>
  A model of the TCP and PostgreSQL proxy under \<^verbatim>\<open>src/src/\<close>: an I/O library
  (\<^verbatim>\<open>io/\<close>) and three programs on it, \<^verbatim>\<open>echo/\<close>, \<^verbatim>\<open>tcp_proxy/\<close> and
  \<^verbatim>\<open>psql_proxy/\<close>.  The last one forwards the traffic between PostgreSQL clients and a
  server in both directions and writes the text of every query a client sends to a log file.

  \<^bold>\<open>How the program works.\<close>  One thread runs \<^verbatim>\<open>io::context::run\<close>, a loop over
  \<^verbatim>\<open>io::bus::wait_events\<close>: callbacks registered per descriptor are called for the events
  that callbacks queued themselves and for those the kernel's epoll reports.  The acceptor's callback
  accepts one connection per event, reports it to the server and queues an event for the next
  attempt.  The server makes a session: a socket connected to the target, two channels, one per
  direction, and a callback that removes both descriptors on an error event.  A channel reads from
  its left object into a bipartite buffer, shows the bytes to its handlers and writes the buffer to
  its right object.  The PostgreSQL session has a handler on the channel from the client: it cuts the
  byte stream into protocol messages and gives queries to a logger, which puts them into a second
  bipartite buffer; a second thread moves that buffer to the file.

  \<^bold>\<open>Theories and the code they model.\<close>
  \<^item> \<^verbatim>\<open>Prelude\<close>: bytes, descriptors, memory behind a pointer, \<^verbatim>\<open>std::size_t\<close>
    arithmetic with its wrap-around modulo \<open>2 ^ 64\<close> (collection \<open>szt_simps\<close>), memory ranges as
    lists (collection \<open>mem_simps\<close>).
  \<^item> \<^verbatim>\<open>Errors\<close>: \<^verbatim>\<open>io/error\<close>; exceptions as values.  \<^verbatim>\<open>System\<close>: \<^verbatim>\<open>errno\<close>
    and the state of the kernel, which the system calls transform.
  \<^item> \<^verbatim>\<open>Flags\<close>: \<^verbatim>\<open>io/flags\<close>, as a distributive lattice of the library.
  \<^item> \<^verbatim>\<open>Endian\<close>: \<^verbatim>\<open>io/endianness\<close>, \<^verbatim>\<open>psql_proxy/endianness\<close>.
  \<^item> \<^verbatim>\<open>Buffer_Interface\<close>: the locale \<open>spsc_fifo\<close>, what the users of the bipartite buffer
    rely on, and the two patterns in which they use it.  \<^verbatim>\<open>Bipartite\<close>:
    \<^verbatim>\<open>io/bipartite_buf\<close>, operation by operation, and the interpretation \<open>bip\<close> of the
    locale.  \<^verbatim>\<open>Spsc\<close>: the same code as steps of two threads, one shared access per step.
    \<^verbatim>\<open>Spsc_Orders\<close>: these steps with the memory orders of \<^verbatim>\<open>thread_safety_atomic\<close>;
    \<^verbatim>\<open>Spsc_Views\<close>, \<^verbatim>\<open>Spsc_Writer\<close>, \<^verbatim>\<open>Spsc_Reader\<close>: the invariant and its proof for the
    two threads; \<^verbatim>\<open>Spsc_Interleavings\<close>: the interleavings of \<^verbatim>\<open>Spsc\<close> are such executions;
    \<^verbatim>\<open>Spsc_Linear\<close>: every execution does what a sequence of whole operations does.
  \<^item> \<^verbatim>\<open>Protocol\<close>: \<^verbatim>\<open>psql_proxy/message\<close> and \<^verbatim>\<open>psql_proxy/protocol/\<close>.
    \<^verbatim>\<open>Handler\<close>: \<^verbatim>\<open>psql_proxy/handler\<close>.  \<^verbatim>\<open>QueryProcessor\<close>:
    \<^verbatim>\<open>psql_proxy/query_processor\<close>, \<^verbatim>\<open>message_logger\<close>, \<^verbatim>\<open>data_processor\<close>
    and \<^verbatim>\<open>file_writer\<close>.  \<^verbatim>\<open>Log_Threads\<close>: the log between the reactor thread and the writer
    thread, step by step under the memory orders; \<^verbatim>\<open>Log_Linear\<close>: the same as a sequence of
    whole operations.
  \<^item> \<^verbatim>\<open>Bus\<close>: \<^verbatim>\<open>io/bus\<close>, \<^verbatim>\<open>io/event_reciever\<close>.  \<^verbatim>\<open>Epoll\<close>:
    \<^verbatim>\<open>io/epoll\<close>, the virtual functions of the bus.  \<^verbatim>\<open>Context\<close>: \<^verbatim>\<open>io/context\<close>.
  \<^item> \<^verbatim>\<open>Addr\<close>: \<^verbatim>\<open>io/v4\<close>, \<^verbatim>\<open>io/addrinfo\<close> and the connecting loop of
    \<^verbatim>\<open>io/socket\<close>.  \<^verbatim>\<open>Socket\<close>: the rest of \<^verbatim>\<open>io/socket\<close>, and the locale
    \<open>byte_stream\<close>, the contract of \<^verbatim>\<open>io/object\<close>, with its interpretation \<open>sock\<close>.
  \<^item> \<^verbatim>\<open>Channel\<close>: \<^verbatim>\<open>io/channel\<close>.  \<^verbatim>\<open>Acceptor\<close>: \<^verbatim>\<open>io/acceptor\<close>,
    \<^verbatim>\<open>io/acceptor_base\<close>.  \<^verbatim>\<open>Session\<close>: \<^verbatim>\<open>io/session_base\<close>, the sessions and
    the servers.  \<^verbatim>\<open>Proxy\<close>: \<^verbatim>\<open>psql_proxy/session\<close>, where channel, handler and log
    are put together.
  \<^item> \<^verbatim>\<open>Bus_Client\<close>: the locales \<open>bus_client\<close> and \<open>epoll_client\<close>, what the bus and the loop of
    \<^verbatim>\<open>io/context\<close> keep if every callback keeps it.  \<^verbatim>\<open>Program\<close>: the state of a whole program (its
    sockets, channels, writer thread and bus), the callbacks that acceptor, sessions and channels register as one
    function \<open>program_invoke\<close> on it, the lifetimes of the objects, and the step relation \<open>program_step\<close>
    with its reachable states.  \<^verbatim>\<open>Program_Safe\<close>: the locale \<open>program_invariant\<close>, what a property of
    the objects has to keep to hold in every reachable state, and its interpretation \<open>traffic\<close>.
    \<^verbatim>\<open>Program_Log\<close>: the interpretation \<open>log\<close>.  \<^verbatim>\<open>Program_Types\<close>: the registrations.
  \<^item> \<^verbatim>\<open>Program_Run\<close>: the reactor loop as a run of the step relation, by the interpretation \<open>reactor\<close>
    of \<open>epoll_client\<close>.  \<^verbatim>\<open>Program_Sessions\<close>: sessions beside each other and their end.
    \<^verbatim>\<open>Program_Open\<close>: descriptors and lifetimes along the runs.  \<^verbatim>\<open>Program_Watch\<close>: the kernel's
    interest list along the runs.  \<^verbatim>\<open>Program_Leak\<close>: no descriptor is lost while the calls succeed.
    \<^verbatim>\<open>Program_Main\<close>: \<^verbatim>\<open>echo/main.cpp\<close>, \<^verbatim>\<open>tcp_proxy/main.cpp\<close> and
    \<^verbatim>\<open>psql_proxy/main.cpp\<close>.

  \<^bold>\<open>How state and effects correspond.\<close>  A class is a record of its data members with one
  function per method; a method that changes its object returns the changed record.  A function that
  throws returns \<open>Inl\<close> of an exception or, where it has changed state before, an optional exception
  beside the state.  A failed \<^verbatim>\<open>assert\<close> is \<open>None\<close>.  System calls, the resolver and what a
  callback does when it is called are arguments; what is assumed of them is a hypothesis of the lemma
  that needs it.  A pointer is the memory it points into, as a function from offsets.  Shared objects
  of a program are numbered: a channel by the order of its making, a socket by its descriptor.  A
  socket whose last callback has been erased is destroyed, and its destructor closes it.

  \<^bold>\<open>What the lemmas show.\<close>
  \<^item> The buffer is a queue: releases append to its contents and drop from them, acquired space is
    inside the array and holds no unread data; between two threads this holds in every execution that the
    memory orders of the code allow, and there is no data race on the cells.  A reservation that was made
    at the start of the array and not released spoils a later, smaller one.
  \<^item> The handler's two branches refine one abstract reading of the stream, so the way the stream is cut
    into chunks does not matter, and a stream of well-formed messages is logged exactly.
  \<^item> The log: what reaches the file is made of whole pieces of the messages in order, in every execution of the
    two threads; nothing is lost as long as the writer keeps up and messages are shorter than a chunk.
  \<^item> The bus: order and completeness of delivery, containment of exceptions, deferred removal; the
    descriptors with callbacks are those the kernel watches.  The loop ends on a stop request or an
    exception and otherwise never.
  \<^item> A channel forwards the bytes it reads, in order and without loss; the PostgreSQL session logs the
    queries among the bytes it forwards.  A channel whose right object takes all bytes is empty after two
    writable events.
  \<^item> Error paths of sockets, acceptor and sessions, descriptor leaks among them.
  \<^item> Whole programs, in every state they can reach: no assertion fails, all channels forward in order, the
    log is what the queries of all clients and the writer thread make of it, every callback fits its
    descriptor and uses open descriptors only, the kernel watches exactly the descriptors with callbacks;
    as long as the calls succeed, the only open descriptors beside those of the start are the sockets of
    sessions that an error event would end.  The queries of a well-formed client stream are its part of the
    log, an event reaches only the session it belongs to, and an error event closes both sockets of a
    session.  A program ends on a signal with exit code 0 and otherwise never; a failed start leaves no
    descriptor open.  The echo service may return bytes in another order than it received them.

  \<^bold>\<open>Bounds and fuel.\<close>  \<^verbatim>\<open>std::size_t\<close> has 64 bits; buffers have the code's sizes, 131070
  bytes in a channel and 2048 in the log.  The byte order of a packet is guessed, rightly for every length below
  65536, so the theorems on client streams ask for that.  The loop of \<^verbatim>\<open>io::context\<close> is a
  partial function into \<open>option\<close>, where \<open>None\<close> is a loop that never returns; the loop of the writer
  thread is over the list of what it finds at each turn.  All other loops are shown to terminate.

  \<^bold>\<open>Two threads.\<close>  In \<open>Spsc_Orders\<close> a load may return an old value of an index, and what a thread has
  written is visible to the other one only through a releasing store that the other one has acquired.  The
  order of the two stores of \<^verbatim>\<open>write_release\<close> and the release of \<open>_w\<close> are what makes the relaxed load
  of \<open>_i\<close> safe.  The model is that of release and acquire with a modification order per index, which is
  exact here as each index has one writer and no load depends on a later store.  Every execution is equivalent to
  one in which whole operations come one after the other: a put where it stores \<open>_w\<close>, a release of the
  consumer where the producer first sees it.  The theories above it interleave whole operations: the writer
  thread's loop body runs between two callbacks in \<open>program_step\<close> and between two turns of the loop in \<open>program_turn\<close>; there
  all pieces of a message are one operation.

  \<^bold>\<open>What is not modelled.\<close>  Console output and the debug macro of \<^verbatim>\<open>io/log.hpp\<close>; the
  memory orders of the flag that stops the writer thread; the size of the vector that \<^verbatim>\<open>epoll_wait\<close> fills; running out of
  memory; a signal is seen by the loop between two turns.  The members of \<^verbatim>\<open>io/object.hpp\<close>
  that only call a virtual function are that function.
\<close>

end
